(* ===== verification/Prelude.thy ===== *)
theory Prelude
  imports Main "HOL-Library.Word"
begin

text \<open>
  Shared vocabulary of the development: the names of the machine types the C++ sources use,
  the collections of facts the component theories feed their automation with, and the
  generic lemmas on lists, words and sums that more than one component needs.
\<close>

section \<open>Machine types\<close>

text \<open>
  \<open>size_t\<close> is the 64-bit unsigned type of \<^verbatim>\<open>std::vector::size\<close> and of the results of
  \<^verbatim>\<open>Comb::length\<close>; the index types of the two \<^verbatim>\<open>Comb\<close> instantiations are 32-bit
  signed (\<^verbatim>\<open>int32_t\<close>, shortest path) and 16-bit unsigned (\<^verbatim>\<open>uint16_t\<close>, automaton).
  A word is read back as an integer with \<open>unat\<close> (unsigned) or \<open>sint\<close> (two's complement).
\<close>

type_synonym size_t = "64 word"
type_synonym int32 = "32 word"
type_synonym uint16 = "16 word"

named_theorems read_simps "how stored words read back, for the component proofs"

section \<open>Words read back as naturals\<close>

text \<open>
  A conversion of a stored index word into \<open>size_t\<close> is exact on a word when it preserves
  its unsigned value. Both conversions of C++ are instances: \<open>ucast\<close> (from an unsigned
  type) is exact everywhere, \<open>scast\<close> (from a signed type) below the sign bit.
\<close>

definition exact_on :: "('i::len word \<Rightarrow> size_t) \<Rightarrow> 'i word \<Rightarrow> bool" where
  "exact_on conv x \<longleftrightarrow> unat (conv x) = unat x"

section \<open>Loops that may fail\<close>

text \<open>
  A \<^verbatim>\<open>for\<close> loop over a sequence whose body may perform an out-of-range access (the error
  \<open>None\<close>): the body threads the loop state and the first failure ends the loop.
\<close>

fun fold_opt :: "('a \<Rightarrow> 's \<Rightarrow> 's option) \<Rightarrow> 'a list \<Rightarrow> 's \<Rightarrow> 's option" where
  "fold_opt f [] s = Some s"
| "fold_opt f (x # xs) s = (case f x s of None \<Rightarrow> None | Some s' \<Rightarrow> fold_opt f xs s')"

lemma exact_on_ucast [read_simps]:
  assumes "LENGTH('i::len) \<le> 64"
  shows "exact_on (ucast :: 'i word \<Rightarrow> size_t) x"
proof -
  have "is_up (ucast :: 'i word \<Rightarrow> size_t)" using assms by (simp add: is_up)
  then have "uint (ucast x :: size_t) = uint x" by (rule uint_up_ucast)
  then show ?thesis unfolding exact_on_def by (simp only: unat_eq_nat_uint)
qed

lemma sint_eq_uint_below:
  fixes x :: "'i::len word"
  assumes "unat x < 2 ^ (LENGTH('i) - 1)"
  shows "sint x = uint x"
proof -
  have "uint x < 2 ^ (LENGTH('i) - 1)" using assms
    by (metis of_nat_less_numeral_power_cancel_iff unat_eq_nat_uint uint_nonnegative int_nat_eq)
  moreover have "- (2 ^ (LENGTH('i) - 1)) \<le> uint x"
    using uint_nonnegative[of x] by (smt (verit) zero_le_power)
  ultimately show ?thesis
    by (simp add: sint_uint signed_take_bit_int_eq_self_iff)
qed

lemma exact_on_scast [read_simps]:
  fixes x :: "'i::len word"
  assumes "LENGTH('i) \<le> 64" and "unat x < 2 ^ (LENGTH('i) - 1)"
  shows "exact_on (scast :: 'i word \<Rightarrow> size_t) x"
proof -
  have s: "sint x = uint x" using assms(2) by (rule sint_eq_uint_below)
  have "uint x < 2 ^ LENGTH('i)" by (rule uint_lt2p)
  moreover have "(2::int) ^ LENGTH('i) \<le> 2 ^ 64"
    by (rule power_increasing) (use assms(1) in auto)
  ultimately have "uint x < 2 ^ 64" by linarith
  then have "take_bit 64 (uint x) = uint x"
    by (intro take_bit_int_eq_self) simp_all
  moreover have "uint (scast x :: size_t) = take_bit 64 (sint x)"
    by (simp only: scast_eq uint_word_of_int_eq) simp
  ultimately have "uint (scast x :: size_t) = uint x" by (simp only: s)
  then show ?thesis unfolding exact_on_def by (simp only: unat_eq_nat_uint)
qed

lemma sint_nonneg_uint:
  fixes v :: "'a::len word"
  assumes "0 \<le> sint v"
  shows "sint v = uint v"
proof -
  have "sint v < 2 ^ (LENGTH('a) - 1)" by (rule sint_lt)
  also have "(2::int) ^ (LENGTH('a) - 1) \<le> 2 ^ LENGTH('a)" by (rule power_increasing) simp_all
  finally have "take_bit LENGTH('a) (sint v) = sint v" using assms by (simp add: take_bit_int_eq_self)
  then show ?thesis by (metis uint_sint)
qed

lemma unat_of_nat_below [read_simps]:
  "k < 2 ^ LENGTH('i::len) \<Longrightarrow> unat (of_nat k :: 'i word) = k"
  by (simp add: unat_of_nat)

text \<open>A counter that is incremented until it meets its target (\<^verbatim>\<open>for (; src != n; ++src)\<close>)
  gets closer to it in every round, wrap-around included.\<close>

lemma unat_sub_Suc:
  fixes src target :: "'k::len word"
  assumes "src \<noteq> target"
  shows "unat (target - (src + 1)) = unat (target - src) - 1 \<and> 0 < unat (target - src)"
proof -
  have nz: "target - src \<noteq> 0" using assms by simp
  have eq: "target - (src + 1) = (target - src) - 1" by simp
  have "unat ((target - src) - 1) = unat (target - src) - 1" using nz by (rule unat_minus_one)
  moreover have "0 < unat (target - src)" using nz by (simp add: unat_gt_0)
  ultimately show ?thesis by (simp only: eq)
qed

lemma unat_sub_Suc_less:
  fixes src target :: "'k::len word"
  assumes "src \<noteq> target"
  shows "unat (target - (src + 1)) < unat (target - src)"
  using unat_sub_Suc[OF assms] by arith

section \<open>Lists\<close>

text \<open>
  Distances are kept in a list of integers that only decreases; the sum of its entries as
  naturals is the measure that makes the relaxation loops stop.
\<close>

lemma sum_list_nat_update_less:
  assumes "i < length xs" and "nat y < nat (xs ! i)"
  shows "sum_list (map nat (xs[i := y])) < sum_list (map nat xs)"
  using assms
proof (induction xs arbitrary: i)
  case Nil
  then show ?case by simp
next
  case (Cons x xs)
  then show ?case by (cases i) auto
qed

text \<open>Reading a row element by element succeeds when every read does.\<close>

lemma those_map_Some:
  "list_all2 (\<lambda>x y. f x = Some y) xs ys \<Longrightarrow> those (map f xs) = Some ys"
  by (induction rule: list_all2_induct) auto

lemma those_map_upt:
  assumes "length ys = n" and "\<And>j. j < n \<Longrightarrow> f j = Some (ys ! j)"
  shows "those (map f [0..<n]) = Some ys"
  using assms by (intro those_map_Some) (simp add: list_all2_conv_all_nth)

lemma unat_sint_nonneg:
  assumes "0 \<le> sint x"
  shows "unat x = nat (sint x)"
proof -
  have "sint x = uint x" using assms by (rule sint_nonneg_uint)
  then show ?thesis by (simp only: unat_eq_nat_uint)
qed

lemma those_map_all_Some:
  "(\<And>x. x \<in> set xs \<Longrightarrow> f x = Some (g x)) \<Longrightarrow> those (map f xs) = Some (map g xs)"
  by (induction xs) auto

text \<open>The conversions between \<open>size_t\<close> and the 32-bit types of \<^verbatim>\<open>1/good.C\<close>.\<close>

lemma unat_ucast_32_64: "unat (ucast x :: size_t) = unat (x :: 32 word)"
  using exact_on_ucast[of x] by (simp add: exact_on_def)

lemma unat_ucast_64_32:
  fixes x :: size_t
  assumes "unat x < 2 ^ 31"
  shows "unat (ucast x :: int32) = unat x"
proof -
  have "unat (ucast x :: int32) = take_bit LENGTH(32) (unat x)" by (rule unsigned_ucast_eq)
  also have "\<dots> = unat x mod 2 ^ 32" by (simp only: take_bit_eq_mod len_num1 numeral_eq_Suc) simp
  also have "\<dots> = unat x" using assms by simp
  finally show ?thesis .
qed

lemma sint_ucast_64_32:
  fixes x :: size_t
  assumes "unat x < 2 ^ 31"
  shows "sint (ucast x :: int32) = int (unat x)"
proof -
  have u: "unat (ucast x :: int32) = unat x" using assms by (rule unat_ucast_64_32)
  have "sint (ucast x :: int32) = uint (ucast x :: int32)"
    by (rule sint_eq_uint_below) (use assms u in simp)
  also have "uint (ucast x :: int32) = int (unat (ucast x :: int32))" by (simp only: uint_nat)
  finally show ?thesis by (simp only: u)
qed

text \<open>A loop whose body keeps a property of the state and never fails on it runs through.\<close>

lemma fold_opt_inv:
  assumes "P s" and "\<And>x s. x \<in> set xs \<Longrightarrow> P s \<Longrightarrow> \<exists>s'. f x s = Some s' \<and> P s'"
  shows "\<exists>s'. fold_opt f xs s = Some s' \<and> P s'"
  using assms
proof (induction xs arbitrary: s)
  case Nil
  then show ?case by simp
next
  case (Cons x xs)
  then obtain s' where "f x s = Some s'" "P s'" by (meson list.set_intros(1))
  moreover have "\<exists>s''. fold_opt f xs s' = Some s'' \<and> P s''"
    using Cons.IH[OF \<open>P s'\<close>] Cons.prems(2) by (meson list.set_intros(2))
  ultimately show ?case by simp
qed

lemma fold_opt_append:
  "fold_opt f (xs @ ys) s = (case fold_opt f xs s of None \<Rightarrow> None | Some s' \<Rightarrow> fold_opt f ys s')"
  by (induction xs arbitrary: s) (auto split: option.split)

lemma fold_opt_None_iff:
  assumes "Q s"
    and "\<And>x s. x \<in> set xs \<Longrightarrow> Q s \<Longrightarrow> (f x s = None \<longleftrightarrow> \<not> P x) \<and> (\<forall>s'. f x s = Some s' \<longrightarrow> Q s')"
  shows "fold_opt f xs s = None \<longleftrightarrow> \<not> list_all P xs"
  using assms
proof (induction xs arbitrary: s)
  case (Cons x xs)
  show ?case
  proof (cases "f x s")
    case None
    have "\<not> P x" using None Cons.prems(2)[of x s] Cons.prems(1) by simp
    then show ?thesis using None by simp
  next
    case (Some s')
    then have "P x" "Q s'" using Cons.prems(2)[of x s] Cons.prems(1) by auto
    moreover have "fold_opt f xs s' = None \<longleftrightarrow> \<not> list_all P xs"
      by (rule Cons.IH[OF \<open>Q s'\<close>]) (use Cons.prems(2) in auto)
    ultimately show ?thesis using Some by simp
  qed
qed simp

text \<open>The same, with a property of the number of iterations done.\<close>

lemma fold_opt_upt_inv:
  assumes "P 0 s" and "\<And>j s. j < n \<Longrightarrow> P j s \<Longrightarrow> \<exists>s'. f j s = Some s' \<and> P (Suc j) s'"
  shows "\<exists>s'. fold_opt f [0..<n] s = Some s' \<and> P n s'"
  using assms(2)
proof (induction n)
  case 0
  then show ?case using assms(1) by simp
next
  case (Suc n)
  have "\<And>j s. j < n \<Longrightarrow> P j s \<Longrightarrow> \<exists>s'. f j s = Some s' \<and> P (Suc j) s'" using Suc.prems by simp
  then obtain s' where "fold_opt f [0..<n] s = Some s'" "P n s'" using Suc.IH by blast
  moreover obtain s'' where "f n s' = Some s''" "P (Suc n) s''" using Suc.prems \<open>P n s'\<close> by blast
  ultimately show ?case by (simp add: fold_opt_append)
qed

lemma fold_opt_map: "fold_opt f (map g xs) s = fold_opt (\<lambda>x. f (g x)) xs s"
  by (induction xs arbitrary: s) (simp_all split: option.split)

lemma fold_opt_prefix_inv:
  assumes "P 0 s" and "\<And>j s. j < length xs \<Longrightarrow> P j s \<Longrightarrow> \<exists>s'. f (xs ! j) s = Some s' \<and> P (Suc j) s'"
  shows "\<exists>s'. fold_opt f xs s = Some s' \<and> P (length xs) s'"
proof -
  have "fold_opt f xs s = fold_opt (\<lambda>j. f (xs ! j)) [0..<length xs] s"
    using fold_opt_map[of f "nth xs" "[0..<length xs]" s] by (simp add: map_nth)
  then show ?thesis using fold_opt_upt_inv[of P s "length xs" "\<lambda>j. f (xs ! j)"] assms by simp
qed

text \<open>Unfolding a vector of a literal size, for the evaluation of concrete runs.\<close>

lemma replicate_numeral_Cons: "replicate (numeral k) x = x # replicate (pred_numeral k) x"
  by (simp add: numeral_eq_Suc)

lemma list_all_update: "list_all P xs \<Longrightarrow> P x \<Longrightarrow> list_all P (xs[i := x])"
  by (induction xs arbitrary: i) (auto split: nat.split)

lemma sum_list_map_update:
  "i < length xs \<Longrightarrow> sum_list (map f (xs[i := x])) + f (xs ! i) = sum_list (map f xs) + (f x :: nat)"
  by (induction xs arbitrary: i) (auto split: nat.split)

lemma map_update_same: "i < length xs \<Longrightarrow> f x = f (xs ! i) \<Longrightarrow> map f (xs[i := x]) = map f xs"
  by (metis length_map list_update_id map_update nth_map)

text \<open>Natural numbers below \<open>2^32\<close> through \<^verbatim>\<open>unsigned int\<close> and \<^verbatim>\<open>size_t\<close>.\<close>

lemma ucast_of_nat_32_64: "y < 2 ^ 32 \<Longrightarrow> (ucast (of_nat y :: 32 word) :: size_t) = of_nat y"
proof -
  assume y: "y < 2 ^ 32"
  have "unat (ucast (of_nat y :: 32 word) :: size_t) = y"
    using unat_ucast_32_64[of "of_nat y"] unat_of_nat_below[of y, where 'i = 32] y by simp
  moreover have "unat (of_nat y :: size_t) = y" using y by (simp add: unat_of_nat_below)
  ultimately show ?thesis by (metis word_unat_eq_iff)
qed

lemma count_of_offsets:
  "x \<le> y \<Longrightarrow> y < 2 ^ 32 \<Longrightarrow> unat ((ucast (of_nat y :: 32 word) :: size_t) - of_nat x) = y - x"
proof -
  assume xy: "x \<le> y" "y < 2 ^ 32"
  have "(of_nat y :: size_t) - of_nat x = of_nat (y - x)" using xy(1) by (simp add: of_nat_diff)
  moreover have "y - x < 2 ^ 64" using xy by simp
  ultimately show ?thesis using ucast_of_nat_32_64[OF xy(2)] by (simp add: unat_of_nat_below)
qed

lemma word32_less_nat: "a < 2 ^ 32 \<Longrightarrow> b < 2 ^ 32 \<Longrightarrow> (of_nat a :: 32 word) < of_nat b \<longleftrightarrow> a < b"
  by (simp add: word_less_nat_alt unat_of_nat_below)

lemma word64_less_nat: "a < 2 ^ 64 \<Longrightarrow> b < 2 ^ 64 \<Longrightarrow> (of_nat a :: size_t) < of_nat b \<longleftrightarrow> a < b"
  by (simp add: word_less_nat_alt unat_of_nat_below)

text \<open>Lists filled in place, and prefixes of concatenations.\<close>

lemma write_targets:
  "length vs \<le> m \<Longrightarrow>
   fold_opt (\<lambda>v s. case s of (tr, off) \<Rightarrow> if off < length tr then Some (tr[off := v], off + 1) else None)
     vs (P @ replicate m 0 @ Q, length P) = Some (P @ vs @ replicate (m - length vs) 0 @ Q, length P + length vs)"
proof (induction vs arbitrary: P m)
  case Nil
  then show ?case by simp
next
  case (Cons v vs)
  then obtain m' where m: "m = Suc m'" by (cases m) auto
  have "(P @ replicate m 0 @ Q)[length P := v] = (P @ [v]) @ replicate m' 0 @ Q" by (simp add: m)
  moreover have "length P < length (P @ replicate m 0 @ Q)" using m by simp
  ultimately show ?case using Cons.IH[of m' "P @ [v]"] Cons.prems m by simp
qed

lemma concat_take_le: "length (concat (take j xs)) \<le> length (concat xs)"
proof -
  have "concat xs = concat (take j xs) @ concat (drop j xs)" by (metis append_take_drop_id concat_append)
  then show ?thesis by (metis le_add1 length_append)
qed

lemma concat_take_Suc: "j < length xs \<Longrightarrow> concat (take (Suc j) xs) = concat (take j xs) @ xs ! j"
  by (simp add: take_Suc_conv_app_nth)

lemma update_gap:
  fixes os :: "nat list"
  shows "j < length os \<Longrightarrow> j < N \<Longrightarrow>
   (take j os @ replicate (N - j) 0 @ R)[j := os ! j] = take (Suc j) os @ replicate (N - Suc j) 0 @ R"
proof -
  assume j: "j < length os" "j < N"
  then have r: "replicate (N - j) (0::nat) = 0 # replicate (N - Suc j) 0" by (metis Suc_diff_Suc replicate_Suc)
  have "(take j os @ replicate (N - j) 0 @ R)[j := os ! j] = take j os @ (replicate (N - j) 0 @ R)[0 := os ! j]"
    using j by (simp add: list_update_append)
  also have "\<dots> = take j os @ os ! j # replicate (N - Suc j) 0 @ R"
    by (subst r) (simp only: append_Cons list_update_code(2))
  finally show ?thesis using j by (simp add: take_Suc_conv_app_nth)
qed

lemma sum_list_le_length_mult: "list_all (\<lambda>x. f x \<le> c) xs \<Longrightarrow> sum_list (map f xs) \<le> length xs * (c :: nat)"
  by (induction xs) auto

end
