(* ===== verification/Comb.thy ===== *)
theory Comb
  imports Prelude
begin

text \<open>
  The row-compressed container \<^verbatim>\<open>Comb<I, T>\<close> of \<^verbatim>\<open>src/2015-06-06/comb.h\<close> and the
  builder \<^verbatim>\<open>compactify_to\<close> of \<^verbatim>\<open>src/2015-06-06/util.h\<close> (copied verbatim, with the raw
  element type fixed, into \<^verbatim>\<open>1/better.C\<close>). The container is the pair of vectors
  \<^verbatim>\<open>index_\<close> (row end offsets, of the index type \<open>'i word\<close>) and \<^verbatim>\<open>data_\<close>; every
  assertion of the source is an error value \<open>None\<close>. Reading an offset back into
  \<^verbatim>\<open>size_t\<close> is the C++ integral conversion of the instantiation, passed as \<open>conv\<close>:
  \<open>ucast\<close> for the unsigned \<^verbatim>\<open>uint16_t\<close> of the automaton, \<open>scast\<close> for the signed
  \<^verbatim>\<open>int32_t\<close> of the graph.

  The lemmas show that the container refines a list of closed rows plus an open row
  (\<open>comb_rows\<close>, \<open>comb_open\<close>), that its operations keep the well-formedness
  invariant, that \<^verbatim>\<open>length\<close> and \<^verbatim>\<open>at\<close> read the rows back exactly when the stored
  offsets convert exactly, and that \<^verbatim>\<open>compactify_to\<close> groups a source-sorted list into
  rows (a round trip).
\<close>

section \<open>State and operations\<close>

text \<open>The record is generic in the stored offset type \<open>'w\<close>; every operation takes
  \<open>'w = 'i word\<close>, the \<^verbatim>\<open>I\<close> of the template.\<close>

record ('w, 'a) comb =
  comb_index :: "'w list"
  comb_data :: "'a list"

definition comb_init :: "('i::len word, 'a) comb" where
  "comb_init = \<lparr>comb_index = [], comb_data = []\<rparr>"

text \<open>\<^verbatim>\<open>end_row\<close>: the assertion \<^verbatim>\<open>data_.size() < (1ll << (8*sizeof(I)))\<close>, then the
  current size is pushed as an \<open>I\<close>.\<close>

definition end_row :: "('i::len word, 'a) comb \<Rightarrow> ('i word, 'a) comb option" where
  "end_row c =
     (if length (comb_data c) < 2 ^ LENGTH('i)
      then Some (c\<lparr>comb_index := comb_index c @ [of_nat (length (comb_data c))]\<rparr>)
      else None)"

definition comb_append :: "('i::len word, 'a) comb \<Rightarrow> 'a \<Rightarrow> ('i word, 'a) comb" where
  "comb_append c x = c\<lparr>comb_data := comb_data c @ [x]\<rparr>"

definition rows :: "('i::len word, 'a) comb \<Rightarrow> nat" where
  "rows c = length (comb_index c)"

definition get_start :: "('i::len word \<Rightarrow> size_t) \<Rightarrow> ('i word, 'a) comb \<Rightarrow> nat \<Rightarrow> size_t option" where
  "get_start conv c row =
     (if row < length (comb_index c)
      then Some (if row = 0 then 0 else conv (comb_index c ! (row - 1)))
      else None)"

definition comb_length :: "('i::len word \<Rightarrow> size_t) \<Rightarrow> ('i word, 'a) comb \<Rightarrow> nat \<Rightarrow> size_t option" where
  "comb_length conv c row =
     (case get_start conv c row of
        None \<Rightarrow> None
      | Some s \<Rightarrow> Some (conv (comb_index c ! row) - s))"

definition comb_at :: "('i::len word \<Rightarrow> size_t) \<Rightarrow> ('i word, 'a) comb \<Rightarrow> nat \<Rightarrow> nat \<Rightarrow> 'a option" where
  "comb_at conv c row col =
     (case get_start conv c row of
        None \<Rightarrow> None
      | Some s \<Rightarrow>
          (let k = unat (s + of_nat col)
           in if k < length (comb_data c) then Some (comb_data c ! k) else None))"

text \<open>A whole row as the callers read it: \<^verbatim>\<open>for (u = 0; u != g.length(v); ++u) g.at(v, u)\<close>.\<close>

definition comb_row :: "('i::len word \<Rightarrow> size_t) \<Rightarrow> ('i word, 'a) comb \<Rightarrow> nat \<Rightarrow> 'a list option" where
  "comb_row conv c row =
     (case comb_length conv c row of
        None \<Rightarrow> None
      | Some l \<Rightarrow> those (map (comb_at conv c row) [0..<unat l]))"

section \<open>The builder \<^verbatim>\<open>compactify_to\<close>\<close>

text \<open>
  \<^verbatim>\<open>for (; src != target; ++src) out->end_row();\<close> with \<open>src\<close> of the index type
  \<open>'k word\<close>: \<open>++src\<close> wraps, so the loop ends for every pair of words; the distance
  \<open>target - src\<close> shrinks by one in every round.
\<close>

function close_rows :: "'k::len word \<Rightarrow> 'k word \<Rightarrow> ('i::len word, 'a) comb \<Rightarrow> ('i word, 'a) comb option" where
  "close_rows src target c =
     (if src = target then Some c
      else (case end_row c of
              None \<Rightarrow> None
            | Some c' \<Rightarrow> close_rows (src + 1) target c'))"
  by pat_completeness auto
termination
  by (relation "measure (\<lambda>(src, target, c). unat (target - src))")
     (auto simp: unat_sub_Suc_less)

declare close_rows.simps [simp del]

text \<open>The loop over the raw entries; the result carries the counter \<open>src\<close> on.\<close>

fun compactify_loop ::
  "'k::len word \<Rightarrow> ('k word \<times> 'a) list \<Rightarrow> ('i::len word, 'a) comb \<Rightarrow> ('k word \<times> ('i word, 'a) comb) option" where
  "compactify_loop src [] c = Some (src, c)"
| "compactify_loop src ((s, d) # raw) c =
     (case close_rows src s c of
        None \<Rightarrow> None
      | Some c' \<Rightarrow> compactify_loop s raw (comb_append c' d))"

definition compactify_to ::
  "('k::len word \<times> 'a) list \<Rightarrow> 'k word \<Rightarrow> ('i::len word, 'a) comb \<Rightarrow> ('i word, 'a) comb option" where
  "compactify_to raw n c =
     (case compactify_loop 0 raw c of
        None \<Rightarrow> None
      | Some (src, c') \<Rightarrow> close_rows src n c')"

section \<open>Abstraction: closed rows and the open row\<close>

definition slice :: "'a list \<Rightarrow> nat \<Rightarrow> nat \<Rightarrow> 'a list" where
  "slice xs i j = take (j - i) (drop i xs)"

definition row_start :: "('i::len word, 'a) comb \<Rightarrow> nat \<Rightarrow> nat" where
  "row_start c r = (if r = 0 then 0 else unat (comb_index c ! (r - 1)))"

definition comb_rows :: "('i::len word, 'a) comb \<Rightarrow> 'a list list" where
  "comb_rows c =
     map (\<lambda>r. slice (comb_data c) (row_start c r) (unat (comb_index c ! r)))
       [0..<length (comb_index c)]"

definition comb_open :: "('i::len word, 'a) comb \<Rightarrow> 'a list" where
  "comb_open c = drop (row_start c (length (comb_index c))) (comb_data c)"

text \<open>Well-formedness: row ends are non-decreasing and inside \<^verbatim>\<open>data_\<close>.\<close>

definition comb_wf :: "('i::len word, 'a) comb \<Rightarrow> bool" where
  "comb_wf c \<longleftrightarrow>
     sorted (map unat (comb_index c)) \<and> (\<forall>e \<in> set (comb_index c). unat e \<le> length (comb_data c))"

text \<open>The rows the builder is meant to produce: the payloads with source \<open>v\<close>, in order.\<close>

definition row_of :: "('k::len word \<times> 'a) list \<Rightarrow> nat \<Rightarrow> 'a list" where
  "row_of raw v = map snd (filter (\<lambda>(s, d). unat s = v) raw)"

section \<open>Invariant and refinement of the row operations\<close>

lemma slice_append_within:
  "j \<le> length xs \<Longrightarrow> slice (xs @ ys) i j = slice xs i j"
  by (simp add: slice_def)

lemma row_start_le_length:
  assumes "comb_wf c" and "r \<le> length (comb_index c)"
  shows "row_start c r \<le> length (comb_data c)"
  using assms by (auto simp: row_start_def comb_wf_def)

lemma row_start_mono:
  assumes "comb_wf c" and "r < length (comb_index c)"
  shows "row_start c r \<le> unat (comb_index c ! r)"
  using assms by (auto simp: row_start_def comb_wf_def sorted_iff_nth_mono)

lemma comb_wf_init: "comb_wf comb_init"
  by (simp add: comb_wf_def comb_init_def)

lemma comb_abs_init: "comb_rows comb_init = [] \<and> comb_open comb_init = []"
  by (simp add: comb_rows_def comb_open_def comb_init_def row_start_def)

text \<open>The assertion of \<^verbatim>\<open>end_row\<close> is the only way it fails.\<close>

lemma end_row_None_iff:
  "end_row c = None \<longleftrightarrow> 2 ^ LENGTH('i) \<le> length (comb_data (c :: ('i::len word, 'a) comb))"
  by (auto simp: end_row_def)

lemma end_row_data:
  "end_row c = Some c' \<Longrightarrow> comb_data c' = comb_data c \<and> length (comb_index c') = Suc (length (comb_index c))"
  by (auto simp: end_row_def split: if_splits)

lemma end_row_wf:
  fixes c :: "('i::len word, 'a) comb"
  assumes "comb_wf c" and "end_row c = Some c'"
  shows "comb_wf c'"
proof -
  from assms(2) have len: "length (comb_data c) < 2 ^ LENGTH('i)"
    and c': "c' = c\<lparr>comb_index := comb_index c @ [of_nat (length (comb_data c)) :: 'i word]\<rparr>"
    by (auto simp: end_row_def split: if_splits)
  from len have "unat (of_nat (length (comb_data c)) :: 'i word) = length (comb_data c)"
    by (rule unat_of_nat_below)
  with assms(1) show ?thesis
    by (auto simp: comb_wf_def c' sorted_append)
qed

lemma comb_append_wf: "comb_wf c \<Longrightarrow> comb_wf (comb_append c x)"
  by (auto simp: comb_wf_def comb_append_def)

lemma end_row_abs:
  fixes c :: "('i::len word, 'a) comb"
  assumes "comb_wf c" and "end_row c = Some c'"
  shows "comb_rows c' = comb_rows c @ [comb_open c] \<and> comb_open c' = []"
proof -
  let ?n = "length (comb_index c)"
  from assms(2) have len: "length (comb_data c) < 2 ^ LENGTH('i)"
    and c': "c' = c\<lparr>comb_index := comb_index c @ [of_nat (length (comb_data c)) :: 'i word]\<rparr>"
    by (auto simp: end_row_def split: if_splits)
  from len have u: "unat (of_nat (length (comb_data c)) :: 'i word) = length (comb_data c)"
    by (rule unat_of_nat_below)
  have start: "row_start c' r = row_start c r" if "r \<le> ?n" for r
    using that by (auto simp: row_start_def c' nth_append)
  have last: "row_start c' (Suc ?n) = length (comb_data c)"
    by (simp add: row_start_def c' u)
  have rs: "row_start c ?n \<le> length (comb_data c)"
    using assms(1) by (simp add: row_start_le_length)
  have "comb_rows c' = comb_rows c @ [slice (comb_data c) (row_start c ?n) (length (comb_data c))]"
    using start by (simp add: comb_rows_def c' nth_append u)
  moreover have "slice (comb_data c) (row_start c ?n) (length (comb_data c)) = comb_open c"
    using rs by (simp add: slice_def comb_open_def)
  moreover have "comb_open c' = []"
    using last by (simp add: comb_open_def c')
  ultimately show ?thesis by simp
qed

lemma comb_append_abs:
  assumes "comb_wf c"
  shows "comb_rows (comb_append c x) = comb_rows c \<and> comb_open (comb_append c x) = comb_open c @ [x]"
proof -
  have rows: "comb_rows (comb_append c x) = comb_rows c"
    using assms by (auto simp: comb_rows_def comb_append_def row_start_def comb_wf_def slice_append_within)
  have "row_start c (length (comb_index c)) \<le> length (comb_data c)"
    using assms by (simp add: row_start_le_length)
  moreover have "row_start (comb_append c x) r = row_start c r" for r
    by (simp add: row_start_def comb_append_def)
  ultimately have "comb_open (comb_append c x) = comb_open c @ [x]"
    by (simp add: comb_open_def comb_append_def)
  with rows show ?thesis by simp
qed

section \<open>Reading rows back: \<^verbatim>\<open>length\<close> and \<^verbatim>\<open>at\<close>\<close>

text \<open>
  When every stored offset converts exactly into \<^verbatim>\<open>size_t\<close>, \<^verbatim>\<open>get_start\<close>,
  \<^verbatim>\<open>length\<close> and \<^verbatim>\<open>at\<close> return the bounds and the elements of the abstract row.
\<close>

lemma get_start_exact:
  fixes c :: "('i::len word, 'a) comb"
  assumes "r < length (comb_index c)" and "\<forall>e \<in> set (comb_index c). exact_on conv e"
  shows "\<exists>s. get_start conv c r = Some s \<and> unat s = row_start c r"
  using assms by (auto simp: get_start_def row_start_def exact_on_def)

lemma comb_row_bounds:
  fixes c :: "('i::len word, 'a) comb"
  assumes "comb_wf c" and "r < length (comb_index c)"
  shows "length (comb_rows c ! r) = unat (comb_index c ! r) - row_start c r"
    and "j < length (comb_rows c ! r) \<Longrightarrow> comb_rows c ! r ! j = comb_data c ! (row_start c r + j)"
proof -
  have "unat (comb_index c ! r) \<le> length (comb_data c)"
    using assms by (auto simp: comb_wf_def)
  then show "length (comb_rows c ! r) = unat (comb_index c ! r) - row_start c r"
    using assms(2) by (simp add: comb_rows_def slice_def)
  have "row_start c r \<le> length (comb_data c)"
    using assms by (simp add: row_start_le_length)
  then show "j < length (comb_rows c ! r) \<Longrightarrow> comb_rows c ! r ! j = comb_data c ! (row_start c r + j)"
    using assms(2) by (simp add: comb_rows_def slice_def)
qed

lemma comb_length_exact:
  fixes c :: "('i::len word, 'a) comb"
  assumes wf: "comb_wf c" and r: "r < length (comb_index c)"
    and ex: "\<forall>e \<in> set (comb_index c). exact_on conv e"
  shows "map_option unat (comb_length conv c r) = Some (length (comb_rows c ! r))"
proof -
  obtain s where s: "get_start conv c r = Some s" and us: "unat s = row_start c r"
    using get_start_exact[OF r ex] by blast
  have e: "unat (conv (comb_index c ! r)) = unat (comb_index c ! r)"
    using ex r by (simp add: exact_on_def)
  have "row_start c r \<le> unat (comb_index c ! r)" using wf r by (rule row_start_mono)
  then have "s \<le> conv (comb_index c ! r)" by (simp add: word_le_nat_alt us e)
  then have "unat (conv (comb_index c ! r) - s) = unat (comb_index c ! r) - row_start c r"
    by (simp add: unat_sub us e)
  then show ?thesis using comb_row_bounds(1)[OF wf r] by (simp add: comb_length_def s)
qed

lemma comb_at_exact:
  fixes c :: "('i::len word, 'a) comb"
  assumes wf: "comb_wf c" and r: "r < length (comb_index c)"
    and ex: "\<forall>e \<in> set (comb_index c). exact_on conv e"
    and j: "j < length (comb_rows c ! r)"
  shows "comb_at conv c r j = Some (comb_rows c ! r ! j)"
proof -
  obtain s where s: "get_start conv c r = Some s" and us: "unat s = row_start c r"
    using get_start_exact[OF r ex] by blast
  have e: "unat (conv (comb_index c ! r)) = unat (comb_index c ! r)"
    using ex r by (simp add: exact_on_def)
  have lt: "row_start c r + j < unat (comb_index c ! r)"
    using j comb_row_bounds(1)[OF wf r] by simp
  moreover have "unat (comb_index c ! r) < 2 ^ 64"
    using unsigned_less[of "conv (comb_index c ! r)", where 'a = nat] e by simp
  ultimately have j64: "j < 2 ^ LENGTH(64)" by simp
  then have uj: "unat (of_nat j :: size_t) = j" by (rule unat_of_nat_below)
  have "unat s + unat (of_nat j :: size_t) < 2 ^ LENGTH(64)"
    using lt \<open>unat (comb_index c ! r) < 2 ^ 64\<close> by (simp add: us uj)
  then have "unat (s + of_nat j) = unat s + unat (of_nat j :: size_t)"
    by (rule unat_add_lem[THEN iffD1])
  then have "unat (s + of_nat j) = row_start c r + j" by (simp add: us uj)
  moreover have "unat (comb_index c ! r) \<le> length (comb_data c)"
    using wf r by (auto simp: comb_wf_def)
  ultimately show ?thesis
    using lt comb_row_bounds(2)[OF wf r j] by (simp add: comb_at_def s Let_def)
qed

lemma comb_row_exact:
  fixes c :: "('i::len word, 'a) comb"
  assumes wf: "comb_wf c" and r: "r < length (comb_index c)"
    and ex: "\<forall>e \<in> set (comb_index c). exact_on conv e"
  shows "comb_row conv c r = Some (comb_rows c ! r)"
proof -
  obtain l where l: "comb_length conv c r = Some l" and ul: "unat l = length (comb_rows c ! r)"
    using comb_length_exact[OF wf r ex] by auto
  have "those (map (comb_at conv c r) [0..<unat l]) = Some (comb_rows c ! r)"
    using comb_at_exact[OF wf r ex] ul by (intro those_map_upt) simp_all
  then show ?thesis by (simp add: comb_row_def l)
qed

section \<open>The builder groups a sorted list into rows\<close>

lemma row_of_append: "row_of (xs @ ys) v = row_of xs v @ row_of ys v"
  by (simp add: row_of_def)

lemma row_of_beyond:
  "\<forall>(s, d) \<in> set P. unat s \<le> a \<Longrightarrow> a < v \<Longrightarrow> row_of P v = []"
  by (fastforce simp: row_of_def filter_empty_conv)

lemma rows_extend:
  assumes "\<forall>(s, d) \<in> set P. unat s \<le> a" and "a \<le> b"
  shows "map (row_of P) [0..<a] @ take (b - a) (row_of P a # replicate (b - a) []) = map (row_of P) [0..<b]"
  using assms(2)
proof (induction b)
  case 0
  then show ?case by simp
next
  case (Suc b)
  show ?case
  proof (cases "a = Suc b")
    case True
    then show ?thesis by simp
  next
    case False
    with Suc.prems have ab: "a \<le> b" by simp
    have "take (Suc b - a) (row_of P a # replicate (Suc b - a) []) =
          take (b - a) (row_of P a # replicate (b - a) []) @ [row_of P b]"
    proof (cases "a = b")
      case True
      then show ?thesis by simp
    next
      case False
      with ab have "a < b" by simp
      with assms(1) have "row_of P b = []" by (rule row_of_beyond)
      moreover have "Suc b - a = Suc (b - a)" using ab by simp
      ultimately show ?thesis using \<open>a < b\<close>
        by (cases "b - a") (simp_all add: replicate_append_same[symmetric])
    qed
    then show ?thesis using Suc.IH[OF ab] by simp
  qed
qed

lemma close_rows_abs:
  fixes c :: "('i::len word, 'a) comb" and src target :: "'k::len word"
  assumes "comb_wf c" and "length (comb_data c) < 2 ^ LENGTH('i)"
  shows "\<exists>c'. close_rows src target c = Some c' \<and> comb_wf c' \<and> comb_data c' = comb_data c \<and>
     comb_rows c' = comb_rows c @ take (unat (target - src)) (comb_open c # replicate (unat (target - src)) []) \<and>
     comb_open c' = (if unat (target - src) = 0 then comb_open c else [])"
  using assms
proof (induction src target c rule: close_rows.induct)
  case (1 src target c)
  show ?case
  proof (cases "src = target")
    case True
    then show ?thesis using "1.prems"(1) by (simp add: close_rows.simps)
  next
    case False
    from "1.prems"(2) obtain c1 where c1: "end_row c = Some c1"
      by (cases "end_row c") (simp_all add: end_row_None_iff)
    have wf1: "comb_wf c1" using "1.prems"(1) c1 by (rule end_row_wf)
    have abs1: "comb_rows c1 = comb_rows c @ [comb_open c] \<and> comb_open c1 = []"
      using "1.prems"(1) c1 by (rule end_row_abs)
    have d1: "comb_data c1 = comb_data c" using c1 by (simp add: end_row_data)
    obtain c' where c': "close_rows (src + 1) target c1 = Some c'" and wf': "comb_wf c'"
      and d': "comb_data c' = comb_data c1"
      and r': "comb_rows c' = comb_rows c1 @ take (unat (target - (src + 1)))
                 (comb_open c1 # replicate (unat (target - (src + 1))) [])"
      and o': "comb_open c' = (if unat (target - (src + 1)) = 0 then comb_open c1 else [])"
      using "1.IH"[OF False c1 wf1] "1.prems"(2) d1 by auto
    obtain k where k: "unat (target - src) = Suc k" and k': "unat (target - (src + 1)) = k"
      using unat_sub_Suc[OF False] by (cases "unat (target - src)") auto
    have "close_rows src target c = Some c'"
      using False c1 c' by (simp add: close_rows.simps)
    moreover have "comb_rows c' = comb_rows c @ take (unat (target - src)) (comb_open c # replicate (unat (target - src)) [])"
      using r' abs1 by (simp add: k k' replicate_append_same[symmetric])
    ultimately show ?thesis using wf' d' d1 o' abs1 k by simp
  qed
qed

text \<open>
  One round of the outer loop: the rows between the previous source and the entry's
  source are closed (empty but for the first), then the payload is appended to the open row.
\<close>

lemma compactify_step_abs:
  fixes c :: "('i::len word, 'a) comb" and src s :: "'k::len word"
  assumes wf: "comb_wf c" and len: "length (comb_data c) < 2 ^ LENGTH('i)"
    and le: "unat src \<le> unat s"
    and rows: "comb_rows c = map (row_of P) [0..<unat src]" and opn: "comb_open c = row_of P (unat src)"
    and below: "\<forall>(s', d') \<in> set P. unat s' \<le> unat src"
  shows "\<exists>c1. close_rows src s c = Some c1 \<and> comb_wf (comb_append c1 d) \<and>
           length (comb_data (comb_append c1 d)) = Suc (length (comb_data c)) \<and>
           comb_rows (comb_append c1 d) = map (row_of (P @ [(s, d)])) [0..<unat s] \<and>
           comb_open (comb_append c1 d) = row_of (P @ [(s, d)]) (unat s)"
proof -
  obtain c1 where c1: "close_rows src s c = Some c1" and wf1: "comb_wf c1"
    and d1: "comb_data c1 = comb_data c"
    and r1: "comb_rows c1 = comb_rows c @ take (unat (s - src)) (comb_open c # replicate (unat (s - src)) [])"
    and o1: "comb_open c1 = (if unat (s - src) = 0 then comb_open c else [])"
    using close_rows_abs[OF wf len] by blast
  have k: "unat (s - src) = unat s - unat src"
    using le by (simp add: unat_sub word_le_nat_alt)
  have rows1: "comb_rows c1 = map (row_of P) [0..<unat s]"
    using r1 rows opn rows_extend[OF below le] by (simp add: k)
  have open1: "comb_open c1 = row_of P (unat s)"
  proof (cases "unat s = unat src")
    case True
    then show ?thesis using o1 opn by (simp add: k)
  next
    case False
    with le have lt: "unat src < unat s" by simp
    with below have "row_of P (unat s) = []" by (rule row_of_beyond)
    moreover have "unat (s - src) \<noteq> 0" using lt k by simp
    ultimately show ?thesis using o1 by simp
  qed
  have other: "row_of (P @ [(s, d)]) v = row_of P v" if "v \<noteq> unat s" for v
    using that by (simp add: row_of_append row_of_def)
  have "comb_rows (comb_append c1 d) = map (row_of (P @ [(s, d)])) [0..<unat s]"
    using comb_append_abs[OF wf1] rows1 other by simp
  moreover have "comb_open (comb_append c1 d) = row_of (P @ [(s, d)]) (unat s)"
    using comb_append_abs[OF wf1] open1 by (simp add: row_of_append row_of_def)
  ultimately show ?thesis
    using c1 comb_append_wf[OF wf1] d1 by (simp add: comb_append_def)
qed

lemma compactify_loop_abs:
  fixes c :: "('i::len word, 'a) comb" and src :: "'k::len word"
  assumes "sorted (map (unat \<circ> fst) raw)" and "\<forall>(s, d) \<in> set raw. unat src \<le> unat s"
    and "comb_wf c" and "length (comb_data c) + length raw < 2 ^ LENGTH('i)"
    and "comb_rows c = map (row_of P) [0..<unat src]" and "comb_open c = row_of P (unat src)"
    and "\<forall>(s, d) \<in> set P. unat s \<le> unat src"
  shows "\<exists>src' c'. compactify_loop src raw c = Some (src', c') \<and> comb_wf c' \<and>
     length (comb_data c') = length (comb_data c) + length raw \<and>
     comb_rows c' = map (row_of (P @ raw)) [0..<unat src'] \<and>
     comb_open c' = row_of (P @ raw) (unat src') \<and>
     (\<forall>(s, d) \<in> set (P @ raw). unat s \<le> unat src') \<and>
     (src' = src \<or> src' \<in> fst ` set raw)"
  using assms
proof (induction raw arbitrary: src c P)
  case Nil
  then show ?case by simp
next
  case (Cons e raw)
  obtain s d where e: "e = (s, d)" by (cases e)
  have le: "unat src \<le> unat s" using Cons.prems(2) e by auto
  obtain c1 where c1: "close_rows src s c = Some c1" and wf2: "comb_wf (comb_append c1 d)"
    and l2: "length (comb_data (comb_append c1 d)) = Suc (length (comb_data c))"
    and r2: "comb_rows (comb_append c1 d) = map (row_of (P @ [(s, d)])) [0..<unat s]"
    and o2: "comb_open (comb_append c1 d) = row_of (P @ [(s, d)]) (unat s)"
    using compactify_step_abs[OF Cons.prems(3) _ le Cons.prems(5,6,7)] Cons.prems(4) by (simp only: length_Cons) auto
  have sorted': "sorted (map (unat \<circ> fst) raw)"
    using Cons.prems(1) by (simp add: comp_def)
  have ge: "\<forall>(s', d') \<in> set raw. unat s \<le> unat s'"
    using Cons.prems(1) e by auto
  have below': "\<forall>(s', d') \<in> set (P @ [(s, d)]). unat s' \<le> unat s"
    using Cons.prems(7) le by auto
  obtain src' c' where
    IH: "compactify_loop s raw (comb_append c1 d) = Some (src', c') \<and> comb_wf c' \<and>
      length (comb_data c') = length (comb_data (comb_append c1 d)) + length raw \<and>
      comb_rows c' = map (row_of ((P @ [(s, d)]) @ raw)) [0..<unat src'] \<and>
      comb_open c' = row_of ((P @ [(s, d)]) @ raw) (unat src') \<and>
      (\<forall>(s', d') \<in> set ((P @ [(s, d)]) @ raw). unat s' \<le> unat src') \<and>
      (src' = s \<or> src' \<in> fst ` set raw)"
    using Cons.IH[OF sorted' ge wf2 _ r2 o2 below'] Cons.prems(4) l2 by (simp only: length_Cons) auto
  then show ?case using c1 e l2 by auto
qed

text \<open>
  The round trip of the builder: a list sorted by source, with every source below \<open>n\<close> and
  fewer entries than the index type counts, becomes exactly \<open>n\<close> rows, row \<open>v\<close> holding
  the payloads of the entries with source \<open>v\<close> in their order.
\<close>

lemma compactify_to_abs:
  fixes raw :: "('k::len word \<times> 'a) list" and n :: "'k word"
  assumes sorted: "sorted (map (unat \<circ> fst) raw)" and below: "\<forall>(s, d) \<in> set raw. unat s < unat n"
    and len: "length raw < 2 ^ LENGTH('i)"
  shows "\<exists>c. compactify_to raw n (comb_init :: ('i::len word, 'a) comb) = Some c \<and> comb_wf c \<and>
           length (comb_data c) = length raw \<and>
           comb_rows c = map (row_of raw) [0..<unat n] \<and> comb_open c = []"
proof -
  have s1: "comb_rows (comb_init :: ('i word, 'a) comb) = map (row_of []) [0..<unat (0 :: 'k word)]"
    by (simp add: comb_abs_init)
  have s2: "comb_open (comb_init :: ('i word, 'a) comb) = row_of [] (unat (0 :: 'k word))"
    by (simp add: comb_abs_init row_of_def)
  have s3: "length (comb_data (comb_init :: ('i word, 'a) comb)) + length raw < 2 ^ LENGTH('i)"
    using len by (simp add: comb_init_def)
  have "\<exists>src' c'. compactify_loop 0 raw (comb_init :: ('i word, 'a) comb) = Some (src', c') \<and> comb_wf c' \<and>
     length (comb_data c') = length (comb_data (comb_init :: ('i word, 'a) comb)) + length raw \<and>
     comb_rows c' = map (row_of ([] @ raw)) [0..<unat src'] \<and>
     comb_open c' = row_of ([] @ raw) (unat src') \<and>
     (\<forall>(s, d) \<in> set ([] @ raw). unat s \<le> unat src') \<and>
     (src' = 0 \<or> src' \<in> fst ` set raw)"
    by (rule compactify_loop_abs[OF sorted _ comb_wf_init s3 s1 s2]) simp_all
  then obtain src' c' where loop: "compactify_loop 0 raw (comb_init :: ('i word, 'a) comb) = Some (src', c')"
    and wf': "comb_wf c'" and l': "length (comb_data c') = length raw"
    and r': "comb_rows c' = map (row_of raw) [0..<unat src']"
    and o': "comb_open c' = row_of raw (unat src')"
    and top: "\<forall>(s, d) \<in> set raw. unat s \<le> unat src'"
    and which: "src' = 0 \<or> src' \<in> fst ` set raw"
    by (auto simp: comb_init_def)
  have le: "unat src' \<le> unat n" using which below by auto
  obtain c where c: "close_rows src' n c' = Some c" and wf: "comb_wf c"
    and d: "comb_data c = comb_data c'"
    and r: "comb_rows c = comb_rows c' @ take (unat (n - src')) (comb_open c' # replicate (unat (n - src')) [])"
    and o: "comb_open c = (if unat (n - src') = 0 then comb_open c' else [])"
    using close_rows_abs[OF wf'] l' len by fastforce
  have k: "unat (n - src') = unat n - unat src'"
    using le by (simp add: unat_sub word_le_nat_alt)
  have "comb_rows c = map (row_of raw) [0..<unat n]"
    using r r' o' rows_extend[OF top le] by (simp add: k)
  moreover have "comb_open c = []"
  proof (cases "unat n = unat src'")
    case True
    then have "row_of raw (unat src') = []" using below by (fastforce simp: row_of_def filter_empty_conv)
    then show ?thesis using o o' by simp
  next
    case False
    then show ?thesis using o le by (simp add: k)
  qed
  ultimately show ?thesis using loop c wf d l' by (simp add: compactify_to_def)
qed

lemma comb_wf_index_le:
  "comb_wf c \<Longrightarrow> e \<in> set (comb_index c) \<Longrightarrow> unat e \<le> length (comb_data c)"
  by (simp add: comb_wf_def)

lemma rows_abs: "rows c = length (comb_rows c)"
  by (simp add: rows_def comb_rows_def)

text \<open>Reading back what the builder stored, at the unsigned instantiation and, below the
  sign bit, at the signed one.\<close>

lemma compactify_read_unsigned:
  fixes raw :: "('k::len word \<times> 'a) list" and n :: "'k word"
  assumes "sorted (map (unat \<circ> fst) raw)" and "\<forall>(s, d) \<in> set raw. unat s < unat n"
    and "length raw < 2 ^ LENGTH('i)" and "LENGTH('i::len) \<le> 64"
  shows "\<exists>c. compactify_to raw n (comb_init :: ('i word, 'a) comb) = Some c \<and> rows c = unat n \<and>
           (\<forall>v < unat n. comb_row ucast c v = Some (row_of raw v))"
proof -
  obtain c where c: "compactify_to raw n (comb_init :: ('i word, 'a) comb) = Some c" and wf: "comb_wf c"
    and r: "comb_rows c = map (row_of raw) [0..<unat n]"
    using compactify_to_abs[OF assms(1-3)] by blast
  have ex: "\<forall>e \<in> set (comb_index c). exact_on (ucast :: 'i word \<Rightarrow> size_t) e"
    using assms(4) by (simp add: exact_on_ucast)
  have li: "length (comb_index c) = unat n"
    using arg_cong[OF r, of length] by (simp add: comb_rows_def)
  have "\<forall>v < unat n. comb_row ucast c v = Some (row_of raw v)"
  proof (intro allI impI)
    fix v assume v: "v < unat n"
    with li have "v < length (comb_index c)" by simp
    then have "comb_row ucast c v = Some (comb_rows c ! v)" using wf ex by (intro comb_row_exact)
    with r v show "comb_row ucast c v = Some (row_of raw v)" by simp
  qed
  then show ?thesis using c r by (simp add: rows_abs)
qed

lemma compactify_read_signed:
  fixes raw :: "('k::len word \<times> 'a) list" and n :: "'k word"
  assumes "sorted (map (unat \<circ> fst) raw)" and "\<forall>(s, d) \<in> set raw. unat s < unat n"
    and "length raw < 2 ^ (LENGTH('i) - 1)" and "LENGTH('i::len) \<le> 64"
  shows "\<exists>c. compactify_to raw n (comb_init :: ('i word, 'a) comb) = Some c \<and> rows c = unat n \<and>
           (\<forall>v < unat n. comb_row scast c v = Some (row_of raw v))"
proof -
  have "(2::nat) ^ (LENGTH('i) - 1) \<le> 2 ^ LENGTH('i)" by simp
  then have len: "length raw < 2 ^ LENGTH('i)" using assms(3) by linarith
  obtain c where c: "compactify_to raw n (comb_init :: ('i word, 'a) comb) = Some c" and wf: "comb_wf c"
    and l: "length (comb_data c) = length raw" and r: "comb_rows c = map (row_of raw) [0..<unat n]"
    using compactify_to_abs[OF assms(1,2) len] by blast
  have ex: "\<forall>e \<in> set (comb_index c). exact_on (scast :: 'i word \<Rightarrow> size_t) e"
  proof
    fix e assume "e \<in> set (comb_index c)"
    with wf l have "unat e \<le> length raw" by (metis comb_wf_index_le)
    with assms(3) have "unat e < 2 ^ (LENGTH('i) - 1)" by linarith
    with assms(4) show "exact_on (scast :: 'i word \<Rightarrow> size_t) e" by (rule exact_on_scast)
  qed
  have li: "length (comb_index c) = unat n"
    using arg_cong[OF r, of length] by (simp add: comb_rows_def)
  have "\<forall>v < unat n. comb_row scast c v = Some (row_of raw v)"
  proof (intro allI impI)
    fix v assume v: "v < unat n"
    with li have "v < length (comb_index c)" by simp
    then have "comb_row scast c v = Some (comb_rows c ! v)" using wf ex by (intro comb_row_exact)
    with r v show "comb_row scast c v = Some (row_of raw v)" by simp
  qed
  then show ?thesis using c r by (simp add: rows_abs)
qed

section \<open>Properties of the container\<close>

text \<open>
  C17. Round trip of the builder at the unsigned instantiation (\<^verbatim>\<open>Comb<uint16_t, Target>\<close>
  of the automaton): a list sorted by source, all sources below \<open>n\<close>, fewer entries than the
  index type counts, becomes \<open>n\<close> rows, and \<^verbatim>\<open>length\<close>/\<^verbatim>\<open>at\<close> read row \<open>v\<close> back as
  the payloads with source \<open>v\<close>, in input order.
\<close>

theorem compactify_to_roundtrip_unsigned:
  fixes raw :: "('k::len word \<times> 'a) list" and n :: "'k word"
  assumes "sorted (map (unat \<circ> fst) raw)" and "\<forall>(s, d) \<in> set raw. unat s < unat n"
    and "length raw < 2 ^ LENGTH('i)" and "LENGTH('i::len) \<le> 64"
  shows "\<exists>c. compactify_to raw n (comb_init :: ('i word, 'a) comb) = Some c \<and> rows c = unat n \<and>
           (\<forall>v < unat n. comb_row ucast c v = Some (row_of raw v))"
  using compactify_read_unsigned[OF assms] .

text \<open>
  C18. The same round trip at the signed instantiation (\<^verbatim>\<open>Comb<int32_t, Arc>\<close> of the
  graph) holds when the data stays below the sign bit of the index type, \<open>2 ^ 31\<close> arcs:
  every stored offset then converts exactly through \<open>scast\<close>.
\<close>

theorem compactify_to_roundtrip_signed:
  fixes raw :: "('k::len word \<times> 'a) list" and n :: "'k word"
  assumes "sorted (map (unat \<circ> fst) raw)" and "\<forall>(s, d) \<in> set raw. unat s < unat n"
    and "length raw < 2 ^ (LENGTH('i) - 1)" and "LENGTH('i::len) \<le> 64"
  shows "\<exists>c. compactify_to raw n (comb_init :: ('i word, 'a) comb) = Some c \<and> rows c = unat n \<and>
           (\<forall>v < unat n. comb_row scast c v = Some (row_of raw v))"
  using compactify_read_signed[OF assms] .

text \<open>
  C20. Well-formedness (row ends sorted and inside \<^verbatim>\<open>data_\<close>) holds initially and is kept by
  \<^verbatim>\<open>append\<close> and by every \<^verbatim>\<open>end_row\<close> whose assertion passes; the assertion fails
  exactly when \<^verbatim>\<open>data_\<close> holds \<open>2 ^ 8*sizeof(I)\<close> elements or more.
\<close>

theorem comb_wf_preserved:
  fixes c :: "('i::len word, 'a) comb"
  assumes "comb_wf c"
  shows "comb_wf (comb_init :: ('i word, 'a) comb) \<and> comb_wf (comb_append c x) \<and>
         (case end_row c of None \<Rightarrow> 2 ^ LENGTH('i) \<le> length (comb_data c) | Some c' \<Rightarrow> comb_wf c')"
  using comb_wf_init comb_append_wf[OF assms] end_row_wf[OF assms] end_row_None_iff[of c]
  by (auto split: option.split)

text \<open>
  C21. Refinement: on well-formed containers \<^verbatim>\<open>append\<close> adds to the open row and a
  successful \<^verbatim>\<open>end_row\<close> closes it, in the abstract view of closed rows and open row.
\<close>

theorem comb_ops_refine_rows:
  fixes c :: "('i::len word, 'a) comb"
  assumes "comb_wf c"
  shows "(comb_rows (comb_append c x), comb_open (comb_append c x)) = (comb_rows c, comb_open c @ [x]) \<and>
         (\<forall>c'. end_row c = Some c' \<longrightarrow> (comb_rows c', comb_open c') = (comb_rows c @ [comb_open c], []))"
  using comb_append_abs[OF assms] end_row_abs[OF assms] by auto

section \<open>Witnesses\<close>

theorem compactify_to_roundtrip_unsigned_witness:
  "sorted (map (unat \<circ> fst) [(0 :: uint16, CHR ''a''), (0, CHR ''b''), (2, CHR ''c'')]) \<and>
   list_all (\<lambda>(s, d). unat s < unat (3 :: uint16)) [(0 :: uint16, CHR ''a''), (0, CHR ''b''), (2, CHR ''c'')] \<and>
   length [(0 :: uint16, CHR ''a''), (0, CHR ''b''), (2, CHR ''c'')] < 2 ^ LENGTH(16) \<and> LENGTH(16) \<le> 64 \<and>
   (\<exists>c. compactify_to [(0 :: uint16, CHR ''a''), (0, CHR ''b''), (2, CHR ''c'')] 3 (comb_init :: (uint16, char) comb) = Some c \<and>
        rows c = 3 \<and>
        (\<forall>v < 3. comb_row ucast c v = Some (row_of [(0 :: uint16, CHR ''a''), (0, CHR ''b''), (2, CHR ''c'')] v)))"
  using compactify_to_roundtrip_unsigned[of "[(0 :: uint16, CHR ''a''), (0, CHR ''b''), (2, CHR ''c'')]" 3,
      where 'i = 16]
  by simp

theorem compactify_to_roundtrip_signed_witness:
  "sorted (map (unat \<circ> fst) [(1 :: int32, 10 :: nat), (3, 11)]) \<and>
   list_all (\<lambda>(s, d). unat s < unat (4 :: int32)) [(1 :: int32, 10 :: nat), (3, 11)] \<and>
   length [(1 :: int32, 10 :: nat), (3, 11)] < 2 ^ (LENGTH(32) - 1) \<and> LENGTH(32) \<le> 64 \<and>
   (\<exists>c. compactify_to [(1 :: int32, 10 :: nat), (3, 11)] 4 (comb_init :: (int32, nat) comb) = Some c \<and>
        rows c = 4 \<and>
        (\<forall>v < 4. comb_row scast c v = Some (row_of [(1 :: int32, 10 :: nat), (3, 11)] v)))"
  using compactify_to_roundtrip_signed[of "[(1 :: int32, 10 :: nat), (3, 11)]" 4, where 'i = 32]
  by simp

theorem comb_wf_preserved_witness:
  "comb_wf (comb_init :: (uint16, nat) comb) \<and>
   comb_wf (comb_init :: (uint16, nat) comb) \<and> comb_wf (comb_append (comb_init :: (uint16, nat) comb) 7) \<and>
   (case end_row (comb_init :: (uint16, nat) comb) of
      None \<Rightarrow> 2 ^ LENGTH(16) \<le> length (comb_data (comb_init :: (uint16, nat) comb))
    | Some c' \<Rightarrow> comb_wf c')"
proof -
  have h: "comb_wf (comb_init :: (uint16, nat) comb)" by (simp add: comb_wf_def comb_init_def)
  show ?thesis using h comb_wf_preserved[OF h, of 7] by simp
qed

theorem comb_ops_refine_rows_witness:
  "comb_wf \<lparr>comb_index = [] :: uint16 list, comb_data = [5 :: nat]\<rparr> \<and>
   (comb_rows (comb_append \<lparr>comb_index = [] :: uint16 list, comb_data = [5 :: nat]\<rparr> 7),
    comb_open (comb_append \<lparr>comb_index = [] :: uint16 list, comb_data = [5 :: nat]\<rparr> 7)) =
     (comb_rows \<lparr>comb_index = [] :: uint16 list, comb_data = [5 :: nat]\<rparr>,
      comb_open \<lparr>comb_index = [] :: uint16 list, comb_data = [5 :: nat]\<rparr> @ [7]) \<and>
   end_row \<lparr>comb_index = [] :: uint16 list, comb_data = [5 :: nat]\<rparr> =
     Some \<lparr>comb_index = [1], comb_data = [5]\<rparr> \<and>
   (comb_rows \<lparr>comb_index = [1 :: uint16], comb_data = [5 :: nat]\<rparr>,
    comb_open \<lparr>comb_index = [1 :: uint16], comb_data = [5 :: nat]\<rparr>) =
     (comb_rows \<lparr>comb_index = [] :: uint16 list, comb_data = [5 :: nat]\<rparr> @
        [comb_open \<lparr>comb_index = [] :: uint16 list, comb_data = [5 :: nat]\<rparr>], [])"
proof -
  have h: "comb_wf \<lparr>comb_index = [] :: uint16 list, comb_data = [5 :: nat]\<rparr>"
    by (simp add: comb_wf_def)
  have e: "end_row \<lparr>comb_index = [] :: uint16 list, comb_data = [5 :: nat]\<rparr> =
             Some \<lparr>comb_index = [1], comb_data = [5]\<rparr>"
    by (simp add: end_row_def)
  show ?thesis using h e comb_ops_refine_rows[OF h, of 7] by simp
qed

end
