(* ===== verification/Bfs01.thy ===== *)
theory Bfs01
  imports Prelude
begin

text \<open>
  The 0-1 breadth-first search that both shortest-path programs run
  (\<^verbatim>\<open>min_distance\<close> in \<^verbatim>\<open>src/2015-06-06/1/better.C\<close> and \<^verbatim>\<open>1/good.C\<close>), over an
  abstract adjacency: \<open>adj v\<close> is the list of arcs \<open>(u, w)\<close> leaving \<open>v\<close>, in the order the
  program visits them, or \<open>None\<close> when reading the row of \<open>v\<close> fails. The two programs
  differ in how they store the graph (a \<open>Comb\<close> of bit-packed arcs, a vector of
  \<^verbatim>\<open>std::map\<close>) and in the unreachable sentinel (\<open>n\<close>, \<open>m + 1\<close>); they instantiate
  \<open>adj\<close> and \<open>sentinel\<close> here.

  The deque is a list (\<^verbatim>\<open>push_front\<close> is \<open>#\<close>, \<^verbatim>\<open>push_back\<close> is \<open>@ [u]\<close>); distances
  are integers, as in the source. The loop may not end on a graph with a negative
  weight, so it is a \<^theory_text>\<open>partial_function (option)\<close>; on a graph whose weights are
  non-negative it is proved to return, and to return \<open>min sentinel \<delta>\<close> for every vertex, where
  \<open>\<delta>\<close> is the least weight of a walk from the start.
\<close>

section \<open>Graphs and walks\<close>

type_synonym adjacency = "nat \<Rightarrow> (nat \<times> int) list option"

definition arc :: "adjacency \<Rightarrow> nat \<Rightarrow> nat \<Rightarrow> int \<Rightarrow> bool" where
  "arc adj v u w \<longleftrightarrow> (\<exists>as. adj v = Some as \<and> (u, w) \<in> set as)"

text \<open>\<open>walk adj s u d\<close>: some walk from \<open>s\<close> to \<open>u\<close> has total weight \<open>d\<close>.\<close>

inductive walk :: "adjacency \<Rightarrow> nat \<Rightarrow> nat \<Rightarrow> int \<Rightarrow> bool" for adj s where
  walk_refl: "walk adj s s 0"
| walk_step: "walk adj s v d \<Longrightarrow> arc adj v u w \<Longrightarrow> walk adj s u (d + w)"

text \<open>Every row of the \<open>n\<close> vertices reads, its arcs stay inside and weigh at least 0.\<close>

definition graph_ok :: "adjacency \<Rightarrow> nat \<Rightarrow> bool" where
  "graph_ok adj n \<longleftrightarrow>
     (\<forall>v < n. \<exists>as. adj v = Some as \<and> (\<forall>(u, w) \<in> set as. u < n \<and> 0 \<le> w))"

section \<open>The search\<close>

text \<open>
  The inner loop over the arcs of \<open>v\<close>:
  \<^verbatim>\<open>if (dist[u] > dist[v] + w) { dist[u] = dist[v] + w;
     if (w) front.push_back(u); else front.push_front(u); }\<close>.
  An arc leaving the distance vector is an out-of-range access, the error \<open>None\<close>.
\<close>

fun relax :: "nat \<Rightarrow> (nat \<times> int) list \<Rightarrow> int list \<Rightarrow> nat list \<Rightarrow> (int list \<times> nat list) option" where
  "relax v [] dist q = Some (dist, q)"
| "relax v ((u, w) # as) dist q =
     (if u < length dist then
        (if dist ! v + w < dist ! u
         then relax v as (dist[u := dist ! v + w]) (if w \<noteq> 0 then q @ [u] else u # q)
         else relax v as dist q)
      else None)"

text \<open>The outer loop: \<^verbatim>\<open>while (!front.empty()) { v = front.front(); front.pop_front(); ... }\<close>.\<close>

partial_function (option) bfs_loop :: "adjacency \<Rightarrow> int list \<Rightarrow> nat list \<Rightarrow> int list option" where
  "bfs_loop adj dist q =
     (case q of
        [] \<Rightarrow> Some dist
      | v # q' \<Rightarrow>
          (if v < length dist then
             (case adj v of
                None \<Rightarrow> None
              | Some as \<Rightarrow>
                  (case relax v as dist q' of
                     None \<Rightarrow> None
                   | Some (dist', q'') \<Rightarrow> bfs_loop adj dist' q''))
           else None))"

declare bfs_loop.simps [code]

text \<open>
  \<^verbatim>\<open>min_distance\<close>: \<open>n\<close> vertices, every distance \<open>sentinel\<close> but the start's \<open>0\<close>, the deque
  holding the start; the answer is the distance of the target.
\<close>

definition bfs_min_distance :: "adjacency \<Rightarrow> nat \<Rightarrow> int \<Rightarrow> nat \<Rightarrow> nat \<Rightarrow> int option" where
  "bfs_min_distance adj n sentinel start target =
     (if start < n then
        (case bfs_loop adj ((replicate n sentinel)[start := 0]) [start] of
           None \<Rightarrow> None
         | Some dist \<Rightarrow> (if target < n then Some (dist ! target) else None))
      else None)"

text \<open>
  A walk written out backwards: \<open>rpath adj s ps u d\<close> lists, from the end, each step as its
  source and weight; the visited vertices are \<open>u # map fst ps\<close>.
\<close>

fun rpath :: "adjacency \<Rightarrow> nat \<Rightarrow> (nat \<times> int) list \<Rightarrow> nat \<Rightarrow> int \<Rightarrow> bool" where
  "rpath adj s [] u d \<longleftrightarrow> u = s \<and> d = 0"
| "rpath adj s ((v, w) # ps) u d \<longleftrightarrow> arc adj v u w \<and> rpath adj s ps v (d - w)"

text \<open>Weights restricted to \<open>{0, 1}\<close>, as the input format of both programs requires.\<close>

definition weights_01 :: "adjacency \<Rightarrow> nat \<Rightarrow> bool" where
  "weights_01 adj n \<longleftrightarrow> (\<forall>v < n. \<forall>u w. arc adj v u w \<longrightarrow> w = 0 \<or> w = 1)"

section \<open>Loop invariant\<close>

text \<open>
  Distances stay between \<open>0\<close> and \<open>sentinel\<close>, the start keeps \<open>0\<close>, every finite distance is
  the weight of a walk, queued vertices are vertices, and an arc whose source is not
  queued satisfies the triangle inequality.
\<close>

definition bfs_inv :: "adjacency \<Rightarrow> nat \<Rightarrow> nat \<Rightarrow> int \<Rightarrow> int list \<Rightarrow> nat list \<Rightarrow> bool" where
  "bfs_inv adj n s sentinel dist q \<longleftrightarrow>
     length dist = n \<and> s < n \<and> dist ! s = 0 \<and>
     (\<forall>i < n. 0 \<le> dist ! i \<and> dist ! i \<le> sentinel \<and> (dist ! i = sentinel \<or> walk adj s i (dist ! i))) \<and>
     (\<forall>x \<in> set q. x < n) \<and>
     (\<forall>v < n. \<forall>u w. arc adj v u w \<longrightarrow> v \<in> set q \<or> dist ! u \<le> dist ! v + w)"

section \<open>The inner loop\<close>

lemma relax_Some:
  "\<forall>(u, w) \<in> set as. u < length dist \<Longrightarrow> \<exists>d' q'. relax v as dist q = Some (d', q')"
  by (induction v as dist q rule: relax.induct) auto

lemma relax_length:
  "relax v as dist q = Some (d', q') \<Longrightarrow> length d' = length dist"
  by (induction v as dist q rule: relax.induct) (auto split: if_splits)

lemma relax_le:
  "relax v as dist q = Some (d', q') \<Longrightarrow> i < length dist \<Longrightarrow> d' ! i \<le> dist ! i"
proof (induction v as dist q rule: relax.induct)
  case (1 v dist q)
  then show ?case by simp
next
  case (2 v u w as dist q)
  then show ?case
    by (fastforce split: if_splits simp: nth_list_update dest: relax_length)
qed

lemma relax_at_source:
  "relax v as dist q = Some (d', q') \<Longrightarrow> \<forall>(u, w) \<in> set as. 0 \<le> w \<Longrightarrow> d' ! v = dist ! v"
proof (induction v as dist q rule: relax.induct)
  case (1 v dist q)
  then show ?case by simp
next
  case (2 v u w as dist q)
  show ?case
  proof (cases "u < length dist \<and> dist ! v + w < dist ! u")
    case True
    with "2.prems"(2) have "u \<noteq> v" by auto
    with True "2.prems" "2.IH"(1) show ?thesis by (auto simp: nth_list_update)
  next
    case False
    with "2.prems" "2.IH"(2) show ?thesis by (auto split: if_splits)
  qed
qed

lemma relax_queue:
  "relax v as dist q = Some (d', q') \<Longrightarrow> set q \<subseteq> set q' \<and> set q' \<subseteq> set q \<union> fst ` set as"
  by (induction v as dist q rule: relax.induct) (fastforce split: if_splits)+

lemma relax_decreased_queued:
  "relax v as dist q = Some (d', q') \<Longrightarrow> i < length dist \<Longrightarrow> d' ! i < dist ! i \<Longrightarrow> i \<in> set q'"
proof (induction v as dist q rule: relax.induct)
  case (1 v dist q)
  then show ?case by simp
next
  case (2 v u w as dist q)
  show ?case
  proof (cases "u < length dist \<and> dist ! v + w < dist ! u")
    case True
    let ?q1 = "if w \<noteq> 0 then q @ [u] else u # q"
    have r: "relax v as (dist[u := dist ! v + w]) ?q1 = Some (d', q')" using True "2.prems"(1) by simp
    show ?thesis
    proof (cases "i = u")
      case True
      then have "i \<in> set ?q1" by simp
      then show ?thesis using relax_queue[OF r] by blast
    next
      case False
      with "2.prems"(3) have "d' ! i < dist[u := dist ! v + w] ! i" by simp
      with True "2.IH"(1) r "2.prems"(2) show ?thesis by simp
    qed
  next
    case False
    with "2.prems" "2.IH"(2) show ?thesis by (auto split: if_splits)
  qed
qed

lemma relax_tri:
  assumes "relax v as dist q = Some (d', q')" and "\<forall>(u, w) \<in> set as. 0 \<le> w"
    and "(u, w) \<in> set as"
  shows "d' ! u \<le> d' ! v + w"
  using assms
proof (induction v as dist q rule: relax.induct)
  case (1 v dist q)
  then show ?case by simp
next
  case (2 v u0 w0 as dist q)
  show ?case
  proof (cases "u0 < length dist \<and> dist ! v + w0 < dist ! u0")
    case True
    let ?d1 = "dist[u0 := dist ! v + w0]" and ?q1 = "if w0 \<noteq> 0 then q @ [u0] else u0 # q"
    have r: "relax v as ?d1 ?q1 = Some (d', q')" using True "2.prems"(1) by simp
    have nn: "\<forall>(u, w) \<in> set as. 0 \<le> w" using "2.prems"(2) by simp
    show ?thesis
    proof (cases "(u, w) \<in> set as")
      case True
      with "2.IH"(1) \<open>u0 < length dist \<and> dist ! v + w0 < dist ! u0\<close> r nn show ?thesis by simp
    next
      case False
      with "2.prems"(3) have uw: "u = u0" "w = w0" by auto
      have "u0 \<noteq> v" using True "2.prems"(2) by auto
      then have v1: "?d1 ! v = dist ! v" by simp
      have "d' ! u0 \<le> ?d1 ! u0" using relax_le[OF r, of u0] True by simp
      also have "\<dots> = dist ! v + w0" using True by simp
      also have "\<dots> = d' ! v + w0" using relax_at_source[OF r nn] v1 by simp
      finally show ?thesis using uw by simp
    qed
  next
    case False
    have r: "relax v as dist q = Some (d', q')" using False "2.prems"(1) by (auto split: if_splits)
    have nn: "\<forall>(u, w) \<in> set as. 0 \<le> w" using "2.prems"(2) by simp
    show ?thesis
    proof (cases "(u, w) \<in> set as")
      case True
      with "2.IH"(2) False r nn "2.prems"(1) show ?thesis by (auto split: if_splits)
    next
      case False
      with "2.prems"(3) have uw: "u = u0" "w = w0" by auto
      have lt: "u0 < length dist" using "2.prems"(1) by (auto split: if_splits)
      with \<open>\<not> (u0 < length dist \<and> dist ! v + w0 < dist ! u0)\<close> have "dist ! u0 \<le> dist ! v + w0" by simp
      moreover have "d' ! u0 \<le> dist ! u0" using relax_le[OF r] lt by simp
      moreover have "d' ! v = dist ! v" using relax_at_source[OF r nn] .
      ultimately show ?thesis using uw by simp
    qed
  qed
qed

lemma relax_values:
  assumes "relax v as dist q = Some (d', q')" and "\<forall>(u, w) \<in> set as. 0 \<le> w"
  shows "d' ! i = dist ! i \<or> (\<exists>w. (i, w) \<in> set as \<and> d' ! i = dist ! v + w)"
  using assms
proof (induction v as dist q rule: relax.induct)
  case (1 v dist q)
  then show ?case by simp
next
  case (2 v u w as dist q)
  show ?case
  proof (cases "u < length dist \<and> dist ! v + w < dist ! u")
    case True
    let ?d1 = "dist[u := dist ! v + w]"
    have "u \<noteq> v" using True "2.prems"(2) by auto
    then have v1: "?d1 ! v = dist ! v" by simp
    have "d' ! i = ?d1 ! i \<or> (\<exists>w'. (i, w') \<in> set as \<and> d' ! i = ?d1 ! v + w')"
      using "2.IH"(1) True "2.prems" by simp
    then show ?thesis using v1 True by (cases "i = u") auto
  next
    case False
    with "2.IH"(2) "2.prems" show ?thesis by (auto split: if_splits)
  qed
qed

lemma relax_measure:
  assumes "relax v as dist q = Some (d', q')" and "\<forall>(u, w) \<in> set as. 0 \<le> w"
    and "0 \<le> dist ! v"
  shows "(d' = dist \<and> q' = q) \<or> sum_list (map nat d') < sum_list (map nat dist)"
  using assms
proof (induction v as dist q rule: relax.induct)
  case (1 v dist q)
  then show ?case by simp
next
  case (2 v u w as dist q)
  show ?case
  proof (cases "u < length dist \<and> dist ! v + w < dist ! u")
    case True
    let ?d1 = "dist[u := dist ! v + w]"
    have "u \<noteq> v" using True "2.prems"(2) by auto
    then have v1: "?d1 ! v = dist ! v" by simp
    have "0 \<le> w" using "2.prems"(2) by simp
    then have "nat (dist ! v + w) < nat (dist ! u)" using True "2.prems"(3) by simp
    then have less: "sum_list (map nat ?d1) < sum_list (map nat dist)"
      using True by (intro sum_list_nat_update_less) simp_all
    have "(d' = ?d1 \<and> q' = (if w \<noteq> 0 then q @ [u] else u # q)) \<or>
          sum_list (map nat d') < sum_list (map nat ?d1)"
      using "2.IH"(1) True "2.prems" v1 by simp
    then show ?thesis using less by auto
  next
    case False
    with "2.IH"(2) "2.prems" show ?thesis by (auto split: if_splits)
  qed
qed

section \<open>The outer loop\<close>

lemma graph_ok_arc:
  "graph_ok adj n \<Longrightarrow> v < n \<Longrightarrow> arc adj v u w \<Longrightarrow> u < n \<and> 0 \<le> w"
  by (fastforce simp: graph_ok_def arc_def)

lemma graph_ok_row:
  "graph_ok adj n \<Longrightarrow> v < n \<Longrightarrow> adj v = Some as \<Longrightarrow> \<forall>(u, w) \<in> set as. u < n \<and> 0 \<le> w"
  by (fastforce simp: graph_ok_def)

lemma bfs_inv_init:
  assumes g: "graph_ok adj n" and s: "s < n" and z: "0 \<le> sentinel"
  shows "bfs_inv adj n s sentinel ((replicate n sentinel)[s := 0]) [s]"
proof -
  let ?d = "(replicate n sentinel)[s := 0]"
  have "?d ! u \<le> ?d ! v + w" if "v < n" "v \<noteq> s" "arc adj v u w" for v u w
  proof -
    have "u < n \<and> 0 \<le> w" using graph_ok_arc[OF g that(1,3)] .
    then show ?thesis using that z s by (cases "u = s") (simp_all add: nth_list_update)
  qed
  then show ?thesis using s z by (auto simp: bfs_inv_def nth_list_update intro: walk_refl)
qed

lemma bfs_inv_step:
  assumes g: "graph_ok adj n" and inv: "bfs_inv adj n s sentinel dist (v # q)"
    and a: "adj v = Some as" and r: "relax v as dist q = Some (d', q')"
  shows "bfs_inv adj n s sentinel d' q'"
proof -
  have v: "v < n" and len: "length dist = n" using inv by (simp_all add: bfs_inv_def)
  have row: "\<forall>(u, w) \<in> set as. u < n \<and> 0 \<le> w" using graph_ok_row[OF g v a] .
  then have nn: "\<forall>(u, w) \<in> set as. 0 \<le> w" by auto
  have len': "length d' = n" using relax_length[OF r] len by simp
  have le: "d' ! i \<le> dist ! i" if "i < n" for i using relax_le[OF r] that len by simp
  have dv: "0 \<le> dist ! v" using inv v by (simp add: bfs_inv_def)
  have vals: "d' ! i = dist ! i \<or> (\<exists>w. (i, w) \<in> set as \<and> d' ! i = dist ! v + w)" for i
    using relax_values[OF r nn] .
  have pos: "0 \<le> d' ! i" if "i < n" for i
    using vals[of i] inv that dv nn by (auto simp: bfs_inv_def)
  have sound: "d' ! i = sentinel \<or> walk adj s i (d' ! i)" if i: "i < n" for i
  proof (cases "d' ! i = dist ! i")
    case True
    then show ?thesis using inv i by (simp add: bfs_inv_def)
  next
    case False
    then obtain w where iw: "(i, w) \<in> set as" and di: "d' ! i = dist ! v + w" using vals[of i] by blast
    have "d' ! i < dist ! i" using le[OF i] False by simp
    moreover have "dist ! i \<le> sentinel" using inv i by (simp add: bfs_inv_def)
    moreover have "0 \<le> w" using nn iw by auto
    ultimately have "dist ! v \<noteq> sentinel" using di by simp
    moreover have "dist ! v = sentinel \<or> walk adj s v (dist ! v)"
      using inv v unfolding bfs_inv_def by blast
    ultimately have "walk adj s v (dist ! v)" by simp
    moreover have "arc adj v i w" using a iw by (simp add: arc_def)
    ultimately show ?thesis using di by (simp add: walk_step)
  qed
  have queue: "\<forall>x \<in> set q'. x < n"
    using relax_queue[OF r] inv row by (fastforce simp: bfs_inv_def)
  have tri: "x \<in> set q' \<or> d' ! u \<le> d' ! x + w" if x: "x < n" and xa: "arc adj x u w" for x u w
  proof (cases "x = v")
    case True
    then have "(u, w) \<in> set as" using xa a by (simp add: arc_def)
    then show ?thesis using relax_tri[OF r nn] True by simp
  next
    case False
    have u: "u < n" using graph_ok_arc[OF g x xa] by simp
    have "\<forall>y < n. \<forall>u w. arc adj y u w \<longrightarrow> y \<in> set (v # q) \<or> dist ! u \<le> dist ! y + w"
      using inv by (simp add: bfs_inv_def)
    then have "x \<in> set (v # q) \<or> dist ! u \<le> dist ! x + w" using x xa by blast
    then have "x \<in> set q \<or> dist ! u \<le> dist ! x + w" using False by simp
    then show ?thesis
    proof
      assume "x \<in> set q"
      then show ?thesis using relax_queue[OF r] by blast
    next
      assume old: "dist ! u \<le> dist ! x + w"
      show ?thesis
      proof (cases "d' ! x < dist ! x")
        case True
        then show ?thesis using relax_decreased_queued[OF r] x len by simp
      next
        case False
        then have "d' ! x = dist ! x" using le[OF x] by simp
        then show ?thesis using le[OF u] old by simp
      qed
    qed
  qed
  have s0: "d' ! s = 0"
    using le[of s] pos[of s] inv by (simp add: bfs_inv_def)
  have bound: "d' ! i \<le> sentinel" if "i < n" for i
    using le[OF that] inv that by (fastforce simp: bfs_inv_def)
  have p1: "\<forall>i < n. 0 \<le> d' ! i \<and> d' ! i \<le> sentinel \<and> (d' ! i = sentinel \<or> walk adj s i (d' ! i))"
    using pos bound sound by blast
  have p2: "\<forall>x < n. \<forall>u w. arc adj x u w \<longrightarrow> x \<in> set q' \<or> d' ! u \<le> d' ! x + w"
    using tri by blast
  have "s < n" using inv by (simp add: bfs_inv_def)
  then show ?thesis
    unfolding bfs_inv_def using len' s0 p1 queue p2 by blast
qed

text \<open>
  Termination and the result together: by induction on the sum of the distances (it drops
  whenever an arc relaxes) and, inside, on the deque (it loses its head otherwise).
\<close>

lemma bfs_loop_returns:
  assumes g: "graph_ok adj n" and inv: "bfs_inv adj n s sentinel dist q"
  shows "\<exists>r. bfs_loop adj dist q = Some r \<and> bfs_inv adj n s sentinel r []"
  using inv
proof (induction "sum_list (map nat dist)" arbitrary: dist q rule: less_induct)
  case less
  from less.prems show ?case
  proof (induction q)
    case Nil
    then show ?case by (simp add: bfs_loop.simps[of adj dist "[]"])
  next
    case (Cons v q)
    have v: "v < n" and len: "length dist = n" using Cons.prems by (simp_all add: bfs_inv_def)
    obtain as where a: "adj v = Some as" and row: "\<forall>(u, w) \<in> set as. u < n \<and> 0 \<le> w"
      using g v by (auto simp: graph_ok_def)
    obtain d' q' where r: "relax v as dist q = Some (d', q')"
      using relax_Some[of as dist v q] row len by fastforce
    have unfold: "bfs_loop adj dist (v # q) = bfs_loop adj d' q'"
      using v len a r by (simp add: bfs_loop.simps[of adj dist "v # q"])
    have inv': "bfs_inv adj n s sentinel d' q'" using bfs_inv_step[OF g Cons.prems a r] .
    have "0 \<le> dist ! v" using Cons.prems v by (simp add: bfs_inv_def)
    then have "(d' = dist \<and> q' = q) \<or> sum_list (map nat d') < sum_list (map nat dist)"
      using relax_measure[OF r] row by fastforce
    then show ?case
    proof
      assume "d' = dist \<and> q' = q"
      then show ?thesis using Cons.IH inv' unfold by simp
    next
      assume "sum_list (map nat d') < sum_list (map nat dist)"
      then show ?thesis using less.hyps inv' unfold by simp
    qed
  qed
qed

text \<open>When the deque is empty every arc satisfies the triangle inequality, so no walk
  from the start is shorter than the computed distance of its end.\<close>

lemma bfs_done_lower_bound:
  assumes g: "graph_ok adj n" and inv: "bfs_inv adj n s sentinel dist []"
  shows "walk adj s u d \<Longrightarrow> u < n \<and> dist ! u \<le> d"
proof (induction rule: walk.induct)
  case walk_refl
  then show ?case using inv by (simp add: bfs_inv_def)
next
  case (walk_step v d u w)
  have u: "u < n" using graph_ok_arc[OF g _ walk_step.hyps(2)] walk_step.IH by simp
  have "\<forall>y < n. \<forall>u w. arc adj y u w \<longrightarrow> dist ! u \<le> dist ! y + w"
    using inv by (simp add: bfs_inv_def)
  then have "dist ! u \<le> dist ! v + w" using walk_step.IH walk_step.hyps(2) by blast
  then show ?case using u walk_step.IH by simp
qed

lemma bfs_min_distance_spec:
  assumes g: "graph_ok adj n" and s: "start < n" and t: "target < n" and z: "0 \<le> sentinel"
  shows "\<exists>d. bfs_min_distance adj n sentinel start target = Some d \<and> 0 \<le> d \<and> d \<le> sentinel \<and>
             (\<forall>w. walk adj start target w \<longrightarrow> d \<le> w) \<and> (d = sentinel \<or> walk adj start target d)"
proof -
  obtain r where r: "bfs_loop adj ((replicate n sentinel)[start := 0]) [start] = Some r"
    and inv: "bfs_inv adj n start sentinel r []"
    using bfs_loop_returns[OF g bfs_inv_init[OF g s z]] by blast
  have "0 \<le> r ! target \<and> r ! target \<le> sentinel \<and> (r ! target = sentinel \<or> walk adj start target (r ! target))"
    using inv t by (simp add: bfs_inv_def)
  moreover have "\<forall>w. walk adj start target w \<longrightarrow> r ! target \<le> w"
    using bfs_done_lower_bound[OF g inv] by blast
  ultimately show ?thesis using r s t by (simp add: bfs_min_distance_def)
qed

section \<open>Shortest walks are short\<close>

lemma walk_rpath: "walk adj s u d \<Longrightarrow> \<exists>ps. rpath adj s ps u d"
proof (induction rule: walk.induct)
  case walk_refl
  have "rpath adj s [] s 0" by simp
  then show ?case by blast
next
  case (walk_step v d u w)
  then obtain ps where "rpath adj s ps v d" by blast
  then have "rpath adj s ((v, w) # ps) u (d + w)" using walk_step.hyps(2) by simp
  then show ?case by blast
qed

lemma rpath_walk: "rpath adj s ps u d \<Longrightarrow> walk adj s u d"
proof (induction ps arbitrary: u d)
  case Nil
  then show ?case by (simp add: walk_refl)
next
  case (Cons p ps)
  obtain v w where p: "p = (v, w)" by (cases p)
  with Cons.prems have "walk adj s v (d - w)" and "arc adj v u w" by (simp_all add: Cons.IH)
  then have "walk adj s u (d - w + w)" by (rule walk_step)
  then show ?case by simp
qed

lemma rpath_bounds:
  assumes "rpath adj s ps u d" and "graph_ok adj n" and "s < n"
  shows "u < n \<and> 0 \<le> d \<and> (\<forall>(v, w) \<in> set ps. v < n \<and> 0 \<le> w)"
  using assms(1)
proof (induction ps arbitrary: u d)
  case Nil
  then show ?case using assms(3) by simp
next
  case (Cons p ps)
  obtain v w where p: "p = (v, w)" by (cases p)
  with Cons.prems have a: "arc adj v u w" and r: "rpath adj s ps v (d - w)" by simp_all
  from Cons.IH[OF r] have v: "v < n" and "0 \<le> d - w" and "\<forall>(v, w) \<in> set ps. v < n \<and> 0 \<le> w"
    by simp_all
  moreover have "u < n \<and> 0 \<le> w" using graph_ok_arc[OF assms(2) v a] .
  ultimately show ?case using p by auto
qed

lemma rpath_cut:
  assumes "rpath adj s (ps1 @ (x, w) # ps2) u d" and g: "graph_ok adj n" and s: "s < n"
  shows "\<exists>d2. rpath adj s ps2 x d2 \<and> d2 \<le> d"
  using assms(1)
proof (induction ps1 arbitrary: u d)
  case Nil
  then have r: "rpath adj s ps2 x (d - w)" by simp
  have "0 \<le> w" using rpath_bounds[OF Nil.prems g s] by simp
  then show ?case using r by force
next
  case (Cons p ps1)
  obtain v w' where p: "p = (v, w')" by (cases p)
  with Cons.prems have r: "rpath adj s (ps1 @ (x, w) # ps2) v (d - w')" by simp
  have "0 \<le> w'" using rpath_bounds[OF Cons.prems g s] p by simp
  with Cons.IH[OF r] show ?case by force
qed

lemma rpath_weight_01:
  assumes "rpath adj s ps u d" and "graph_ok adj n" and "weights_01 adj n" and "s < n"
  shows "d \<le> int (length ps)"
  using assms(1)
proof (induction ps arbitrary: u d)
  case Nil
  then show ?case by simp
next
  case (Cons p ps)
  obtain v w where p: "p = (v, w)" by (cases p)
  with Cons.prems have a: "arc adj v u w" and r: "rpath adj s ps v (d - w)" by simp_all
  have "v < n" using rpath_bounds[OF r assms(2,4)] by simp
  then have "w = 0 \<or> w = 1" using a assms(3) unfolding weights_01_def by blast
  then have "w \<le> 1" by auto
  with Cons.IH[OF r] show ?case by simp
qed

text \<open>Cutting the cycles out of a walk gives a walk through distinct vertices that is no heavier.\<close>

lemma rpath_distinct:
  assumes g: "graph_ok adj n" and s: "s < n"
  shows "rpath adj s ps u d \<Longrightarrow>
    \<exists>ps' d'. rpath adj s ps' u d' \<and> d' \<le> d \<and> length ps' \<le> length ps \<and> distinct (u # map fst ps')"
proof (induction "length ps" arbitrary: ps u d rule: less_induct)
  case less
  show ?case
  proof (cases "u \<in> fst ` set ps")
    case True
    then obtain w where "(u, w) \<in> set ps" by auto
    then obtain ps1 ps2 where ps: "ps = ps1 @ (u, w) # ps2" by (meson split_list)
    obtain d2 where r2: "rpath adj s ps2 u d2" and "d2 \<le> d"
      using rpath_cut[OF less.prems[unfolded ps] g s] by blast
    moreover have "length ps2 < length ps" using ps by simp
    ultimately show ?thesis using less.hyps[of ps2 u d2] by fastforce
  next
    case False
    show ?thesis
    proof (cases ps)
      case Nil
      then show ?thesis using less.prems by fastforce
    next
      case (Cons p ps1)
      obtain v w where p: "p = (v, w)" by (cases p)
      with less.prems Cons have a: "arc adj v u w" and r1: "rpath adj s ps1 v (d - w)" by simp_all
      obtain ps2 d2 where r2: "rpath adj s ps2 v d2" and d2: "d2 \<le> d - w"
        and l2: "length ps2 \<le> length ps1" and dist2: "distinct (v # map fst ps2)"
        using less.hyps[of ps1 v "d - w"] r1 Cons by auto
      have r3: "rpath adj s ((v, w) # ps2) u (d2 + w)" using a r2 by simp
      show ?thesis
      proof (cases "u \<in> set (v # map fst ps2)")
        case False
        then show ?thesis using r3 d2 l2 dist2 Cons by fastforce
      next
        case True
        then have "\<exists>w'. (u, w') \<in> set ((v, w) # ps2)" by (auto simp: image_iff)
        then obtain w' where "(u, w') \<in> set ((v, w) # ps2)" by blast
        then obtain qs1 qs2 where qs: "(v, w) # ps2 = qs1 @ (u, w') # qs2" by (meson split_list)
        obtain d3 where r4: "rpath adj s qs2 u d3" and "d3 \<le> d2 + w"
          using rpath_cut[OF r3[unfolded qs] g s] by blast
        moreover have "length qs2 < length ps"
        proof -
          have "Suc (length ps2) = length qs1 + Suc (length qs2)"
            using arg_cong[OF qs, of length] by simp
          then show ?thesis using l2 Cons by simp
        qed
        ultimately show ?thesis using less.hyps[of qs2 u d3] d2 by fastforce
      qed
    qed
  qed
qed

lemma walk_short:
  assumes g: "graph_ok adj n" and w01: "weights_01 adj n" and s: "s < n" and w: "walk adj s u d"
  shows "\<exists>d'. walk adj s u d' \<and> d' \<le> d \<and> d' < int n"
proof -
  obtain ps where "rpath adj s ps u d" using walk_rpath[OF w] by blast
  then obtain ps' d' where r: "rpath adj s ps' u d'" and "d' \<le> d" and dist: "distinct (u # map fst ps')"
    using rpath_distinct[OF g s] by blast
  have "set (u # map fst ps') \<subseteq> {..<n}" using rpath_bounds[OF r g s] by auto
  then have "length (u # map fst ps') \<le> n"
    using dist by (metis card_lessThan card_mono distinct_card finite_lessThan)
  then have "d' < int n" using rpath_weight_01[OF r g w01 s] by simp
  then show ?thesis using rpath_walk[OF r] \<open>d' \<le> d\<close> by blast
qed

lemma consec_subset:
  "S \<in> set (map2 (\<lambda>x y. {x, y}) xs (tl xs)) \<Longrightarrow> S \<subseteq> set xs"
proof (induction xs)
  case Nil
  then show ?case by simp
next
  case (Cons x xs)
  then show ?case by (cases xs) (auto dest: set_zip_leftD set_zip_rightD)
qed

lemma consec_card:
  "distinct xs \<Longrightarrow> card (set (map2 (\<lambda>x y. {x, y}) xs (tl xs))) = length xs - 1"
proof (induction xs)
  case Nil
  then show ?case by simp
next
  case (Cons x xs)
  show ?case
  proof (cases xs)
    case Nil
    then show ?thesis by simp
  next
    case (Cons y ys)
    have "{x, y} \<notin> set (map2 (\<lambda>x y. {x, y}) xs (tl xs))"
    proof
      assume "{x, y} \<in> set (map2 (\<lambda>x y. {x, y}) xs (tl xs))"
      then have "{x, y} \<subseteq> set xs" by (rule consec_subset)
      then show False using Cons.prems by simp
    qed
    then show ?thesis using Cons.IH Cons.prems \<open>xs = y # ys\<close> by simp
  qed
qed

lemma rpath_consec:
  assumes E: "\<And>v u w. arc adj v u w \<Longrightarrow> v \<noteq> u \<Longrightarrow> {v, u} \<in> E"
  shows "rpath adj s ps u d \<Longrightarrow> distinct (u # map fst ps) \<Longrightarrow>
           set (map2 (\<lambda>x y. {x, y}) (u # map fst ps) (map fst ps)) \<subseteq> E"
proof (induction ps arbitrary: u d)
  case Nil
  then show ?case by simp
next
  case (Cons p ps)
  obtain v w where p: "p = (v, w)" by fastforce
  have a: "arc adj v u w" and r: "rpath adj s ps v (d - w)" using Cons.prems(1) p by simp_all
  have "u \<noteq> v" using Cons.prems(2) p by auto
  then have "{u, v} \<in> E" using E[OF a] by (simp add: insert_commute)
  moreover have "set (map2 (\<lambda>x y. {x, y}) (v # map fst ps) (map fst ps)) \<subseteq> E"
    using Cons.IH[OF r] Cons.prems(2) p by simp
  ultimately show ?case using p by simp
qed

text \<open>With 0-1 weights a shortest walk uses each undirected edge at most once, so its weight
  is at most the number of edges: the sentinel \<open>m + 1\<close> of \<^verbatim>\<open>1/good.C\<close>.\<close>

lemma walk_short_edges:
  assumes g: "graph_ok adj n" and w01: "weights_01 adj n" and s: "s < n" and w: "walk adj s u d"
    and fin: "finite E" and E: "\<And>v u w. arc adj v u w \<Longrightarrow> v \<noteq> u \<Longrightarrow> {v, u} \<in> E"
  shows "\<exists>d'. walk adj s u d' \<and> d' \<le> d \<and> d' \<le> int (card E)"
proof -
  obtain ps where "rpath adj s ps u d" using walk_rpath[OF w] by blast
  then obtain ps' d' where r: "rpath adj s ps' u d'" and "d' \<le> d" and dist: "distinct (u # map fst ps')"
    using rpath_distinct[OF g s] by blast
  have "length ps' = card (set (map2 (\<lambda>x y. {x, y}) (u # map fst ps') (map fst ps')))"
    using consec_card[OF dist] by simp
  also have "\<dots> \<le> card E" using rpath_consec[OF E r dist] fin by (rule card_mono[rotated])
  finally have "d' \<le> int (card E)" using rpath_weight_01[OF r g w01 s] by simp
  then show ?thesis using rpath_walk[OF r] \<open>d' \<le> d\<close> by blast
qed

section \<open>Comparing graphs\<close>

text \<open>Two adjacencies with the same arcs up to lighter duplicates have the same walks up to
  weight: the tool for relating a stored graph to the graph its input describes.\<close>

lemma walk_mono:
  assumes "\<And>v u w. arc A v u w \<Longrightarrow> arc B v u w"
  shows "walk A s t d \<Longrightarrow> walk B s t d"
proof (induction rule: walk.induct)
  case walk_refl
  then show ?case by (rule walk.walk_refl)
next
  case (walk_step v d u w)
  then show ?case using assms by (blast intro: walk.walk_step)
qed

lemma walk_dominated:
  assumes "\<And>v u w. arc B v u w \<Longrightarrow> \<exists>w' \<le> w. arc A v u w'"
  shows "walk B s t d \<Longrightarrow> \<exists>d' \<le> d. walk A s t d'"
proof (induction rule: walk.induct)
  case walk_refl
  then show ?case by (blast intro: walk.walk_refl)
next
  case (walk_step v d u w)
  then obtain d' w' where "d' \<le> d" "walk A s v d'" "w' \<le> w" "arc A v u w'"
    using assms by blast
  then have "walk A s u (d' + w')" by (blast intro: walk.walk_step)
  then show ?case using \<open>d' \<le> d\<close> \<open>w' \<le> w\<close> by (intro exI[of _ "d' + w'"]) simp
qed

section \<open>The search computes shortest distances\<close>

text \<open>The search is exact for any sentinel that some walk to each reachable target undercuts.\<close>

lemma bfs_min_distance_sentinel:
  assumes g: "graph_ok adj n" and s: "start < n" and t: "target < n" and z: "0 \<le> sentinel"
    and short: "\<And>w. walk adj start target w \<Longrightarrow> \<exists>w'. walk adj start target w' \<and> w' < sentinel"
  shows "\<exists>d. bfs_min_distance adj n sentinel start target = Some d \<and>
             ((\<exists>w. walk adj start target w) \<longrightarrow>
                walk adj start target d \<and> (\<forall>w. walk adj start target w \<longrightarrow> d \<le> w) \<and> d < sentinel) \<and>
             (\<not> (\<exists>w. walk adj start target w) \<longrightarrow> d = sentinel)"
proof -
  obtain d where r: "bfs_min_distance adj n sentinel start target = Some d"
    and low: "\<forall>w. walk adj start target w \<longrightarrow> d \<le> w"
    and wk: "d = sentinel \<or> walk adj start target d"
    using bfs_min_distance_spec[OF g s t z] by blast
  have "walk adj start target d \<and> (\<forall>w. walk adj start target w \<longrightarrow> d \<le> w) \<and> d < sentinel"
    if wlk: "walk adj start target w" for w
  proof -
    obtain w' where "walk adj start target w'" "w' < sentinel" using short[OF wlk] by blast
    then have "d < sentinel" using low by fastforce
    then show ?thesis using wk low by auto
  qed
  moreover have "\<not> (\<exists>w. walk adj start target w) \<longrightarrow> d = sentinel" using wk by auto
  ultimately show ?thesis using r by blast
qed

text \<open>With 0-1 weights a shortest walk is shorter than the number of vertices, so any
  sentinel of at least \<open>n\<close> separates the reachable targets from the others.\<close>

lemma bfs_min_distance_exact:
  assumes g: "graph_ok adj n" and w01: "weights_01 adj n" and s: "start < n" and t: "target < n"
    and big: "int n \<le> sentinel"
  shows "\<exists>d. bfs_min_distance adj n sentinel start target = Some d \<and>
             ((\<exists>w. walk adj start target w) \<longrightarrow>
                walk adj start target d \<and> (\<forall>w. walk adj start target w \<longrightarrow> d \<le> w) \<and> d < sentinel) \<and>
             (\<not> (\<exists>w. walk adj start target w) \<longrightarrow> d = sentinel)"
proof (rule bfs_min_distance_sentinel[OF g s t])
  show "0 \<le> sentinel" using big by simp
next
  fix w assume "walk adj start target w"
  then obtain w' where "walk adj start target w'" "w' < int n" using walk_short[OF g w01 s] by blast
  then show "\<exists>w'. walk adj start target w' \<and> w' < sentinel" using big by force
qed

section \<open>Properties of the search\<close>

text \<open>A sentinel below \<open>0\<close> is below the start's distance: no arc ever relaxes, and the
  search answers \<open>0\<close> at the start and the sentinel everywhere else.\<close>

lemma relax_top:
  assumes "\<forall>(u, w) \<in> set as. u < length dist \<and> 0 \<le> w" and "\<forall>x \<in> set dist. x \<le> dist ! v"
  shows "relax v as dist q = Some (dist, q)"
  using assms
proof (induction as)
  case (Cons a as)
  obtain u w where a: "a = (u, w)" by (cases a)
  then have "u < length dist" "0 \<le> w" using Cons.prems(1) by auto
  moreover have "dist ! u \<le> dist ! v" using Cons.prems(2) \<open>u < length dist\<close> by simp
  ultimately have "\<not> dist ! v + w < dist ! u" by linarith
  then show ?case using Cons a \<open>u < length dist\<close> by simp
qed simp

lemma bfs_min_distance_negative:
  assumes g: "graph_ok adj n" and s: "start < n" and t: "target < n" and z: "sentinel < 0"
  shows "bfs_min_distance adj n sentinel start target = Some (if target = start then 0 else sentinel)"
proof -
  let ?d = "(replicate n sentinel)[start := 0]"
  obtain as where as: "adj start = Some as" "\<forall>(u, w) \<in> set as. u < n \<and> 0 \<le> w"
    using g s by (auto simp: graph_ok_def)
  have top: "\<forall>x \<in> set ?d. x \<le> ?d ! start"
    using s z by (auto simp: set_update_distinct in_set_conv_nth nth_list_update)
  have "relax start as ?d [] = Some (?d, [])" using relax_top[of as ?d start] as(2) top by simp
  then have "bfs_loop adj ?d [start] = Some ?d"
    using as(1) s by (simp add: bfs_loop.simps[of adj ?d] bfs_loop.simps[of adj ?d "[]"])
  then show ?thesis using s t by (simp add: bfs_min_distance_def nth_list_update)
qed

text \<open>
  C16. Total correctness of the 0-1 search: on a graph whose rows read, whose arcs stay
  inside and weigh 0 or 1, with start and target vertices and a sentinel of at least
  \<open>n\<close>, the search returns; when the target is reachable its answer is the least weight
  of a walk from the start to the target, below the sentinel, and otherwise the sentinel.
\<close>

theorem bfs_min_distance_correct:
  assumes "graph_ok adj n" and "weights_01 adj n" and "start < n" and "target < n"
    and "int n \<le> sentinel"
  shows "\<exists>d. bfs_min_distance adj n sentinel start target = Some d \<and>
             ((\<exists>w. walk adj start target w) \<longrightarrow>
                walk adj start target d \<and> (\<forall>w. walk adj start target w \<longrightarrow> d \<le> w) \<and> d < sentinel) \<and>
             (\<not> (\<exists>w. walk adj start target w) \<longrightarrow> d = sentinel)"
  using bfs_min_distance_exact[OF assms] .

section \<open>Witnesses\<close>

theorem bfs_min_distance_correct_witness:
  "graph_ok (\<lambda>v. if v < 3 then Some ([[(1, 1), (2, 0)], [], [(1, 0)]] ! v) else None) 3 \<and>
   weights_01 (\<lambda>v. if v < 3 then Some ([[(1, 1), (2, 0)], [], [(1, 0)]] ! v) else None) 3 \<and>
   (0::nat) < 3 \<and> (1::nat) < 3 \<and> int 3 \<le> 3 \<and>
   (\<exists>d. bfs_min_distance (\<lambda>v. if v < 3 then Some ([[(1, 1), (2, 0)], [], [(1, 0)]] ! v) else None) 3 3 0 1 = Some d \<and>
        ((\<exists>w. walk (\<lambda>v. if v < 3 then Some ([[(1, 1), (2, 0)], [], [(1, 0)]] ! v) else None) 0 1 w) \<longrightarrow>
           walk (\<lambda>v. if v < 3 then Some ([[(1, 1), (2, 0)], [], [(1, 0)]] ! v) else None) 0 1 d \<and>
           (\<forall>w. walk (\<lambda>v. if v < 3 then Some ([[(1, 1), (2, 0)], [], [(1, 0)]] ! v) else None) 0 1 w \<longrightarrow> d \<le> w) \<and>
           d < 3) \<and>
        (\<not> (\<exists>w. walk (\<lambda>v. if v < 3 then Some ([[(1, 1), (2, 0)], [], [(1, 0)]] ! v) else None) 0 1 w) \<longrightarrow> d = 3))"
proof -
  have g: "graph_ok (\<lambda>v. if v < 3 then Some ([[(1, 1), (2, 0)], [], [(1, 0)]] ! v) else None) 3"
    by (simp add: graph_ok_def less_Suc_eq numeral_3_eq_3)
  have w: "weights_01 (\<lambda>v. if v < 3 then Some ([[(1, 1), (2, 0)], [], [(1, 0)]] ! v) else None) 3"
    by (auto simp add: weights_01_def arc_def less_Suc_eq numeral_3_eq_3)
  show ?thesis using g w bfs_min_distance_correct[OF g w, of 0 1 3] by simp
qed

end
