(* ===== verification/Graph_Better.thy ===== *)
theory Graph_Better
  imports Comb Bfs01 "HOL-Library.Product_Lexorder" "HOL-Library.Multiset"
begin

text \<open>
  The compact shortest-path program \<^verbatim>\<open>src/2015-06-06/1/better.C\<close>. An input edge
  \<open>(src, dst, weight)\<close> becomes two \<^verbatim>\<open>Edge\<close>s (one per direction) with the bit-packed
  \<^verbatim>\<open>Arc {unsigned weight : 1; int vertex : 31;}\<close>; the edges are sorted by
  \<^verbatim>\<open>less\<close>, duplicates of a (source, target) pair are removed by \<^verbatim>\<open>std::unique\<close> with
  \<^verbatim>\<open>equal\<close> (keeping the lightest, since the weight is the last sort key), and
  \<^verbatim>\<open>compactify_to\<close> stores them in a \<^verbatim>\<open>Comb<int32_t, Arc>\<close>. \<^verbatim>\<open>min_distance\<close> is the
  0-1 search of \<open>Bfs01\<close> with the sentinel \<open>n = g.rows()\<close>, and \<^verbatim>\<open>main\<close> prints
  \<open>-1\<close> for the sentinel.

  Parsing with \<^verbatim>\<open>scanf\<close> is not modelled: the input is the list of triples as read,
  \<open>int32\<close> vertices and an \<open>unsigned\<close> weight.
\<close>

section \<open>Data\<close>

text \<open>\<^verbatim>\<open>struct Arc\<close>: a 1-bit unsigned weight and a 31-bit signed vertex.\<close>

record Arc =
  arc_weight :: "1 word"
  arc_vertex :: "31 word"

record Edge =
  edge_src :: int32
  edge_dst :: Arc

text \<open>Storing into the bit-fields keeps the low bits (\<open>ucast\<close>); reading the signed field
  sign-extends (\<open>sint\<close>), the unsigned one zero-extends (\<open>uint\<close>).\<close>

definition make_arc :: "32 word \<Rightarrow> int32 \<Rightarrow> Arc" where
  "make_arc w v = \<lparr>arc_weight = ucast w, arc_vertex = ucast v\<rparr>"

section \<open>Ordering and deduplication\<close>

text \<open>
  \<^verbatim>\<open>less\<close>: \<^verbatim>\<open>lhs.src - rhs.src\<close> is an \<^verbatim>\<open>int\<close> subtraction of two \<^verbatim>\<open>int32_t\<close>
  (it wraps where it overflows); the bit-fields are promoted to \<^verbatim>\<open>int\<close> first, so their
  differences are exact.
\<close>

definition less_edge :: "Edge \<Rightarrow> Edge \<Rightarrow> bool" where
  "less_edge l r =
     (let rv = sint (edge_src l - edge_src r);
          rv = (if rv \<noteq> 0 then rv
                else sint (arc_vertex (edge_dst l)) - sint (arc_vertex (edge_dst r)));
          rv = (if rv \<noteq> 0 then rv
                else uint (arc_weight (edge_dst l)) - uint (arc_weight (edge_dst r)))
      in rv < 0)"

definition equal_edge :: "Edge \<Rightarrow> Edge \<Rightarrow> bool" where
  "equal_edge l r \<longleftrightarrow> edge_src l = edge_src r \<and> arc_vertex (edge_dst l) = arc_vertex (edge_dst r)"

text \<open>
  \<^verbatim>\<open>std::sort(..., less)\<close> is modelled by \<open>sort_key\<close> on the key \<^verbatim>\<open>less\<close> compares
  lexicographically; the key is injective on \<open>Edge\<close>, so the sorted permutation is unique
  and any correct sort returns this one (lemma \<open>std_sort_unique\<close>).
\<close>

definition edge_key :: "Edge \<Rightarrow> int \<times> int \<times> int" where
  "edge_key e = (sint (edge_src e), sint (arc_vertex (edge_dst e)), uint (arc_weight (edge_dst e)))"

text \<open>\<^verbatim>\<open>std::unique\<close>: of each run of elements equivalent to the last kept one, only the
  first stays.\<close>

fun std_unique :: "('a \<Rightarrow> 'a \<Rightarrow> bool) \<Rightarrow> 'a list \<Rightarrow> 'a list" where
  "std_unique eq [] = []"
| "std_unique eq [x] = [x]"
| "std_unique eq (x # y # xs) =
     (if eq x y then std_unique eq (x # xs) else x # std_unique eq (y # xs))"

section \<open>\<^verbatim>\<open>read_graph\<close>\<close>

text \<open>The loop of \<^verbatim>\<open>read_graph\<close>: \<^verbatim>\<open>--src; --dst;\<close> then both directions.\<close>

definition read_edges :: "(int32 \<times> int32 \<times> 32 word) list \<Rightarrow> Edge list" where
  "read_edges inp =
     concat (map (\<lambda>(s, d, w).
        [\<lparr>edge_src = s - 1, edge_dst = make_arc w (d - 1)\<rparr>,
         \<lparr>edge_src = d - 1, edge_dst = make_arc w (s - 1)\<rparr>]) inp)"

text \<open>The copy of \<^verbatim>\<open>compactify_to\<close> in \<^verbatim>\<open>1/better.C\<close>: the builder of \<open>Comb\<close> on the
  edges, an edge's source as the row and its \<^verbatim>\<open>Arc\<close> as the payload.\<close>

definition compactify_graph :: "Edge list \<Rightarrow> int32 \<Rightarrow> (int32, Arc) comb option" where
  "compactify_graph raw n = compactify_to (map (\<lambda>e. (edge_src e, edge_dst e)) raw) n comb_init"

definition read_graph :: "int32 \<Rightarrow> (int32 \<times> int32 \<times> 32 word) list \<Rightarrow> (int32, Arc) comb option" where
  "read_graph n inp =
     compactify_graph (std_unique equal_edge (sort_key edge_key (read_edges inp))) n"

section \<open>\<^verbatim>\<open>min_distance\<close> and \<^verbatim>\<open>main\<close>\<close>

text \<open>An arc as the search uses it: \<^verbatim>\<open>dist[dst.vertex]\<close> with a negative vertex is an
  out-of-range access (\<open>None\<close>).\<close>

definition arc_of :: "Arc \<Rightarrow> (nat \<times> int) option" where
  "arc_of a =
     (if 0 \<le> sint (arc_vertex a) then Some (nat (sint (arc_vertex a)), uint (arc_weight a)) else None)"

text \<open>Row \<open>v\<close> of the graph read through \<^verbatim>\<open>g.length(v)\<close> and \<^verbatim>\<open>g.at(v, u)\<close>.\<close>

definition graph_adj :: "(int32, Arc) comb \<Rightarrow> adjacency" where
  "graph_adj g v =
     (case comb_row scast g v of
        None \<Rightarrow> None
      | Some arcs \<Rightarrow> those (map arc_of arcs))"

definition min_distance :: "(int32, Arc) comb \<Rightarrow> int32 \<Rightarrow> int32 \<Rightarrow> int option" where
  "min_distance g start target =
     (if 0 \<le> sint start \<and> 0 \<le> sint target
      then bfs_min_distance (graph_adj g) (rows g) (int (rows g)) (nat (sint start)) (nat (sint target))
      else None)"

text \<open>\<^verbatim>\<open>main\<close>: \<^verbatim>\<open>--a; --b;\<close>, then \<open>-1\<close> when the distance is the sentinel \<open>n\<close>.\<close>

definition main_better :: "int32 \<Rightarrow> int32 \<Rightarrow> int32 \<Rightarrow> (int32 \<times> int32 \<times> 32 word) list \<Rightarrow> int option" where
  "main_better n a b inp =
     (case read_graph n inp of
        None \<Rightarrow> None
      | Some g \<Rightarrow>
          (case min_distance g (a - 1) (b - 1) of
             None \<Rightarrow> None
           | Some d \<Rightarrow> Some (if d = sint n then -1 else d)))"

section \<open>The graph the input describes\<close>

text \<open>
  The specification's graph: vertices \<open>0 .. n-1\<close>, every input edge an undirected arc of
  its weight in both directions, parallel edges kept.
\<close>

definition input_adj :: "(int32 \<times> int32 \<times> 32 word) list \<Rightarrow> adjacency" where
  "input_adj inp v =
     Some (concat (map (\<lambda>(s, d, w).
        (if nat (sint s - 1) = v then [(nat (sint d - 1), uint w)] else []) @
        (if nat (sint d - 1) = v then [(nat (sint s - 1), uint w)] else [])) inp))"

text \<open>An edge read as an arc of the search: source, target, weight.\<close>

definition edge_arc :: "Edge \<Rightarrow> nat \<times> nat \<times> int" where
  "edge_arc e = (nat (sint (edge_src e)), nat (sint (arc_vertex (edge_dst e))), uint (arc_weight (edge_dst e)))"

definition valid_input :: "int32 \<Rightarrow> int32 \<Rightarrow> int32 \<Rightarrow> (int32 \<times> int32 \<times> 32 word) list \<Rightarrow> bool" where
  "valid_input n a b inp \<longleftrightarrow>
     0 < sint n \<and> sint n \<le> 2 ^ 30 \<and> 2 * length inp < 2 ^ 31 \<and>
     1 \<le> sint a \<and> sint a \<le> sint n \<and> 1 \<le> sint b \<and> sint b \<le> sint n \<and>
     (\<forall>(s, d, w) \<in> set inp. 1 \<le> sint s \<and> sint s \<le> sint n \<and> 1 \<le> sint d \<and> sint d \<le> sint n \<and> w \<le> 1)"

section \<open>Bit-fields\<close>

lemma sint_ucast_31:
  fixes v :: int32
  assumes "0 \<le> sint v" and "sint v < 2 ^ 30"
  shows "sint (ucast v :: 31 word) = sint v"
proof -
  have "sint (ucast v :: 31 word) = signed_take_bit 30 (uint v)" by (simp add: signed_ucast_eq)
  also have "uint v = sint v" using sint_nonneg_uint[OF assms(1)] by simp
  also have "signed_take_bit 30 (sint v) = sint v"
    using assms by (simp add: signed_take_bit_int_eq_self_iff)
  finally show ?thesis .
qed

lemma uint_ucast_1:
  fixes w :: "32 word"
  assumes "w \<le> 1"
  shows "uint (ucast w :: 1 word) = uint w"
proof -
  have "uint w \<le> 1" using assms by (simp add: word_le_def)
  moreover have "uint (ucast w :: 1 word) = take_bit 1 (uint w)" by (simp add: unsigned_ucast_eq)
  ultimately show ?thesis using uint_nonnegative[of w] by (simp add: take_bit_int_eq_self)
qed

lemma sint_sub_nonneg:
  fixes a b :: int32
  assumes "0 \<le> sint a" and "0 \<le> sint b"
  shows "sint (a - b) = sint a - sint b"
proof -
  have "sint a < 2 ^ 31" "sint b < 2 ^ 31" using sint_lt[of a] sint_lt[of b] by simp_all
  with assms have "- (2 ^ 31) \<le> sint a - sint b" "sint a - sint b < 2 ^ 31" by simp_all
  then show ?thesis by (simp add: sint_word_ariths signed_take_bit_int_eq_self)
qed

lemma make_arc_decode:
  assumes "0 \<le> sint v" and "sint v < 2 ^ 30" and "w \<le> 1"
  shows "arc_of (make_arc w v) = Some (nat (sint v), uint w)"
  using assms by (simp add: arc_of_def make_arc_def sint_ucast_31 uint_ucast_1)

text \<open>Vertices of \<open>2 ^ 30\<close> and more do not fit the 31-bit signed field: they are stored
  with the sign bit set and read back negative.\<close>

lemma take_bit_31_shift:
  fixes k :: int
  assumes "2 ^ 30 \<le> k" and "k < 2 ^ 31"
  shows "take_bit 31 (k + 2 ^ 30) = k + 2 ^ 30 - 2 ^ 31"
proof -
  have "0 \<le> k + 2 ^ 30 - 2 ^ 31" "k + 2 ^ 30 - 2 ^ 31 < 2 ^ 31" using assms by simp_all
  then have m: "(k + 2 ^ 30 - 2 ^ 31) mod 2 ^ 31 = k + 2 ^ 30 - 2 ^ 31" by (rule mod_pos_pos_trivial)
  have e: "k + 2 ^ 30 = (k + 2 ^ 30 - 2 ^ 31) + (2 :: int) ^ 31" by (simp only: diff_add_cancel)
  have "(k + 2 ^ 30) mod 2 ^ 31 = (k + 2 ^ 30 - 2 ^ 31) mod 2 ^ 31"
    by (subst e) (rule mod_add_self2)
  then show ?thesis using m by (simp only: take_bit_eq_mod)
qed


lemma sint_ucast_31_wraps:
  fixes v :: int32
  assumes "2 ^ 30 \<le> sint v"
  shows "sint (ucast v :: 31 word) = sint v - 2 ^ 31"
proof -
  have nn: "0 \<le> sint v" using assms by simp
  have u: "uint v = sint v" using sint_nonneg_uint[OF nn] by simp
  have lt: "sint v < 2 ^ 31" using sint_lt[of v] by simp
  have "sint (ucast v :: 31 word) = signed_take_bit 30 (uint v)" by (simp add: signed_ucast_eq)
  also have "\<dots> = take_bit 31 (sint v + 2 ^ 30) - 2 ^ 30"
    by (simp add: u signed_take_bit_eq_take_bit_shift)
  also have "take_bit 31 (sint v + 2 ^ 30) = sint v + 2 ^ 30 - 2 ^ 31"
    using assms lt by (rule take_bit_31_shift)
  finally show ?thesis by simp
qed

lemma make_arc_vertex_wraps:
  assumes "2 ^ 30 \<le> sint v"
  shows "sint (arc_vertex (make_arc w v)) = sint v - 2 ^ 31 \<and> arc_of (make_arc w v) = None"
proof -
  have a: "arc_vertex (make_arc w v) = ucast v" by (simp add: make_arc_def)
  have s: "sint (arc_vertex (make_arc w v)) = sint v - 2 ^ 31"
    unfolding a using assms by (rule sint_ucast_31_wraps)
  moreover have "sint v < 2 ^ 31" using sint_lt[of v] by simp
  ultimately have "sint (arc_vertex (make_arc w v)) < 0" by simp
  then show ?thesis using s by (simp add: arc_of_def)
qed

section \<open>The comparator and the sort\<close>

lemma less_edge_key:
  assumes "0 \<le> sint (edge_src l)" and "0 \<le> sint (edge_src r)"
  shows "less_edge l r \<longleftrightarrow> edge_key l < edge_key r"
  using assms by (auto simp: less_edge_def edge_key_def Let_def sint_sub_nonneg less_prod_def)

lemma edge_key_inj: "inj edge_key"
proof (rule injI)
  fix x y assume "edge_key x = edge_key y"
  then have "edge_src x = edge_src y" "arc_vertex (edge_dst x) = arc_vertex (edge_dst y)"
    "arc_weight (edge_dst x) = arc_weight (edge_dst y)"
    by (auto simp: edge_key_def dest: signed_word_eqI unsigned_word_eqI)
  then show "x = y" by (auto intro: Edge.equality Arc.equality)
qed

text \<open>Any permutation that \<^verbatim>\<open>std::sort\<close> may return (sorted: no element \<^verbatim>\<open>less\<close> than
  its predecessor) is the model's \<open>sort_key edge_key\<close>.\<close>

lemma std_sort_unique:
  assumes "mset ys = mset xs" and "\<forall>e \<in> set xs. 0 \<le> sint (edge_src e)"
    and "sorted_wrt (\<lambda>a b. \<not> less_edge b a) ys"
  shows "sort_key edge_key xs = ys"
proof -
  have pos: "\<forall>e \<in> set ys. 0 \<le> sint (edge_src e)"
    using assms(1,2) by (metis set_mset_mset)
  have "sorted_wrt (\<lambda>a b. edge_key a \<le> edge_key b) ys"
  proof (rule sorted_wrt_mono_rel[OF _ assms(3)])
    fix a b assume "a \<in> set ys" "b \<in> set ys" "\<not> less_edge b a"
    then show "edge_key a \<le> edge_key b" using pos less_edge_key[of b a] by (auto simp: not_less)
  qed
  then have "sorted (map edge_key ys)" by (simp add: sorted_map)
  then show ?thesis
    using assms(1) edge_key_inj by (intro sort_key_inj_key_eq) (auto intro: inj_on_subset)
qed

section \<open>Deduplication\<close>

lemma std_unique_subset: "set (std_unique eq xs) \<subseteq> set xs"
  by (induction eq xs rule: std_unique.induct) auto

lemma std_unique_Cons: "\<exists>ys. std_unique eq (x # xs) = x # ys"
  by (induction eq "x # xs" arbitrary: x xs rule: std_unique.induct) auto

text \<open>On a sorted list, every element is represented by a kept element equivalent to it and
  no larger in the sort key: the first of its run.\<close>

lemma std_unique_covers:
  "(\<And>x. eq x x) \<Longrightarrow> sorted (map key xs) \<Longrightarrow> y \<in> set xs \<Longrightarrow>
     \<exists>x \<in> set (std_unique eq xs). eq x y \<and> key x \<le> key y"
proof (induction eq xs arbitrary: y rule: std_unique.induct)
  case (1 eq)
  then show ?case by simp
next
  case (2 eq x)
  then show ?case by auto
next
  case (3 eq x z xs)
  show ?case
  proof (cases "eq x z")
    case True
    have s: "sorted (map key (x # xs))" using "3.prems"(2) by auto
    obtain ys where h: "std_unique eq (x # xs) = x # ys" using std_unique_Cons[of eq x xs] by blast
    show ?thesis
    proof (cases "y = z")
      case True
      then have "eq x y \<and> key x \<le> key y" using \<open>eq x z\<close> "3.prems"(2) by auto
      then show ?thesis using h \<open>eq x z\<close> by auto
    next
      case False
      then have "y \<in> set (x # xs)" using "3.prems"(3) by auto
      then obtain x' where "x' \<in> set (std_unique eq (x # xs))" "eq x' y \<and> key x' \<le> key y"
        using "3.IH"(1)[OF True "3.prems"(1) s] by blast
      moreover have "std_unique eq (x # z # xs) = std_unique eq (x # xs)" using True by simp
      ultimately show ?thesis by metis
    qed
  next
    case False
    have s: "sorted (map key (z # xs))" using "3.prems"(2) by auto
    show ?thesis
    proof (cases "y = x")
      case True
      moreover have "std_unique eq (x # z # xs) = x # std_unique eq (z # xs)" using False by simp
      ultimately show ?thesis using "3.prems"(1) by (metis list.set_intros(1) order_refl)
    next
      case False
      then have "y \<in> set (z # xs)" using "3.prems"(3) by auto
      then obtain x' where "x' \<in> set (std_unique eq (z # xs))" "eq x' y \<and> key x' \<le> key y"
        using "3.IH"(2)[OF \<open>\<not> eq x z\<close> "3.prems"(1) s] by blast
      moreover have "std_unique eq (x # z # xs) = x # std_unique eq (z # xs)" using \<open>\<not> eq x z\<close> by simp
      ultimately show ?thesis by (metis list.set_intros(2))
    qed
  qed
qed

text \<open>If the equivalence is equality of a coarser key \<open>pk\<close> that the sort key refines, the
  kept elements are strictly increasing in \<open>pk\<close>: one per class.\<close>

lemma std_unique_strict:
  fixes pk :: "'a \<Rightarrow> 'b::linorder"
  assumes mono: "\<And>x y. key x \<le> key y \<Longrightarrow> pk x \<le> pk y"
  shows "(\<And>x y. eq x y \<longleftrightarrow> pk x = pk y) \<Longrightarrow> sorted (map key xs) \<Longrightarrow>
           sorted_wrt (\<lambda>a b. pk a < pk b) (std_unique eq xs)"
proof (induction eq xs rule: std_unique.induct)
  case (1 eq)
  then show ?case by simp
next
  case (2 eq x)
  then show ?case by simp
next
  case (3 eq x z xs)
  show ?case
  proof (cases "eq x z")
    case True
    have "sorted (map key (x # xs))" using "3.prems"(2) by auto
    then have "sorted_wrt (\<lambda>a b. pk a < pk b) (std_unique eq (x # xs))"
      using "3.IH"(1)[OF True "3.prems"(1)] by blast
    moreover have "std_unique eq (x # z # xs) = std_unique eq (x # xs)" using True by simp
    ultimately show ?thesis by simp
  next
    case False
    have s: "sorted (map key (z # xs))" using "3.prems"(2) by auto
    have "pk x < pk r" if "r \<in> set (std_unique eq (z # xs))" for r
    proof -
      have "r \<in> set (z # xs)" using that std_unique_subset[of eq "z # xs"] by blast
      then have "key z \<le> key r" using s by auto
      then have "pk z \<le> pk r" by (rule mono)
      moreover have "key x \<le> key z" using "3.prems"(2) by simp
      then have "pk x \<le> pk z" by (rule mono)
      moreover have "pk x \<noteq> pk z" using False "3.prems"(1)[of x z] by blast
      ultimately show ?thesis by simp
    qed
    moreover have "sorted_wrt (\<lambda>a b. pk a < pk b) (std_unique eq (z # xs))"
      using "3.IH"(2)[OF False "3.prems"(1) s] .
    moreover have "std_unique eq (x # z # xs) = x # std_unique eq (z # xs)" using False by simp
    ultimately show ?thesis by simp
  qed
qed

section \<open>Reading valid input\<close>

lemma sint_minus_one:
  fixes s :: int32
  assumes "1 \<le> sint s"
  shows "sint (s - 1) = sint s - 1"
  using sint_sub_nonneg[of s 1] assms by simp

lemma edge_arc_half:
  assumes "1 \<le> sint s" and "1 \<le> sint d" and "sint d \<le> 2 ^ 30" and "w \<le> 1"
  shows "edge_arc \<lparr>edge_src = s - 1, edge_dst = make_arc w (d - 1)\<rparr> = (nat (sint s - 1), nat (sint d - 1), uint w)"
    and "sint (edge_src \<lparr>edge_src = s - 1, edge_dst = make_arc w (d - 1)\<rparr>) = sint s - 1"
    and "sint (arc_vertex (edge_dst \<lparr>edge_src = s - 1, edge_dst = make_arc w (d - 1)\<rparr>)) = sint d - 1"
    and "arc_of (edge_dst \<lparr>edge_src = s - 1, edge_dst = make_arc w (d - 1)\<rparr>) = Some (nat (sint d - 1), uint w)"
proof -
  have v: "sint (arc_vertex (make_arc w (d - 1))) = sint d - 1"
    using assms by (simp add: make_arc_def sint_minus_one sint_ucast_31)
  have wt: "uint (arc_weight (make_arc w (d - 1))) = uint w"
    using assms(4) by (simp add: make_arc_def uint_ucast_1)
  show "edge_arc \<lparr>edge_src = s - 1, edge_dst = make_arc w (d - 1)\<rparr> = (nat (sint s - 1), nat (sint d - 1), uint w)"
    using v wt assms(1) by (simp add: edge_arc_def sint_minus_one)
  show "sint (edge_src \<lparr>edge_src = s - 1, edge_dst = make_arc w (d - 1)\<rparr>) = sint s - 1"
    using assms(1) by (simp add: sint_minus_one)
  show "sint (arc_vertex (edge_dst \<lparr>edge_src = s - 1, edge_dst = make_arc w (d - 1)\<rparr>)) = sint d - 1"
    using v by simp
  show "arc_of (edge_dst \<lparr>edge_src = s - 1, edge_dst = make_arc w (d - 1)\<rparr>) = Some (nat (sint d - 1), uint w)"
    using v wt assms(2) by (simp add: arc_of_def)
qed

lemma read_edges_iff:
  "e \<in> set (read_edges inp) \<longleftrightarrow>
     (\<exists>(s, d, w) \<in> set inp. e = \<lparr>edge_src = s - 1, edge_dst = make_arc w (d - 1)\<rparr> \<or>
                             e = \<lparr>edge_src = d - 1, edge_dst = make_arc w (s - 1)\<rparr>)"
  by (auto simp: read_edges_def)

lemma valid_input_triple:
  assumes "valid_input n a b inp" and "(s, d, w) \<in> set inp"
  shows "1 \<le> sint s \<and> sint s \<le> sint n \<and> 1 \<le> sint d \<and> sint d \<le> sint n \<and> sint n \<le> 2 ^ 30 \<and> w \<le> 1"
  using assms unfolding valid_input_def by fastforce

text \<open>Every edge read from valid input: a source and a target vertex below \<open>n\<close>, and the
  arc the search reads is the edge's arc.\<close>

lemma read_edges_valid:
  assumes v: "valid_input n a b inp" and e: "e \<in> set (read_edges inp)"
  shows "0 \<le> sint (edge_src e) \<and> sint (edge_src e) < sint n \<and>
         0 \<le> sint (arc_vertex (edge_dst e)) \<and> sint (arc_vertex (edge_dst e)) < sint n \<and>
         uint (arc_weight (edge_dst e)) \<le> 1 \<and>
         arc_of (edge_dst e) = Some (snd (edge_arc e))"
proof -
  obtain s d w where t: "(s, d, w) \<in> set inp" and
    "e = \<lparr>edge_src = s - 1, edge_dst = make_arc w (d - 1)\<rparr> \<or> e = \<lparr>edge_src = d - 1, edge_dst = make_arc w (s - 1)\<rparr>"
    using e read_edges_iff[of e inp] by blast
  moreover have b: "1 \<le> sint s \<and> sint s \<le> sint n \<and> 1 \<le> sint d \<and> sint d \<le> sint n \<and> sint n \<le> 2 ^ 30 \<and> w \<le> 1"
    using valid_input_triple[OF v t] .
  moreover have "uint w \<le> 1" using b by (simp add: word_le_def)
  ultimately show ?thesis
    using edge_arc_half[of s d w] edge_arc_half[of d s w] by (auto simp: edge_arc_def)
qed

lemma input_arc_iff:
  assumes v: "valid_input n a b inp"
  shows "arc (input_adj inp) x u w \<longleftrightarrow> (\<exists>e \<in> set (read_edges inp). edge_arc e = (x, u, w))"
proof -
  have "arc (input_adj inp) x u w \<longleftrightarrow>
          (\<exists>(s, d, w') \<in> set inp. (nat (sint s - 1), nat (sint d - 1), uint w') = (x, u, w) \<or>
                                 (nat (sint d - 1), nat (sint s - 1), uint w') = (x, u, w))"
    by (auto simp: arc_def input_adj_def split: if_splits)
  also have "\<dots> \<longleftrightarrow> (\<exists>e \<in> set (read_edges inp). edge_arc e = (x, u, w))"
  proof
    assume "\<exists>(s, d, w') \<in> set inp. (nat (sint s - 1), nat (sint d - 1), uint w') = (x, u, w) \<or>
                                 (nat (sint d - 1), nat (sint s - 1), uint w') = (x, u, w)"
    then obtain s d w' where t: "(s, d, w') \<in> set inp" and
      c: "(nat (sint s - 1), nat (sint d - 1), uint w') = (x, u, w) \<or>
          (nat (sint d - 1), nat (sint s - 1), uint w') = (x, u, w)" by blast
    have b: "1 \<le> sint s \<and> sint s \<le> sint n \<and> 1 \<le> sint d \<and> sint d \<le> sint n \<and> sint n \<le> 2 ^ 30 \<and> w' \<le> 1"
      using valid_input_triple[OF v t] .
    have "\<lparr>edge_src = s - 1, edge_dst = make_arc w' (d - 1)\<rparr> \<in> set (read_edges inp)"
         "\<lparr>edge_src = d - 1, edge_dst = make_arc w' (s - 1)\<rparr> \<in> set (read_edges inp)"
      using t by (auto simp: read_edges_iff)
    then show "\<exists>e \<in> set (read_edges inp). edge_arc e = (x, u, w)"
      using c b edge_arc_half(1)[of s d w'] edge_arc_half(1)[of d s w'] by force
  next
    assume "\<exists>e \<in> set (read_edges inp). edge_arc e = (x, u, w)"
    then obtain e where e: "e \<in> set (read_edges inp)" and a: "edge_arc e = (x, u, w)" by blast
    obtain s d w' where t: "(s, d, w') \<in> set inp" and
      "e = \<lparr>edge_src = s - 1, edge_dst = make_arc w' (d - 1)\<rparr> \<or> e = \<lparr>edge_src = d - 1, edge_dst = make_arc w' (s - 1)\<rparr>"
      using e read_edges_iff[of e inp] by blast
    moreover have "1 \<le> sint s \<and> sint s \<le> sint n \<and> 1 \<le> sint d \<and> sint d \<le> sint n \<and> sint n \<le> 2 ^ 30 \<and> w' \<le> 1"
      using valid_input_triple[OF v t] .
    ultimately show "\<exists>(s, d, w') \<in> set inp. (nat (sint s - 1), nat (sint d - 1), uint w') = (x, u, w) \<or>
                                 (nat (sint d - 1), nat (sint s - 1), uint w') = (x, u, w)"
      using a t edge_arc_half(1)[of s d w'] edge_arc_half(1)[of d s w'] by force
  qed
  finally show ?thesis .
qed

section \<open>The kept edges\<close>

lemma std_unique_length: "length (std_unique eq xs) \<le> length xs"
  by (induction eq xs rule: std_unique.induct) auto

lemma length_read_edges: "length (read_edges inp) = 2 * length inp"
  by (induction inp) (auto simp: read_edges_def)

lemma edge_key_pk_mono:
  "edge_key x \<le> edge_key y \<Longrightarrow>
     (sint (edge_src x), sint (arc_vertex (edge_dst x))) \<le> (sint (edge_src y), sint (arc_vertex (edge_dst y)))"
  by (auto simp: edge_key_def less_eq_prod_def)

lemma equal_edge_pk:
  "equal_edge x y \<longleftrightarrow>
     (sint (edge_src x), sint (arc_vertex (edge_dst x))) = (sint (edge_src y), sint (arc_vertex (edge_dst y)))"
  by (auto simp: equal_edge_def dest: signed_word_eqI)

text \<open>The edges \<^verbatim>\<open>read_graph\<close> keeps, from any input.\<close>

lemma kept_subset:
  "set (std_unique equal_edge (sort_key edge_key es)) \<subseteq> set es"
  using std_unique_subset[of equal_edge "sort_key edge_key es"] by simp

lemma kept_sorted:
  "sorted (map (\<lambda>e. sint (edge_src e)) (std_unique equal_edge (sort_key edge_key es)))"
proof -
  have "sorted_wrt (\<lambda>a b. (sint (edge_src a), sint (arc_vertex (edge_dst a))) <
                          (sint (edge_src b), sint (arc_vertex (edge_dst b))))
          (std_unique equal_edge (sort_key edge_key es))"
    by (rule std_unique_strict[where key = edge_key, OF edge_key_pk_mono equal_edge_pk sorted_sort_key])
  then show ?thesis
    unfolding sorted_map by (rule sorted_wrt_mono_rel[rotated]) (auto simp: less_prod_def)
qed

lemma kept_covers:
  assumes "y \<in> set es"
  shows "\<exists>x \<in> set (std_unique equal_edge (sort_key edge_key es)).
           fst (edge_arc x) = fst (edge_arc y) \<and> fst (snd (edge_arc x)) = fst (snd (edge_arc y)) \<and>
           snd (snd (edge_arc x)) \<le> snd (snd (edge_arc y))"
proof -
  have "y \<in> set (sort_key edge_key es)" using assms by simp
  then obtain x where x: "x \<in> set (std_unique equal_edge (sort_key edge_key es))"
    and eq: "equal_edge x y" and le: "edge_key x \<le> edge_key y"
    using std_unique_covers[of equal_edge edge_key "sort_key edge_key es" y]
    by (auto simp: equal_edge_def)
  have "fst (edge_arc x) = fst (edge_arc y) \<and> fst (snd (edge_arc x)) = fst (snd (edge_arc y)) \<and>
        snd (snd (edge_arc x)) \<le> snd (snd (edge_arc y))"
    using eq le by (auto simp: equal_edge_def edge_arc_def edge_key_def less_eq_prod_def)
  then show ?thesis using x by blast
qed

section \<open>The stored graph\<close>

lemma graph_adj_beyond: "rows g \<le> v \<Longrightarrow> graph_adj g v = None"
  by (simp add: graph_adj_def comb_row_def comb_length_def get_start_def rows_def)

lemma kept_valid:
  assumes "valid_input n a b inp" and "e \<in> set (std_unique equal_edge (sort_key edge_key (read_edges inp)))"
  shows "0 \<le> sint (edge_src e) \<and> sint (edge_src e) < sint n \<and>
         0 \<le> sint (arc_vertex (edge_dst e)) \<and> sint (arc_vertex (edge_dst e)) < sint n \<and>
         uint (arc_weight (edge_dst e)) \<le> 1 \<and>
         arc_of (edge_dst e) = Some (snd (edge_arc e))"
  using read_edges_valid[OF assms(1)] kept_subset assms(2) by blast

text \<open>\<^verbatim>\<open>read_graph\<close> on valid input: \<open>n\<close> rows, row \<open>v\<close> holding the arcs of the kept edges
  leaving \<open>v\<close>, in their sorted order.\<close>

lemma read_graph_rows:
  assumes v: "valid_input n a b inp"
  defines "E \<equiv> std_unique equal_edge (sort_key edge_key (read_edges inp))"
  shows "\<exists>g. read_graph n inp = Some g \<and> rows g = nat (sint n) \<and>
           (\<forall>x < nat (sint n). graph_adj g x = Some (map (\<lambda>e. snd (edge_arc e)) (filter (\<lambda>e. fst (edge_arc e) = x) E)))"
proof -
  let ?raw = "map (\<lambda>e. (edge_src e, edge_dst e)) E"
  have kv: "\<And>e. e \<in> set E \<Longrightarrow> 0 \<le> sint (edge_src e) \<and> sint (edge_src e) < sint n \<and>
         0 \<le> sint (arc_vertex (edge_dst e)) \<and> sint (arc_vertex (edge_dst e)) < sint n \<and>
         uint (arc_weight (edge_dst e)) \<le> 1 \<and> arc_of (edge_dst e) = Some (snd (edge_arc e))"
    using kept_valid[OF v] unfolding E_def by blast
  have n0: "0 < sint n" using v by (simp add: valid_input_def)
  have un: "unat n = nat (sint n)" using n0 by (simp add: unat_sint_nonneg)
  have ue: "\<And>e. e \<in> set E \<Longrightarrow> unat (edge_src e) = fst (edge_arc e)"
    using kv by (simp add: unat_sint_nonneg edge_arc_def)
  have "map (unat \<circ> fst) ?raw = map (\<lambda>e. nat (sint (edge_src e))) E"
    unfolding map_map by (rule map_cong[OF refl]) (use ue in \<open>simp add: edge_arc_def\<close>)
  moreover have "sorted (map (\<lambda>e. nat (sint (edge_src e))) E)"
  proof -
    have "sorted (map (\<lambda>e. sint (edge_src e)) E)" unfolding E_def by (rule kept_sorted)
    then show ?thesis unfolding sorted_map by (rule sorted_wrt_mono_rel[rotated]) (simp add: nat_mono)
  qed
  ultimately have s: "sorted (map (unat \<circ> fst) ?raw)" by (simp only:)
  have b: "\<forall>(s, d) \<in> set ?raw. unat s < unat n"
    using kv un n0 by (auto simp: unat_sint_nonneg)
  have "length ?raw \<le> 2 * length inp"
    using std_unique_length[of equal_edge "sort_key edge_key (read_edges inp)"]
    by (simp add: E_def length_read_edges)
  then have l: "length ?raw < 2 ^ (LENGTH(32) - 1)" using v by (simp add: valid_input_def)
  obtain g where g: "compactify_to ?raw n (comb_init :: (int32, Arc) comb) = Some g"
    and r: "rows g = unat n" and rd: "\<forall>x < unat n. comb_row scast g x = Some (row_of ?raw x)"
    using compactify_read_signed[OF s b l] by auto
  have adj: "graph_adj g x = Some (map (\<lambda>e. snd (edge_arc e)) (filter (\<lambda>e. fst (edge_arc e) = x) E))"
    if x: "x < nat (sint n)" for x
  proof -
    have "row_of ?raw x = map edge_dst (filter (\<lambda>e. fst (edge_arc e) = x) E)"
      using ue by (simp add: row_of_def filter_map comp_def cong: filter_cong)
    moreover have "those (map arc_of (map edge_dst (filter (\<lambda>e. fst (edge_arc e) = x) E))) =
                   Some (map (\<lambda>e. snd (edge_arc e)) (filter (\<lambda>e. fst (edge_arc e) = x) E))"
      unfolding map_map by (rule those_map_all_Some) (use kv in simp)
    ultimately show ?thesis using rd x un by (simp add: graph_adj_def)
  qed
  have rg: "read_graph n inp = Some g" using g by (simp add: read_graph_def compactify_graph_def E_def)
  show ?thesis using rg r un adj by auto
qed

lemma read_graph_graph:
  assumes v: "valid_input n a b inp"
  shows "\<exists>g. read_graph n inp = Some g \<and> rows g = nat (sint n) \<and>
           graph_ok (graph_adj g) (rows g) \<and> weights_01 (graph_adj g) (rows g) \<and>
           (\<forall>x u w. arc (graph_adj g) x u w \<longrightarrow> arc (input_adj inp) x u w) \<and>
           (\<forall>x u w. arc (input_adj inp) x u w \<longrightarrow> (\<exists>w' \<le> w. arc (graph_adj g) x u w'))"
proof -
  define E where "E = std_unique equal_edge (sort_key edge_key (read_edges inp))"
  obtain g where rg: "read_graph n inp = Some g" and r: "rows g = nat (sint n)"
    and adj: "\<And>x. x < nat (sint n) \<Longrightarrow>
        graph_adj g x = Some (map (\<lambda>e. snd (edge_arc e)) (filter (\<lambda>e. fst (edge_arc e) = x) E))"
    using read_graph_rows[OF v] unfolding E_def by blast
  have kv: "\<And>e. e \<in> set E \<Longrightarrow> 0 \<le> sint (edge_src e) \<and> sint (edge_src e) < sint n \<and>
         0 \<le> sint (arc_vertex (edge_dst e)) \<and> sint (arc_vertex (edge_dst e)) < sint n \<and>
         uint (arc_weight (edge_dst e)) \<le> 1 \<and> arc_of (edge_dst e) = Some (snd (edge_arc e))"
    using kept_valid[OF v] unfolding E_def by blast
  have n0: "0 < sint n" using v by (simp add: valid_input_def)
  have ea: "\<And>e. e \<in> set E \<Longrightarrow> fst (edge_arc e) < nat (sint n) \<and> fst (snd (edge_arc e)) < nat (sint n) \<and>
              0 \<le> snd (snd (edge_arc e)) \<and> snd (snd (edge_arc e)) \<le> 1"
    using kv n0 by (auto simp: edge_arc_def)
  have arc_iff: "arc (graph_adj g) x u w \<longleftrightarrow> (\<exists>e \<in> set E. edge_arc e = (x, u, w))" for x u w
  proof (cases "x < nat (sint n)")
    case True
    then show ?thesis by (force simp: arc_def adj)
  next
    case False
    then have "graph_adj g x = None" using r by (simp add: graph_adj_beyond)
    moreover have "\<not> (\<exists>e \<in> set E. edge_arc e = (x, u, w))" using False ea by fastforce
    ultimately show ?thesis by (simp add: arc_def)
  qed
  have ok: "graph_ok (graph_adj g) (rows g)"
    unfolding graph_ok_def r using ea by (auto simp: adj split_beta)
  have w01: "weights_01 (graph_adj g) (rows g)"
    unfolding weights_01_def arc_iff using ea by fastforce
  have sub: "arc (input_adj inp) x u w" if "arc (graph_adj g) x u w" for x u w
    using that kept_subset[of "read_edges inp"] unfolding arc_iff input_arc_iff[OF v] E_def by blast
  have dom: "\<exists>w' \<le> w. arc (graph_adj g) x u w'" if ia: "arc (input_adj inp) x u w" for x u w
  proof -
    obtain y where y: "y \<in> set (read_edges inp)" "edge_arc y = (x, u, w)"
      using ia unfolding input_arc_iff[OF v] by blast
    obtain e where "e \<in> set E" "fst (edge_arc e) = x" "fst (snd (edge_arc e)) = u"
      "snd (snd (edge_arc e)) \<le> w"
      using kept_covers[OF y(1)] y(2) unfolding E_def by auto
    then show ?thesis unfolding arc_iff by (metis prod.collapse)
  qed
  show ?thesis using rg r ok w01 sub dom by blast
qed

text \<open>\<^verbatim>\<open>1/better.C\<close> end to end.\<close>

lemma main_better_spec:
  assumes v: "valid_input n a b inp"
  shows "\<exists>r. main_better n a b inp = Some r \<and>
           ((\<exists>d. walk (input_adj inp) (nat (sint a - 1)) (nat (sint b - 1)) d) \<longrightarrow>
              walk (input_adj inp) (nat (sint a - 1)) (nat (sint b - 1)) r \<and>
              (\<forall>d. walk (input_adj inp) (nat (sint a - 1)) (nat (sint b - 1)) d \<longrightarrow> r \<le> d)) \<and>
           (\<not> (\<exists>d. walk (input_adj inp) (nat (sint a - 1)) (nat (sint b - 1)) d) \<longrightarrow> r = -1)"
proof -
  let ?s = "nat (sint a - 1)" and ?t = "nat (sint b - 1)"
  obtain g where rg: "read_graph n inp = Some g" and r: "rows g = nat (sint n)"
    and ok: "graph_ok (graph_adj g) (rows g)" and w01: "weights_01 (graph_adj g) (rows g)"
    and sub: "\<And>x u w. arc (graph_adj g) x u w \<Longrightarrow> arc (input_adj inp) x u w"
    and dom: "\<And>x u w. arc (input_adj inp) x u w \<Longrightarrow> \<exists>w' \<le> w. arc (graph_adj g) x u w'"
    using read_graph_graph[OF v] by blast
  have b: "1 \<le> sint a" "sint a \<le> sint n" "1 \<le> sint b" "sint b \<le> sint n" "0 < sint n"
    using v by (simp_all add: valid_input_def)
  have st: "?s < rows g" "?t < rows g" using b r by simp_all
  have sn: "int (rows g) = sint n" using r b by simp
  obtain d where bd: "bfs_min_distance (graph_adj g) (rows g) (int (rows g)) ?s ?t = Some d"
    and reach: "(\<exists>w. walk (graph_adj g) ?s ?t w) \<longrightarrow>
                walk (graph_adj g) ?s ?t d \<and> (\<forall>w. walk (graph_adj g) ?s ?t w \<longrightarrow> d \<le> w) \<and> d < int (rows g)"
    and unreach: "\<not> (\<exists>w. walk (graph_adj g) ?s ?t w) \<longrightarrow> d = int (rows g)"
    using bfs_min_distance_exact[OF ok w01 st order_refl] by blast
  have md: "min_distance g (a - 1) (b - 1) = Some d"
    using bd b by (simp add: min_distance_def sint_minus_one)
  have main: "main_better n a b inp = Some (if d = sint n then -1 else d)"
    using rg md by (simp add: main_better_def)
  have eqv: "(\<exists>w. walk (graph_adj g) ?s ?t w) \<longleftrightarrow> (\<exists>w. walk (input_adj inp) ?s ?t w)"
    using walk_mono[of "graph_adj g" "input_adj inp", OF sub]
          walk_dominated[of "input_adj inp" "graph_adj g", OF dom] by blast
  show ?thesis
  proof (cases "\<exists>w. walk (input_adj inp) ?s ?t w")
    case True
    then have gw: "walk (graph_adj g) ?s ?t d" and low: "\<forall>w. walk (graph_adj g) ?s ?t w \<longrightarrow> d \<le> w"
      and lt: "d < sint n"
      using reach eqv sn by auto
    have "walk (input_adj inp) ?s ?t d"
      using walk_mono[of "graph_adj g" "input_adj inp", OF sub] gw by blast
    moreover have "d \<le> w" if "walk (input_adj inp) ?s ?t w" for w
      using walk_dominated[of "input_adj inp" "graph_adj g", OF dom that] low by force
    ultimately show ?thesis using main lt True by auto
  next
    case False
    then have "d = sint n" using unreach eqv sn by auto
    then show ?thesis using main False by auto
  qed
qed

section \<open>Properties of the program\<close>

text \<open>
  C1. End-to-end correctness of \<^verbatim>\<open>1/better.C\<close>: on input within its limits (at most
  \<open>2 ^ 30\<close> vertices, fewer than \<open>2 ^ 30\<close> edges, endpoints in \<open>1 .. n\<close>, weights 0 or 1)
  the program runs without an out-of-range access or failed assertion and prints the least
  weight of a walk from \<open>a\<close> to \<open>b\<close> in the undirected multigraph of the input, or \<open>-1\<close>
  when there is none.
\<close>

theorem main_better_correct:
  assumes "valid_input n a b inp"
  shows "\<exists>r. main_better n a b inp = Some r \<and>
           ((\<exists>d. walk (input_adj inp) (nat (sint a - 1)) (nat (sint b - 1)) d) \<longrightarrow>
              walk (input_adj inp) (nat (sint a - 1)) (nat (sint b - 1)) r \<and>
              (\<forall>d. walk (input_adj inp) (nat (sint a - 1)) (nat (sint b - 1)) d \<longrightarrow> r \<le> d)) \<and>
           (\<not> (\<exists>d. walk (input_adj inp) (nat (sint a - 1)) (nat (sint b - 1)) d) \<longrightarrow> r = -1)"
  using main_better_spec[OF assms] .

text \<open>
  C22. Round trip of the bit-packed \<^verbatim>\<open>Arc\<close>: a vertex in \<open>0 .. 2 ^ 30 - 1\<close> and a weight
  of 0 or 1 stored by \<^verbatim>\<open>{weight, dst}\<close> read back unchanged through the bit-fields.
\<close>

theorem make_arc_roundtrip:
  assumes "0 \<le> sint v" and "sint v < 2 ^ 30" and "w \<le> 1"
  shows "arc_of (make_arc w v) = Some (nat (sint v), uint w)"
  using make_arc_decode[OF assms] .

text \<open>
  C23. The 31-bit \<^verbatim>\<open>int vertex\<close> field holds vertices below \<open>2 ^ 30\<close> only: a vertex of
  \<open>2 ^ 30\<close> or more (an \<open>n\<close> above \<open>2 ^ 30\<close>, which the \<^verbatim>\<open>int32_t\<close> input admits) is
  read back as the vertex minus \<open>2 ^ 31\<close>, a negative index into \<^verbatim>\<open>dist\<close>.
\<close>

theorem arc_vertex_31_wraps:
  assumes "2 ^ 30 \<le> sint v"
  shows "sint (arc_vertex (make_arc w v)) = sint v - 2 ^ 31 \<and> arc_of (make_arc w v) = None"
  using make_arc_vertex_wraps[OF assms] .

section \<open>Witnesses\<close>

theorem main_better_correct_witness:
  "valid_input 4 1 4 [(1, 2, 0), (2, 3, 1), (3, 4, 0), (1, 4, 1)] \<and>
   (\<exists>r. main_better 4 1 4 [(1, 2, 0), (2, 3, 1), (3, 4, 0), (1, 4, 1)] = Some r \<and>
      ((\<exists>d. walk (input_adj [(1, 2, 0), (2, 3, 1), (3, 4, 0), (1, 4, 1)]) (nat (sint (1 :: int32) - 1)) (nat (sint (4 :: int32) - 1)) d) \<longrightarrow>
         walk (input_adj [(1, 2, 0), (2, 3, 1), (3, 4, 0), (1, 4, 1)]) (nat (sint (1 :: int32) - 1)) (nat (sint (4 :: int32) - 1)) r \<and>
         (\<forall>d. walk (input_adj [(1, 2, 0), (2, 3, 1), (3, 4, 0), (1, 4, 1)]) (nat (sint (1 :: int32) - 1)) (nat (sint (4 :: int32) - 1)) d \<longrightarrow> r \<le> d)) \<and>
      (\<not> (\<exists>d. walk (input_adj [(1, 2, 0), (2, 3, 1), (3, 4, 0), (1, 4, 1)]) (nat (sint (1 :: int32) - 1)) (nat (sint (4 :: int32) - 1)) d) \<longrightarrow> r = -1))"
proof -
  have v: "valid_input 4 1 4 [(1, 2, 0), (2, 3, 1), (3, 4, 0), (1, 4, 1)]" by (simp add: valid_input_def)
  show ?thesis using v main_better_correct[OF v] by simp
qed

theorem make_arc_roundtrip_witness:
  "0 \<le> sint (5 :: int32) \<and> sint (5 :: int32) < 2 ^ 30 \<and> (1 :: 32 word) \<le> 1 \<and>
   arc_of (make_arc 1 (5 :: int32)) = Some (5, 1)"
  using make_arc_roundtrip[of "5 :: int32" 1] by simp

theorem arc_vertex_31_wraps_witness:
  "2 ^ 30 \<le> sint (0x40000000 :: int32) \<and>
   sint (arc_vertex (make_arc 0 (0x40000000 :: int32))) = - (2 ^ 30) \<and>
   arc_of (make_arc 0 (0x40000000 :: int32)) = None"
  using arc_vertex_31_wraps[of "0x40000000 :: int32" 0] by simp

end
