(* ===== verification/Ordered_Map.thy ===== *)
theory Ordered_Map
  imports Prelude
begin

text \<open>
  \<^verbatim>\<open>std::map<K, V>\<close> of the C++ library, as the sources use it: an association list
  ordered by strictly increasing keys (the in-order traversal of the tree), so that a
  range-\<^verbatim>\<open>for\<close> visits the entries in the list's order. \<^verbatim>\<open>count(k)\<close> and \<^verbatim>\<open>m[k]\<close> on
  a present key are \<open>map_of\<close>; the assignment \<^verbatim>\<open>m[k] = v\<close> is \<open>omap_update\<close>. The lemmas
  show that the update keeps the order and refines the map update \<open>(map_of m)(k \<mapsto> v)\<close>.
\<close>

type_synonym ('k, 'v) omap = "('k \<times> 'v) list"

fun omap_update :: "'k::linorder \<Rightarrow> 'v \<Rightarrow> ('k, 'v) omap \<Rightarrow> ('k, 'v) omap" where
  "omap_update k v [] = [(k, v)]"
| "omap_update k v ((k', v') # m) =
     (if k < k' then (k, v) # (k', v') # m
      else if k = k' then (k, v) # m
      else (k', v') # omap_update k v m)"

definition omap_wf :: "('k::linorder, 'v) omap \<Rightarrow> bool" where
  "omap_wf m \<longleftrightarrow> sorted_wrt (<) (map fst m)"

lemma omap_update_keys: "set (map fst (omap_update k v m)) = insert k (set (map fst m))"
  by (induction k v m rule: omap_update.induct) auto

lemma omap_update_wf: "omap_wf m \<Longrightarrow> omap_wf (omap_update k v m)"
proof (induction k v m rule: omap_update.induct)
  case (1 k v)
  then show ?case by (simp add: omap_wf_def)
next
  case (2 k v k' v' m)
  have "sorted_wrt (<) (map fst (omap_update k v m))" if "\<not> k < k'" "k \<noteq> k'"
    using 2 that by (simp add: omap_wf_def)
  moreover have "\<forall>x \<in> set (map fst (omap_update k v m)). k' < x" if "\<not> k < k'" "k \<noteq> k'"
  proof
    fix x assume "x \<in> set (map fst (omap_update k v m))"
    then have "x = k \<or> x \<in> set (map fst m)" unfolding omap_update_keys by simp
    then show "k' < x" using "2.prems" that by (auto simp: omap_wf_def)
  qed
  ultimately show ?case using "2.prems" by (auto simp: omap_wf_def)
qed

lemma map_of_omap_update: "map_of (omap_update k v m) = (map_of m)(k \<mapsto> v)"
  by (induction k v m rule: omap_update.induct) (auto simp: fun_eq_iff)

lemma omap_update_set: "set (omap_update k v m) \<subseteq> insert (k, v) (set m)"
  by (induction k v m rule: omap_update.induct) auto

lemma omap_wf_in_set: "omap_wf m \<Longrightarrow> (k, v) \<in> set m \<longleftrightarrow> map_of m k = Some v"
proof -
  assume "omap_wf m"
  then have "distinct (map fst m)" by (simp add: omap_wf_def strict_sorted_iff)
  then show ?thesis by (auto intro: map_of_is_SomeI dest: map_of_SomeD)
qed

end
