(* ===== verification/Graph_Good.thy ===== *)
theory Graph_Good
  imports Bfs01 Ordered_Map
begin

text \<open>
  The simple shortest-path program \<^verbatim>\<open>src/2015-06-06/1/good.C\<close>: the graph is a vector of
  \<^verbatim>\<open>std::map<size_t, int>\<close> (an \<open>omap\<close> per vertex), an input edge \<open>(s, e, w)\<close> is
  stored in both directions unless the pair already holds a weight \<open>\<le> w\<close>, and
  \<^verbatim>\<open>min_distance\<close> is the 0-1 search of \<open>Bfs01\<close> with the sentinel
  \<^verbatim>\<open>inf_dist = edges_count + 1\<close>, answering \<open>-1\<close> when the target's distance is not below it.
  Vertices and counts are \<open>size_t\<close>, the weight an \<^verbatim>\<open>int\<close>; \<^verbatim>\<open>--s\<close> wraps.
\<close>

section \<open>The graph\<close>

text \<open>\<^verbatim>\<open>struct graph\<close> and its constructor \<^verbatim>\<open>graph(n, m)\<close>.\<close>

record graph =
  vertex_count :: size_t
  edges_count :: size_t
  edges :: "(nat, int) omap list"

definition graph_init :: "size_t \<Rightarrow> size_t \<Rightarrow> graph" where
  "graph_init n m = \<lparr>vertex_count = n, edges_count = m, edges = replicate (unat n) []\<rparr>"

text \<open>
  One round of \<^verbatim>\<open>read_graph\<close>:
  \<^verbatim>\<open>if (!g->edges[s].count(e) || w < g->edges[s][e]) g->edges[s][e] = g->edges[e][s] = w;\<close>
  after \<^verbatim>\<open>--s; --e;\<close>; an index outside the vector is the error \<open>None\<close>.
\<close>

fun read_edges_good :: "(nat, int) omap list \<Rightarrow> (size_t \<times> size_t \<times> int32) list \<Rightarrow> (nat, int) omap list option" where
  "read_edges_good es [] = Some es"
| "read_edges_good es ((s, e, w) # inp) =
     (let s' = unat (s - 1); e' = unat (e - 1) in
      if s' < length es then
        (if (case map_of (es ! s') e' of None \<Rightarrow> True | Some x \<Rightarrow> sint w < x) then
           (if e' < length es then
              (let es' = es[e' := omap_update s' (sint w) (es ! e')]
               in read_edges_good (es'[s' := omap_update e' (sint w) (es' ! s')]) inp)
            else None)
         else read_edges_good es inp)
      else None)"

text \<open>\<^verbatim>\<open>read_graph\<close>: \<^verbatim>\<open>edges_count\<close> triples are read.\<close>

definition read_graph_good :: "graph \<Rightarrow> (size_t \<times> size_t \<times> int32) list \<Rightarrow> graph option" where
  "read_graph_good g inp =
     (case read_edges_good (edges g) (take (unat (edges_count g)) inp) of
        None \<Rightarrow> None
      | Some es \<Rightarrow> Some (g\<lparr>edges := es\<rparr>))"

text \<open>\<^verbatim>\<open>for (auto& u : g.edges[v])\<close>: the entries of the map of \<open>v\<close>, in key order.\<close>

definition good_adj :: "graph \<Rightarrow> adjacency" where
  "good_adj g v = (if v < length (edges g) then Some (edges g ! v) else None)"

text \<open>\<^verbatim>\<open>min_distance\<close>: \<^verbatim>\<open>int inf_dist = g.edges_count + 1\<close> converts a \<open>size_t\<close> to \<^verbatim>\<open>int\<close>
  (modulo \<open>2 ^ 32\<close>).\<close>

definition inf_dist :: "graph \<Rightarrow> int" where
  "inf_dist g = sint (ucast (edges_count g + 1) :: int32)"

definition min_distance_good :: "graph \<Rightarrow> size_t \<Rightarrow> size_t \<Rightarrow> int option" where
  "min_distance_good g start end_v =
     (case bfs_min_distance (good_adj g) (unat (vertex_count g)) (inf_dist g) (unat start) (unat end_v) of
        None \<Rightarrow> None
      | Some d \<Rightarrow> Some (if d < inf_dist g then d else -1))"

text \<open>\<^verbatim>\<open>main\<close>: \<open>n, m, a, b\<close> are \<^verbatim>\<open>uint32_t\<close>; \<^verbatim>\<open>a - 1\<close> is computed at that width.\<close>

definition main_good :: "32 word \<Rightarrow> 32 word \<Rightarrow> 32 word \<Rightarrow> 32 word \<Rightarrow> (size_t \<times> size_t \<times> int32) list \<Rightarrow> int option" where
  "main_good n m a b inp =
     (case read_graph_good (graph_init (ucast n) (ucast m)) inp of
        None \<Rightarrow> None
      | Some g \<Rightarrow> min_distance_good g (ucast (a - 1)) (ucast (b - 1)))"

section \<open>The graph the input describes\<close>

text \<open>Each triple as 0-based endpoints and its weight, and the arcs of the undirected
  multigraph: both directions of every triple.\<close>

definition triple_of :: "size_t \<times> size_t \<times> int32 \<Rightarrow> nat \<times> nat \<times> int" where
  "triple_of t = (case t of (s, e, w) \<Rightarrow> (unat s - 1, unat e - 1, sint w))"

definition tri_arcs :: "(nat \<times> nat \<times> int) list \<Rightarrow> (nat \<times> nat \<times> int) set" where
  "tri_arcs P = set P \<union> (\<lambda>(s, e, w). (e, s, w)) ` set P"

definition input_adj_good :: "(size_t \<times> size_t \<times> int32) list \<Rightarrow> adjacency" where
  "input_adj_good inp v =
     Some (concat (map (\<lambda>(s, e, w).
        (if unat s - 1 = v then [(unat e - 1, sint w)] else []) @
        (if unat e - 1 = v then [(unat s - 1, sint w)] else [])) inp))"

definition valid_input_good :: "32 word \<Rightarrow> 32 word \<Rightarrow> 32 word \<Rightarrow> 32 word \<Rightarrow> (size_t \<times> size_t \<times> int32) list \<Rightarrow> bool" where
  "valid_input_good n m a b inp \<longleftrightarrow>
     0 < n \<and> unat m < 2 ^ 31 - 1 \<and> length inp = unat m \<and>
     1 \<le> a \<and> a \<le> n \<and> 1 \<le> b \<and> b \<le> n \<and>
     (\<forall>(s, e, w) \<in> set inp. 1 \<le> unat s \<and> unat s \<le> unat n \<and> 1 \<le> unat e \<and> unat e \<le> unat n \<and>
                             0 \<le> sint w \<and> sint w \<le> 1)"

text \<open>The loop invariant of \<^verbatim>\<open>read_graph\<close> after the triples \<open>P\<close>: \<open>N\<close> ordered maps with
  keys below \<open>N\<close>, symmetric, every entry an arc of \<open>P\<close>, and every arc of \<open>P\<close> dominated
  by the entry of its pair.\<close>

definition read_inv :: "nat \<Rightarrow> (nat \<times> nat \<times> int) list \<Rightarrow> (nat, int) omap list \<Rightarrow> bool" where
  "read_inv N P es \<longleftrightarrow>
     length es = N \<and>
     (\<forall>x < N. omap_wf (es ! x) \<and> (\<forall>y v. map_of (es ! x) y = Some v \<longrightarrow> y < N \<and> (x, y, v) \<in> tri_arcs P)) \<and>
     (\<forall>x < N. \<forall>y < N. map_of (es ! x) y = map_of (es ! y) x) \<and>
     (\<forall>(x, y, w) \<in> tri_arcs P. x < N \<and> (\<exists>w' \<le> w. map_of (es ! x) y = Some w'))"

section \<open>Reading the graph\<close>

lemma tri_arcs_snoc: "tri_arcs (P @ [(s, e, w)]) = insert (s, e, w) (insert (e, s, w) (tri_arcs P))"
  by (auto simp: tri_arcs_def)

text \<open>The double assignment \<^verbatim>\<open>g->edges[s][e] = g->edges[e][s] = w\<close> sets exactly the
  entries of the pair, in both directions.\<close>

lemma store_map_of:
  assumes "s < length es" and "e < length es" and "x < length es"
  shows "map_of ((es[e := omap_update s w (es ! e)])[s := omap_update e w ((es[e := omap_update s w (es ! e)]) ! s)] ! x) y =
         (if (x = s \<and> y = e) \<or> (x = e \<and> y = s) then Some w else map_of (es ! x) y)"
proof (cases "x = s")
  case True
  then show ?thesis using assms by (cases "s = e") (simp_all add: map_of_omap_update)
next
  case False
  then show ?thesis using assms by (cases "x = e") (simp_all add: map_of_omap_update)
qed

lemma store_wf:
  assumes "s < length es" and "e < length es" and "x < length es" and "omap_wf (es ! x)"
  shows "omap_wf ((es[e := omap_update s w (es ! e)])[s := omap_update e w ((es[e := omap_update s w (es ! e)]) ! s)] ! x)"
proof (cases "x = s")
  case True
  then show ?thesis using assms by (cases "s = e") (simp_all add: omap_update_wf)
next
  case False
  then show ?thesis using assms by (cases "x = e") (simp_all add: omap_update_wf)
qed

lemma read_inv_init: "read_inv N [] (replicate N [])"
  by (simp add: read_inv_def omap_wf_def tri_arcs_def)

lemma read_inv_store:
  assumes inv: "read_inv N P es" and s: "s < N" and e: "e < N"
    and c: "case map_of (es ! s) e of None \<Rightarrow> True | Some x \<Rightarrow> w < x"
  shows "read_inv N (P @ [(s, e, w)])
           ((es[e := omap_update s w (es ! e)])[s := omap_update e w ((es[e := omap_update s w (es ! e)]) ! s)])"
proof -
  let ?es = "(es[e := omap_update s w (es ! e)])[s := omap_update e w ((es[e := omap_update s w (es ! e)]) ! s)]"
  have len: "length es = N" using inv by (simp add: read_inv_def)
  have m: "\<And>x y. x < N \<Longrightarrow> map_of (?es ! x) y =
             (if (x = s \<and> y = e) \<or> (x = e \<and> y = s) then Some w else map_of (es ! x) y)"
    using store_map_of[of s es e] s e len by simp
  have sym: "\<And>x y. x < N \<Longrightarrow> y < N \<Longrightarrow> map_of (es ! x) y = map_of (es ! y) x"
    using inv by (simp add: read_inv_def)
  have old: "\<And>x y v. x < N \<Longrightarrow> map_of (es ! x) y = Some v \<Longrightarrow> y < N \<and> (x, y, v) \<in> tri_arcs P"
    using inv by (simp add: read_inv_def)
  have D: "\<forall>(x, y, w) \<in> tri_arcs P. x < N \<and> (\<exists>w' \<le> w. map_of (es ! x) y = Some w')"
    using inv by (simp add: read_inv_def)
  have olddom: "x < N \<and> (\<exists>w' \<le> v. map_of (es ! x) y = Some w')" if "(x, y, v) \<in> tri_arcs P" for x y v
    using bspec[OF D that] by simp
  have wf: "omap_wf (?es ! x)" if x: "x < N" for x
  proof -
    have "omap_wf (es ! x)" using inv x by (simp add: read_inv_def)
    then show ?thesis by (rule store_wf[rotated 3]) (use s e x len in simp_all)
  qed
  have ent: "y < N \<and> (x, y, v) \<in> tri_arcs (P @ [(s, e, w)])" if x: "x < N" and v: "map_of (?es ! x) y = Some v" for x y v
  proof (cases "(x = s \<and> y = e) \<or> (x = e \<and> y = s)")
    case True
    then show ?thesis using v m[OF x] s e by (auto simp: tri_arcs_snoc)
  next
    case False
    then have "map_of (es ! x) y = Some v" using v by (simp only: m[OF x] if_not_P[OF False] if_False)
    then show ?thesis using old[OF x] by (simp add: tri_arcs_snoc)
  qed
  have sym': "map_of (?es ! x) y = map_of (?es ! y) x" if "x < N" "y < N" for x y
    using that m[of x y] m[of y x] sym[of x y] by auto
  have dom: "x < N \<and> (\<exists>w' \<le> w0. map_of (?es ! x) y = Some w')"
    if t: "(x, y, w0) \<in> tri_arcs (P @ [(s, e, w)])" for x y w0
  proof (cases "(x, y, w0) \<in> tri_arcs P")
    case True
    then obtain w' where x: "x < N" and w': "w' \<le> w0" "map_of (es ! x) y = Some w'"
      using olddom by blast
    show ?thesis
    proof (cases "(x = s \<and> y = e) \<or> (x = e \<and> y = s)")
      case True
      then have "map_of (es ! s) e = Some w'" using w'(2) sym s e by auto
      then have "w < w'" using c by simp
      then show ?thesis using True m[OF x] w' x by auto
    next
      case False
      then show ?thesis using m[OF x] w' x by auto
    qed
  next
    case False
    then have "(x, y, w0) = (s, e, w) \<or> (x, y, w0) = (e, s, w)" using t by (simp add: tri_arcs_snoc)
    then show ?thesis using m s e by auto
  qed
  have "length ?es = N" using len by simp
  then show ?thesis
    unfolding read_inv_def using wf ent sym' dom by blast
qed


lemma read_inv_skip:
  assumes inv: "read_inv N P es" and s: "s < N" and e: "e < N"
    and c: "map_of (es ! s) e = Some x" and le: "x \<le> w"
  shows "read_inv N (P @ [(s, e, w)]) es"
proof -
  have D: "\<forall>(x, y, w) \<in> tri_arcs P. x < N \<and> (\<exists>w' \<le> w. map_of (es ! x) y = Some w')"
    using inv by (simp add: read_inv_def)
  have E: "\<forall>x < N. omap_wf (es ! x) \<and> (\<forall>y v. map_of (es ! x) y = Some v \<longrightarrow> y < N \<and> (x, y, v) \<in> tri_arcs P)"
    using inv by (simp add: read_inv_def)
  have len: "length es = N" and sy: "\<forall>x < N. \<forall>y < N. map_of (es ! x) y = map_of (es ! y) x"
    using inv by (simp_all add: read_inv_def)
  have "map_of (es ! e) s = map_of (es ! s) e" using sy s e by blast
  then have sym: "map_of (es ! e) s = Some x" using c by simp
  have wf: "omap_wf (es ! x')" if "x' < N" for x' using E that by blast
  have ent: "y < N \<and> (x', y, v) \<in> tri_arcs (P @ [(s, e, w)])" if "x' < N" "map_of (es ! x') y = Some v" for x' y v
    using E that by (auto simp: tri_arcs_snoc)
  have dom: "x' < N \<and> (\<exists>w' \<le> v. map_of (es ! x') y = Some w')"
    if t: "(x', y, v) \<in> tri_arcs (P @ [(s, e, w)])" for x' y v
  proof (cases "(x', y, v) \<in> tri_arcs P")
    case True
    then show ?thesis using bspec[OF D True] by simp
  next
    case False
    then have "(x', y, v) = (s, e, w) \<or> (x', y, v) = (e, s, w)" using t by (simp add: tri_arcs_snoc)
    then show ?thesis using s e c sym le by auto
  qed
  show ?thesis
    unfolding read_inv_def using len wf ent sy dom by blast
qed

lemma unat_pred:
  fixes s :: "'a::len word"
  assumes "1 \<le> unat s"
  shows "unat (s - 1) = unat s - 1"
  using assms by (intro unat_minus_one) auto

text \<open>The loop of \<^verbatim>\<open>read_graph\<close> never leaves the vector on in-range endpoints and keeps
  the invariant.\<close>

lemma read_edges_good_inv:
  "read_inv N P es \<Longrightarrow>
   \<forall>(s, e, w) \<in> set inp. 1 \<le> unat s \<and> unat s \<le> N \<and> 1 \<le> unat e \<and> unat e \<le> N \<Longrightarrow>
   \<exists>es'. read_edges_good es inp = Some es' \<and> read_inv N (P @ map triple_of inp) es'"
proof (induction inp arbitrary: es P)
  case Nil
  then show ?case by simp
next
  case (Cons t inp)
  obtain s e w where t: "t = (s, e, w)" by (cases t) auto
  have b: "1 \<le> unat s" "unat s \<le> N" "1 \<le> unat e" "unat e \<le> N" using Cons.prems(2) t by auto
  have su: "unat (s - 1) = unat s - 1" and eu: "unat (e - 1) = unat e - 1"
    using b by (simp_all add: unat_pred)
  have len: "length es = N" using Cons.prems(1) by (simp add: read_inv_def)
  have sN: "unat s - 1 < N" and eN: "unat e - 1 < N" using b by simp_all
  have rest: "\<forall>(s, e, w) \<in> set inp. 1 \<le> unat s \<and> unat s \<le> N \<and> 1 \<le> unat e \<and> unat e \<le> N"
    using Cons.prems(2) by simp
  have tr: "triple_of t = (unat s - 1, unat e - 1, sint w)" by (simp add: t triple_of_def)
  let ?C = "case map_of (es ! (unat s - 1)) (unat e - 1) of None \<Rightarrow> True | Some x \<Rightarrow> sint w < x"
  let ?es = "(es[unat e - 1 := omap_update (unat s - 1) (sint w) (es ! (unat e - 1))])
               [unat s - 1 := omap_update (unat e - 1) (sint w)
                  ((es[unat e - 1 := omap_update (unat s - 1) (sint w) (es ! (unat e - 1))]) ! (unat s - 1))]"
  have step: "read_edges_good es (t # inp) = (if ?C then read_edges_good ?es inp else read_edges_good es inp)"
    unfolding t read_edges_good.simps Let_def su eu by (simp only: len sN eN if_True)
  show ?case
  proof (cases ?C)
    case True
    have "read_inv N (P @ [triple_of t]) ?es"
      using read_inv_store[OF Cons.prems(1) sN eN True] tr by simp
    then obtain es' where "read_edges_good ?es inp = Some es'" "read_inv N ((P @ [triple_of t]) @ map triple_of inp) es'"
      using Cons.IH[OF _ rest] by blast
    then show ?thesis using True step by simp
  next
    case False
    then obtain x where c: "map_of (es ! (unat s - 1)) (unat e - 1) = Some x" and "\<not> sint w < x"
      by (auto split: option.splits)
    then have "read_inv N (P @ [triple_of t]) es"
      using read_inv_skip[OF Cons.prems(1) sN eN c] tr by simp
    then obtain es' where "read_edges_good es inp = Some es'" "read_inv N ((P @ [triple_of t]) @ map triple_of inp) es'"
      using Cons.IH[OF _ rest] by blast
    then show ?thesis using False step by simp
  qed
qed


section \<open>The stored graph\<close>

lemma tri_arcs_valid:
  assumes "valid_input_good n m a b inp" and "(x, y, v) \<in> tri_arcs (map triple_of inp)"
  shows "x < unat n \<and> y < unat n \<and> 0 \<le> v \<and> v \<le> 1"
  using assms by (fastforce simp: tri_arcs_def triple_of_def valid_input_good_def)

lemma tri_arcs_Cons: "tri_arcs (t # P) = insert t (insert (case t of (s, e, w) \<Rightarrow> (e, s, w)) (tri_arcs P))"
  by (auto simp: tri_arcs_def)

lemma input_arc_good_iff: "arc (input_adj_good inp) x y w \<longleftrightarrow> (x, y, w) \<in> tri_arcs (map triple_of inp)"
proof (induction inp)
  case Nil
  then show ?case by (simp add: arc_def input_adj_good_def tri_arcs_def)
next
  case (Cons t inp)
  obtain s e v where t: "t = (s, e, v)" by (cases t) auto
  have "arc (input_adj_good (t # inp)) x y w \<longleftrightarrow>
          (unat s - 1 = x \<and> (y, w) = (unat e - 1, sint v)) \<or> (unat e - 1 = x \<and> (y, w) = (unat s - 1, sint v)) \<or>
          arc (input_adj_good inp) x y w"
    by (auto simp: arc_def input_adj_good_def t)
  then show ?case using Cons.IH by (auto simp: t tri_arcs_Cons triple_of_def)
qed

lemma read_graph_good_inv:
  assumes v: "valid_input_good n m a b inp"
  shows "\<exists>g. read_graph_good (graph_init (ucast n) (ucast m)) inp = Some g \<and>
           vertex_count g = ucast n \<and> edges_count g = ucast m \<and>
           read_inv (unat n) (map triple_of inp) (edges g)"
proof -
  have r: "\<forall>(s, e, w) \<in> set inp. 1 \<le> unat s \<and> unat s \<le> unat n \<and> 1 \<le> unat e \<and> unat e \<le> unat n"
    using v by (auto simp: valid_input_good_def)
  obtain es where es: "read_edges_good (replicate (unat n) []) inp = Some es"
    and inv: "read_inv (unat n) ([] @ map triple_of inp) es"
    using read_edges_good_inv[OF read_inv_init r] by blast
  have "take (unat (ucast m :: size_t)) inp = inp"
    using v by (simp add: unat_ucast_32_64 valid_input_good_def)
  then have "read_graph_good (graph_init (ucast n) (ucast m)) inp =
               Some ((graph_init (ucast n) (ucast m))\<lparr>edges := es\<rparr>)"
    using es by (simp add: read_graph_good_def graph_init_def unat_ucast_32_64)
  then show ?thesis using inv by (simp add: graph_init_def)
qed


lemma stored_graph:
  assumes v: "valid_input_good n m a b inp"
  shows "\<exists>g. read_graph_good (graph_init (ucast n) (ucast m)) inp = Some g \<and>
           vertex_count g = ucast n \<and> edges_count g = ucast m \<and>
           graph_ok (good_adj g) (unat n) \<and> weights_01 (good_adj g) (unat n) \<and>
           (\<forall>x u w. arc (good_adj g) x u w \<longrightarrow> arc (input_adj_good inp) x u w) \<and>
           (\<forall>x u w. arc (input_adj_good inp) x u w \<longrightarrow> (\<exists>w' \<le> w. arc (good_adj g) x u w'))"
proof -
  obtain g where rg: "read_graph_good (graph_init (ucast n) (ucast m)) inp = Some g"
    and vc: "vertex_count g = ucast n" and ec: "edges_count g = ucast m"
    and inv: "read_inv (unat n) (map triple_of inp) (edges g)"
    using read_graph_good_inv[OF v] by blast
  let ?N = "unat n" and ?P = "map triple_of inp"
  have len: "length (edges g) = ?N" using inv by (simp add: read_inv_def)
  have E: "\<forall>x < ?N. omap_wf (edges g ! x) \<and>
             (\<forall>y v. map_of (edges g ! x) y = Some v \<longrightarrow> y < ?N \<and> (x, y, v) \<in> tri_arcs ?P)"
    using inv by (simp add: read_inv_def)
  have D: "\<forall>(x, y, w) \<in> tri_arcs ?P. x < ?N \<and> (\<exists>w' \<le> w. map_of (edges g ! x) y = Some w')"
    using inv by (simp add: read_inv_def)
  have arc_iff: "arc (good_adj g) x u w \<longleftrightarrow> x < ?N \<and> map_of (edges g ! x) u = Some w" for x u w
  proof (cases "x < ?N")
    case True
    then have "omap_wf (edges g ! x)" using E by blast
    then show ?thesis using True len by (simp add: arc_def good_adj_def omap_wf_in_set)
  next
    case False
    then show ?thesis using len by (simp add: arc_def good_adj_def)
  qed
  have stored: "(x, u, w) \<in> tri_arcs ?P" if "arc (good_adj g) x u w" for x u w
    using that E unfolding arc_iff by blast
  have ok: "graph_ok (good_adj g) ?N"
    unfolding graph_ok_def
  proof (intro allI impI)
    fix x assume x: "x < ?N"
    have "u < ?N \<and> 0 \<le> w" if "(u, w) \<in> set (edges g ! x)" for u w
    proof -
      have "arc (good_adj g) x u w" using that x len by (simp add: arc_def good_adj_def)
      then show ?thesis using tri_arcs_valid[OF v stored] by blast
    qed
    then show "\<exists>as. good_adj g x = Some as \<and> (\<forall>(u, w) \<in> set as. u < ?N \<and> 0 \<le> w)"
      using x len by (auto simp: good_adj_def)
  qed
  have w01: "weights_01 (good_adj g) ?N"
    unfolding weights_01_def using tri_arcs_valid[OF v stored] by force
  have sub: "arc (input_adj_good inp) x u w" if "arc (good_adj g) x u w" for x u w
    using stored[OF that] by (simp add: input_arc_good_iff)
  have dom: "\<exists>w' \<le> w. arc (good_adj g) x u w'" if "arc (input_adj_good inp) x u w" for x u w
  proof -
    have "(x, u, w) \<in> tri_arcs ?P" using that by (simp add: input_arc_good_iff)
    then have "x < ?N \<and> (\<exists>w' \<le> w. map_of (edges g ! x) u = Some w')" using bspec[OF D] by fastforce
    then show ?thesis unfolding arc_iff by blast
  qed
  show ?thesis using rg vc ec ok w01 sub dom by blast
qed

section \<open>\<^verbatim>\<open>min_distance\<close> and \<^verbatim>\<open>main\<close>\<close>

lemma inf_dist_value:
  fixes m :: "32 word"
  assumes "edges_count g = ucast m" and "unat m < 2 ^ 31 - 1"
  shows "inf_dist g = int (unat m) + 1"
proof -
  have u: "unat (ucast m :: size_t) = unat m" by (rule unat_ucast_32_64)
  have "unat (ucast m :: size_t) + unat (1 :: size_t) < 2 ^ LENGTH(64)"
    unfolding u using assms(2) by simp
  then have "unat (ucast m + 1 :: size_t) = unat (ucast m :: size_t) + unat (1 :: size_t)"
    by (rule unat_add_lem[THEN iffD1])
  then have "unat (ucast m + 1 :: size_t) = unat m + 1" unfolding u by simp
  then show ?thesis
    using assms sint_ucast_64_32[of "ucast m + 1"] by (simp add: inf_dist_def)
qed

lemma unat_ucast_pred:
  assumes "1 \<le> (a :: 32 word)"
  shows "unat (ucast (a - 1) :: size_t) = unat a - 1"
proof -
  have "1 \<le> unat a" using assms by (simp add: word_le_nat_alt)
  then show ?thesis by (simp add: unat_ucast_32_64 unat_pred)
qed

text \<open>The shortest walks of the stored graph weigh at most \<open>m\<close>: one step per input edge.\<close>

lemma stored_walk_short:
  assumes v: "valid_input_good n m a b inp" and ok: "graph_ok G (unat n)" and w01: "weights_01 G (unat n)"
    and sub: "\<And>x u w. arc G x u w \<Longrightarrow> arc (input_adj_good inp) x u w"
    and s: "s < unat n" and w: "walk G s t d"
  shows "\<exists>d'. walk G s t d' \<and> d' \<le> int (unat m)"
proof -
  let ?E = "(\<lambda>(s, e, w). {s, e}) ` set (map triple_of inp)"
  have E: "{x, u} \<in> ?E" if "arc G x u w" "x \<noteq> u" for x u w
  proof -
    have "(x, u, w) \<in> tri_arcs (map triple_of inp)" using sub[OF that(1)] by (simp add: input_arc_good_iff)
    then show ?thesis by (force simp: tri_arcs_def insert_commute)
  qed
  have fin: "finite ?E" by simp
  have "\<exists>d'. walk G s t d' \<and> d' \<le> d \<and> d' \<le> int (card ?E)"
    by (rule walk_short_edges[OF ok w01 s w fin]) (use E in blast)
  then obtain d' where wd: "walk G s t d'" and le: "d' \<le> int (card ?E)" by blast
  have "card ?E \<le> unat m"
    using card_image_le[of "set (map triple_of inp)" "\<lambda>(s, e, w). {s, e}"] card_length[of "map triple_of inp"] v
    by (simp add: valid_input_good_def)
  then have "d' \<le> int (unat m)" using le by (meson of_nat_le_iff order_trans)
  then show ?thesis using wd by blast
qed

lemma main_good_spec:
  assumes v: "valid_input_good n m a b inp"
  shows "\<exists>r. main_good n m a b inp = Some r \<and>
           ((\<exists>d. walk (input_adj_good inp) (unat a - 1) (unat b - 1) d) \<longrightarrow>
              walk (input_adj_good inp) (unat a - 1) (unat b - 1) r \<and>
              (\<forall>d. walk (input_adj_good inp) (unat a - 1) (unat b - 1) d \<longrightarrow> r \<le> d)) \<and>
           (\<not> (\<exists>d. walk (input_adj_good inp) (unat a - 1) (unat b - 1) d) \<longrightarrow> r = -1)"
proof -
  let ?s = "unat a - 1" and ?t = "unat b - 1" and ?I = "input_adj_good inp"
  obtain g where rg: "read_graph_good (graph_init (ucast n) (ucast m)) inp = Some g"
    and vc: "vertex_count g = ucast n" and ec: "edges_count g = ucast m"
    and ok: "graph_ok (good_adj g) (unat n)" and w01: "weights_01 (good_adj g) (unat n)"
    and sub: "\<And>x u w. arc (good_adj g) x u w \<Longrightarrow> arc ?I x u w"
    and dom: "\<And>x u w. arc ?I x u w \<Longrightarrow> \<exists>w' \<le> w. arc (good_adj g) x u w'"
    using stored_graph[OF v] by blast
  have b: "1 \<le> a" "a \<le> n" "1 \<le> b" "b \<le> n" "unat m < 2 ^ 31 - 1" using v by (simp_all add: valid_input_good_def)
  have st: "?s < unat n" "?t < unat n" using b by (simp_all add: word_le_nat_alt)
  have inf: "inf_dist g = int (unat m) + 1" using inf_dist_value[OF ec b(5)] .
  have short: "\<exists>w'. walk (good_adj g) ?s ?t w' \<and> w' < inf_dist g" if "walk (good_adj g) ?s ?t w" for w
    using stored_walk_short[OF v ok w01 sub st(1) that] inf by force
  obtain d where bd: "bfs_min_distance (good_adj g) (unat n) (inf_dist g) ?s ?t = Some d"
    and reach: "(\<exists>w. walk (good_adj g) ?s ?t w) \<longrightarrow>
                walk (good_adj g) ?s ?t d \<and> (\<forall>w. walk (good_adj g) ?s ?t w \<longrightarrow> d \<le> w) \<and> d < inf_dist g"
    and unreach: "\<not> (\<exists>w. walk (good_adj g) ?s ?t w) \<longrightarrow> d = inf_dist g"
    using bfs_min_distance_sentinel[OF ok st, of "inf_dist g"] short inf by force
  have ab: "unat (ucast (a - 1) :: size_t) = ?s" "unat (ucast (b - 1) :: size_t) = ?t"
    using b by (simp_all add: unat_ucast_pred)
  have "min_distance_good g (ucast (a - 1)) (ucast (b - 1)) = Some (if d < inf_dist g then d else -1)"
    using bd vc unfolding min_distance_good_def ab by (simp add: unat_ucast_32_64)
  then have main: "main_good n m a b inp = Some (if d < inf_dist g then d else -1)"
    using rg by (simp add: main_good_def)
  have eqv: "(\<exists>w. walk (good_adj g) ?s ?t w) \<longleftrightarrow> (\<exists>w. walk ?I ?s ?t w)"
    using walk_mono[of "good_adj g" ?I, OF sub] walk_dominated[of ?I "good_adj g", OF dom] by blast
  show ?thesis
  proof (cases "\<exists>w. walk ?I ?s ?t w")
    case True
    then have gw: "walk (good_adj g) ?s ?t d" and low: "\<forall>w. walk (good_adj g) ?s ?t w \<longrightarrow> d \<le> w"
      and lt: "d < inf_dist g"
      using reach eqv by auto
    have "walk ?I ?s ?t d" using walk_mono[of "good_adj g" ?I, OF sub] gw by blast
    moreover have "d \<le> w" if "walk ?I ?s ?t w" for w
      using walk_dominated[of ?I "good_adj g", OF dom that] low by force
    ultimately show ?thesis using main lt True by auto
  next
    case False
    then have "d = inf_dist g" using unreach eqv by auto
    then show ?thesis using main False by auto
  qed
qed

section \<open>Properties of the program\<close>

text \<open>
  C2. End-to-end correctness of \<^verbatim>\<open>1/good.C\<close>: on input within its limits (\<open>n \<ge> 1\<close>,
  exactly \<open>m < 2 ^ 31 - 1\<close> triples, endpoints in \<open>1 .. n\<close>, weights 0 or 1) the program
  runs without an out-of-range access and prints the least weight of a walk from \<open>a\<close> to
  \<open>b\<close> in the undirected multigraph of the input, or \<open>-1\<close> when there is none.
\<close>

theorem main_good_correct:
  assumes "valid_input_good n m a b inp"
  shows "\<exists>r. main_good n m a b inp = Some r \<and>
           ((\<exists>d. walk (input_adj_good inp) (unat a - 1) (unat b - 1) d) \<longrightarrow>
              walk (input_adj_good inp) (unat a - 1) (unat b - 1) r \<and>
              (\<forall>d. walk (input_adj_good inp) (unat a - 1) (unat b - 1) d \<longrightarrow> r \<le> d)) \<and>
           (\<not> (\<exists>d. walk (input_adj_good inp) (unat a - 1) (unat b - 1) d) \<longrightarrow> r = -1)"
  using main_good_spec[OF assms] .

text \<open>
  C19. The read loop of \<^verbatim>\<open>read_graph\<close> stays inside the vector and leaves an adjacency of
  ordered maps that is symmetric, holds only arcs of the input, and holds for every pair
  of endpoints a weight no larger than any input edge between them.
\<close>

theorem read_edges_good_invariant:
  assumes "\<forall>(s, e, w) \<in> set inp. 1 \<le> unat s \<and> unat s \<le> N \<and> 1 \<le> unat e \<and> unat e \<le> N"
  shows "\<exists>es. read_edges_good (replicate N []) inp = Some es \<and> read_inv N (map triple_of inp) es"
  using read_edges_good_inv[OF read_inv_init assms] by simp

text \<open>
  C24. \<^verbatim>\<open>int inf_dist = g.edges_count + 1\<close> wraps for \<open>2 ^ 31 - 1\<close> edges: the sentinel
  becomes \<open>-2 ^ 31\<close>, below the start's distance \<open>0\<close>, so no arc ever relaxes and
  \<^verbatim>\<open>min_distance\<close> answers \<open>-1\<close> for every start and target, even for a target at
  distance \<open>0\<close>.
\<close>

theorem inf_dist_wraps:
  assumes m: "edges_count g = 0x7FFFFFFF" and ok: "graph_ok (good_adj g) (unat (vertex_count g))"
    and s: "unat s < unat (vertex_count g)" and t: "unat t < unat (vertex_count g)"
  shows "inf_dist g = - (2 ^ 31) \<and> min_distance_good g s t = Some (-1)"
proof -
  have i: "inf_dist g = - (2 ^ 31)" using m by (simp add: inf_dist_def)
  then show ?thesis
    using bfs_min_distance_negative[OF ok s t, of "inf_dist g"] by (simp add: min_distance_good_def)
qed

section \<open>Witnesses\<close>

theorem main_good_correct_witness:
  "valid_input_good 4 4 1 4 [(1, 2, 0), (2, 3, 1), (3, 4, 0), (1, 4, 1)] \<and>
   (\<exists>r. main_good 4 4 1 4 [(1, 2, 0), (2, 3, 1), (3, 4, 0), (1, 4, 1)] = Some r \<and>
      ((\<exists>d. walk (input_adj_good [(1, 2, 0), (2, 3, 1), (3, 4, 0), (1, 4, 1)]) (unat (1 :: 32 word) - 1) (unat (4 :: 32 word) - 1) d) \<longrightarrow>
         walk (input_adj_good [(1, 2, 0), (2, 3, 1), (3, 4, 0), (1, 4, 1)]) (unat (1 :: 32 word) - 1) (unat (4 :: 32 word) - 1) r \<and>
         (\<forall>d. walk (input_adj_good [(1, 2, 0), (2, 3, 1), (3, 4, 0), (1, 4, 1)]) (unat (1 :: 32 word) - 1) (unat (4 :: 32 word) - 1) d \<longrightarrow> r \<le> d)) \<and>
      (\<not> (\<exists>d. walk (input_adj_good [(1, 2, 0), (2, 3, 1), (3, 4, 0), (1, 4, 1)]) (unat (1 :: 32 word) - 1) (unat (4 :: 32 word) - 1) d) \<longrightarrow> r = -1))"
proof -
  have v: "valid_input_good 4 4 1 4 [(1, 2, 0), (2, 3, 1), (3, 4, 0), (1, 4, 1)]" by (simp add: valid_input_good_def)
  show ?thesis using v main_good_correct[OF v] by simp
qed

theorem read_edges_good_invariant_witness:
  "list_all (\<lambda>(s, e, w). 1 \<le> unat s \<and> unat s \<le> 2 \<and> 1 \<le> unat e \<and> unat e \<le> 2) [(1 :: size_t, 2 :: size_t, 1 :: int32)] \<and>
   (\<exists>es. read_edges_good (replicate 2 []) [(1 :: size_t, 2 :: size_t, 1 :: int32)] = Some es \<and>
         read_inv 2 (map triple_of [(1 :: size_t, 2 :: size_t, 1 :: int32)]) es)"
  using read_edges_good_invariant[of "[(1 :: size_t, 2 :: size_t, 1 :: int32)]" 2] by simp

theorem inf_dist_wraps_witness:
  "inf_dist \<lparr>vertex_count = 2, edges_count = 0x7FFFFFFF, edges = [[(1, 0)], [(0, 0)]]\<rparr> = - (2 ^ 31) \<and>
   min_distance_good \<lparr>vertex_count = 2, edges_count = 0x7FFFFFFF, edges = [[(1, 0)], [(0, 0)]]\<rparr> 0 1 = Some (-1)"
  by (rule inf_dist_wraps) (simp_all add: graph_ok_def good_adj_def less_2_cases_iff)

end
