(* ===== verification/Nfa_Good.thy ===== *)
theory Nfa_Good
  imports Prelude
begin

text \<open>
  The class \<^verbatim>\<open>Automata\<close> of \<^verbatim>\<open>src/2015-06-06/2/good.C\<close>: an \<open>\<epsilon>\<close>-NFA over the letters
  \<open>a .. z\<close> (symbols \<open>0 .. 25\<close>) and \<open>\<epsilon>\<close> (symbol \<open>26\<close>), read from its counts, terminal
  states and transitions, and its closure \<^verbatim>\<open>becomeClosure\<close>: Kosaraju's strongly connected
  components of the \<open>\<epsilon>\<close>-edges (\<^verbatim>\<open>getOrder\<close>, \<^verbatim>\<open>fillOrder\<close>,
  \<^verbatim>\<open>getTransposedGraph\<close>, \<^verbatim>\<open>fillComponent\<close>, \<^verbatim>\<open>getComponents\<close>), the contraction of the
  components (\<^verbatim>\<open>compressComponents\<close>) and Kahn's propagation of transitions and terminal
  flags along the contracted \<open>\<epsilon>\<close>-edges (\<^verbatim>\<open>addInterconnections\<close>).

  An \<^verbatim>\<open>std::set<unsigned int>\<close> is its sorted list of elements (the order a range-\<^verbatim>\<open>for\<close>
  visits); state ids are naturals, the in-degree counters \<^verbatim>\<open>unsigned int\<close> words. Every
  \<^verbatim>\<open>while\<close> loop over a stack or queue is a \<^theory_text>\<open>partial_function (option)\<close>; an
  out-of-range \<^verbatim>\<open>operator[]\<close> is the error \<open>None\<close>.
\<close>

section \<open>Data\<close>

definition eps_sym :: nat where "eps_sym = 26"
definition alph_size :: nat where "alph_size = 27"

text \<open>\<^verbatim>\<open>NDState\<close>: for each of the 27 symbols, the set of target states.\<close>

type_synonym ndstate = "nat list list"

record automata =
  entrance :: nat
  components_number :: nat
  states_number :: nat
  delta :: "ndstate list"
  terminal_states :: "bool list"

text \<open>\<^verbatim>\<open>std::set::insert\<close>: the new set and whether the element was new (\<^verbatim>\<open>.second\<close>).\<close>

definition set_insert :: "nat \<Rightarrow> nat list \<Rightarrow> nat list \<times> bool" where
  "set_insert x xs = (if x \<in> set xs then (xs, False) else (insort x xs, True))"

text \<open>\<^verbatim>\<open>_delta[v][a]\<close>, with both indices checked.\<close>

definition trans_at :: "ndstate list \<Rightarrow> nat \<Rightarrow> nat \<Rightarrow> nat list option" where
  "trans_at d v a = (if v < length d \<and> a < length (d ! v) then Some (d ! v ! a) else None)"

text \<open>\<^verbatim>\<open>_delta[v][a].insert(t)\<close>.\<close>

definition trans_insert :: "ndstate list \<Rightarrow> nat \<Rightarrow> nat \<Rightarrow> nat \<Rightarrow> (ndstate list \<times> bool) option" where
  "trans_insert d v a t =
     (case trans_at d v a of
        None \<Rightarrow> None
      | Some ts \<Rightarrow> (let (ts', new) = set_insert t ts in Some (d[v := (d ! v)[a := ts']], new)))"

section \<open>Reading the automaton\<close>

text \<open>The symbol index \<^verbatim>\<open>transition_symbol - 'a'\<close>, after \<^verbatim>\<open>'$'\<close> became \<^verbatim>\<open>'z' + 1\<close>.\<close>

definition symbol_index :: "char \<Rightarrow> int" where
  "symbol_index c =
     (if c = CHR ''$'' then int (of_char CHR ''z'') + 1 else int (of_char c)) - int (of_char CHR ''a'')"

definition read_terminal :: "nat \<Rightarrow> bool list \<Rightarrow> bool list option" where
  "read_terminal t ts = (if t < length ts then Some (ts[t := True]) else None)"

definition read_transition :: "nat \<times> char \<times> nat \<Rightarrow> ndstate list \<Rightarrow> ndstate list option" where
  "read_transition tr d =
     (case tr of (f, c, t) \<Rightarrow>
        if 0 \<le> symbol_index c then map_option fst (trans_insert d f (nat (symbol_index c)) t) else None)"

text \<open>The constructor \<^verbatim>\<open>Automata(std::istream&)\<close>: \<open>n\<close> states, the \<open>k\<close> terminal states and
  the \<open>m\<close> transitions as read; \<^verbatim>\<open>_components_number\<close> is not set by the constructor.\<close>

definition automata_init :: "nat \<Rightarrow> nat list \<Rightarrow> (nat \<times> char \<times> nat) list \<Rightarrow> automata option" where
  "automata_init n terms trs =
     (case fold_opt read_terminal terms (replicate n False) of
        None \<Rightarrow> None
      | Some ts \<Rightarrow>
          (case fold_opt read_transition trs (replicate n (replicate alph_size [])) of
             None \<Rightarrow> None
           | Some d \<Rightarrow> Some \<lparr>entrance = 0, components_number = 0, states_number = n,
                              delta = d, terminal_states = ts\<rparr>))"

section \<open>Kosaraju: the finishing order\<close>

text \<open>The body of the \<^verbatim>\<open>while\<close> loop of \<^verbatim>\<open>fillOrder\<close>: every unused \<open>\<epsilon>\<close>-successor of the
  top is pushed and marked.\<close>

definition push_unused :: "nat \<Rightarrow> nat list \<times> bool list \<Rightarrow> (nat list \<times> bool list) option" where
  "push_unused u s =
     (case s of (st, used) \<Rightarrow>
        if u < length used then (if \<not> used ! u then Some (u # st, used[u := True]) else Some (st, used))
        else None)"

partial_function (option) fill_loop ::
  "ndstate list \<Rightarrow> nat list \<Rightarrow> bool list \<Rightarrow> nat list \<Rightarrow> (nat list \<times> bool list) option" where
  "fill_loop d st used order =
     (case st of
        [] \<Rightarrow> Some (order, used)
      | v # _ \<Rightarrow>
          (case trans_at d v eps_sym of
             None \<Rightarrow> None
           | Some us \<Rightarrow>
               (case fold_opt push_unused us (st, used) of
                  None \<Rightarrow> None
                | Some (st', used') \<Rightarrow>
                    (if hd st' = v then fill_loop d (tl st') used' (order @ [v])
                     else fill_loop d st' used' order))))"

declare fill_loop.simps [code]

definition fill_order :: "ndstate list \<Rightarrow> nat list \<Rightarrow> bool list \<Rightarrow> nat \<Rightarrow> (nat list \<times> bool list) option" where
  "fill_order d order used start =
     (if start < length used then fill_loop d [start] (used[start := True]) order else None)"

definition get_order_step :: "ndstate list \<Rightarrow> nat \<Rightarrow> nat list \<times> bool list \<Rightarrow> (nat list \<times> bool list) option" where
  "get_order_step d v s =
     (case s of (order, used) \<Rightarrow>
        if v < length used then (if \<not> used ! v then fill_order d order used v else Some (order, used))
        else None)"

definition get_order :: "automata \<Rightarrow> nat list option" where
  "get_order A =
     map_option fst (fold_opt (get_order_step (delta A)) [0..<states_number A]
                       ([], replicate (states_number A) False))"

section \<open>Kosaraju: the components\<close>

text \<open>\<^verbatim>\<open>getTransposedGraph(symbol)\<close>.\<close>

definition transpose_step :: "ndstate list \<Rightarrow> nat \<Rightarrow> nat \<Rightarrow> nat list list \<Rightarrow> nat list list option" where
  "transpose_step d a v tr =
     (case trans_at d v a of
        None \<Rightarrow> None
      | Some us \<Rightarrow>
          fold_opt (\<lambda>u tr. if u < length tr then Some (tr[u := fst (set_insert v (tr ! u))]) else None) us tr)"

definition transposed :: "automata \<Rightarrow> nat \<Rightarrow> nat list list option" where
  "transposed A a =
     fold_opt (transpose_step (delta A) a) [0..<states_number A] (replicate (states_number A) [])"

text \<open>The body of the \<^verbatim>\<open>while\<close> loop of \<^verbatim>\<open>fillComponent\<close>: every unassigned transposed
  neighbour of the popped state is pushed and assigned (\<open>n\<close> marks "unassigned").\<close>

definition push_unassigned :: "nat \<Rightarrow> nat \<Rightarrow> nat \<Rightarrow> nat list \<times> nat list \<Rightarrow> (nat list \<times> nat list) option" where
  "push_unassigned n c u s =
     (case s of (st, comps) \<Rightarrow>
        if u < length comps then (if comps ! u = n then Some (u # st, comps[u := c]) else Some (st, comps))
        else None)"

partial_function (option) fill_comp_loop ::
  "nat list list \<Rightarrow> nat \<Rightarrow> nat \<Rightarrow> nat list \<Rightarrow> nat list \<Rightarrow> nat list option" where
  "fill_comp_loop tr n c st comps =
     (case st of
        [] \<Rightarrow> Some comps
      | v # st' \<Rightarrow>
          (if v < length tr then
             (case fold_opt (push_unassigned n c) (tr ! v) (st', comps) of
                None \<Rightarrow> None
              | Some (st'', comps') \<Rightarrow> fill_comp_loop tr n c st'' comps')
           else None))"

declare fill_comp_loop.simps [code]

definition fill_component :: "nat list list \<Rightarrow> nat \<Rightarrow> nat list \<Rightarrow> nat \<Rightarrow> nat \<Rightarrow> nat list option" where
  "fill_component tr n comps c start =
     (if start < length comps then fill_comp_loop tr n c [start] (comps[start := c]) else None)"

text \<open>The loop of \<^verbatim>\<open>getComponents\<close>: \<open>v = reverse_order[n - i - 1]\<close>; the state is the
  component vector and \<^verbatim>\<open>current_component\<close>.\<close>

definition components_step ::
  "nat list list \<Rightarrow> nat \<Rightarrow> nat list \<Rightarrow> nat \<Rightarrow> nat list \<times> nat \<Rightarrow> (nat list \<times> nat) option" where
  "components_step tr n order i s =
     (case s of (comps, c) \<Rightarrow>
        if n - i - 1 < length order \<and> order ! (n - i - 1) < length comps then
          (let v = order ! (n - i - 1) in
           if comps ! v = n then map_option (\<lambda>comps'. (comps', c + 1)) (fill_component tr n comps c v)
           else Some (comps, c))
        else None)"

definition get_components :: "automata \<Rightarrow> (nat list \<times> nat) option" where
  "get_components A =
     (case get_order A of
        None \<Rightarrow> None
      | Some order \<Rightarrow>
          (case transposed A eps_sym of
             None \<Rightarrow> None
           | Some tr \<Rightarrow>
               fold_opt (components_step tr (states_number A) order) [0..<states_number A]
                 (replicate (states_number A) (states_number A), 0)))"

section \<open>Contraction of the components\<close>

text \<open>A checked read \<^verbatim>\<open>v[i]\<close> of a vector.\<close>

definition nth_opt :: "'a list \<Rightarrow> nat \<Rightarrow> 'a option" where
  "nth_opt xs i = (if i < length xs then Some (xs ! i) else None)"

text \<open>\<^verbatim>\<open>new_delta[components[v]][symbol].insert(components[u])\<close> for a letter.\<close>

definition compress_letter :: "nat list \<Rightarrow> nat \<Rightarrow> nat \<Rightarrow> nat \<Rightarrow> ndstate list \<Rightarrow> ndstate list option" where
  "compress_letter comps v a u nd =
     (case nth_opt comps u of
        None \<Rightarrow> None
      | Some cu \<Rightarrow> map_option fst (trans_insert nd (comps ! v) a cu))"

text \<open>An \<open>\<epsilon>\<close>-edge \<open>v \<rightarrow> u\<close> between different components is stored reversed,
  \<^verbatim>\<open>new_delta[components[u]][EPS].insert(components[v])\<close>, and counted once in
  \<^verbatim>\<open>degrees[components[v]]\<close>.\<close>

definition compress_eps ::
  "nat list \<Rightarrow> nat \<Rightarrow> nat \<Rightarrow> ndstate list \<times> 32 word list \<Rightarrow> (ndstate list \<times> 32 word list) option" where
  "compress_eps comps v u s =
     (case s of (nd, deg) \<Rightarrow>
        (case nth_opt comps u of
           None \<Rightarrow> None
         | Some cu \<Rightarrow>
             (if comps ! v \<noteq> cu then
                (case trans_insert nd cu eps_sym (comps ! v) of
                   None \<Rightarrow> None
                 | Some (nd', new) \<Rightarrow>
                     (if new then
                        (if comps ! v < length deg then Some (nd', deg[comps ! v := deg ! (comps ! v) + 1])
                         else None)
                      else Some (nd', deg)))
              else Some (nd, deg))))"

text \<open>The body of the loop over the states \<open>v\<close> in \<^verbatim>\<open>compressComponents\<close>.\<close>

definition compress_row ::
  "nat list \<Rightarrow> ndstate list \<Rightarrow> nat \<Rightarrow> ndstate list \<times> 32 word list \<Rightarrow> (ndstate list \<times> 32 word list) option" where
  "compress_row comps d v s =
     (case fold_opt (\<lambda>a s. case s of (nd, deg) \<Rightarrow>
                       (case trans_at d v a of
                          None \<Rightarrow> None
                        | Some us \<Rightarrow> map_option (\<lambda>nd'. (nd', deg)) (fold_opt (compress_letter comps v a) us nd)))
            [0..<alph_size - 1] s of
        None \<Rightarrow> None
      | Some s' \<Rightarrow>
          (case trans_at d v eps_sym of
             None \<Rightarrow> None
           | Some us \<Rightarrow> fold_opt (compress_eps comps v) us s'))"

definition compress_terminal :: "nat list \<Rightarrow> bool list \<Rightarrow> nat \<Rightarrow> bool list \<Rightarrow> bool list option" where
  "compress_terminal comps ts v nt =
     (if v < length comps \<and> v < length ts \<and> comps ! v < length nt
      then Some (nt[comps ! v := (nt ! (comps ! v) \<or> ts ! v)]) else None)"

text \<open>\<^verbatim>\<open>compressComponents\<close>: the contracted automaton and the vector \<^verbatim>\<open>degrees\<close>.\<close>

definition compress_components :: "automata \<Rightarrow> (automata \<times> 32 word list) option" where
  "compress_components A =
     (case get_components A of
        None \<Rightarrow> None
      | Some (comps, c) \<Rightarrow>
          (case fold_opt (compress_row comps (delta A)) [0..<states_number A]
                  (replicate c (replicate alph_size []), replicate (states_number A) 0) of
             None \<Rightarrow> None
           | Some (nd, deg) \<Rightarrow>
               (case nth_opt comps (entrance A) of
                  None \<Rightarrow> None
                | Some e \<Rightarrow>
                    (case fold_opt (compress_terminal comps (terminal_states A)) [0..<states_number A]
                            (replicate c False) of
                       None \<Rightarrow> None
                     | Some nt \<Rightarrow>
                         Some (A\<lparr>components_number := c, entrance := e, terminal_states := nt,
                                 states_number := c, delta := nd\<rparr>, deg)))))"

section \<open>Propagation along the contracted \<open>\<epsilon>\<close>-edges\<close>

text \<open>\<^verbatim>\<open>addNotEpsTransitions(source, destination)\<close>: the letter transitions of \<open>source\<close> are
  added to \<open>destination\<close>.\<close>

definition add_not_eps :: "ndstate \<Rightarrow> ndstate \<Rightarrow> ndstate option" where
  "add_not_eps src dst =
     fold_opt (\<lambda>a dst. if a < length src \<and> a < length dst
                       then Some (dst[a := fold (\<lambda>x acc. fst (set_insert x acc)) (src ! a) (dst ! a)])
                       else None)
       [0..<alph_size - 1] dst"

text \<open>One \<open>\<epsilon>\<close>-successor \<open>u\<close> of the dequeued \<open>v\<close> in \<^verbatim>\<open>addInterconnections\<close>:
  \<^verbatim>\<open>degree[u]--\<close>, enqueue at zero, copy the letter transitions of \<open>v\<close> and the terminal
  flag \<open>vt\<close> read before the loop.\<close>

definition kahn_edge ::
  "nat \<Rightarrow> bool \<Rightarrow> nat \<Rightarrow> automata \<times> 32 word list \<times> nat list \<Rightarrow> (automata \<times> 32 word list \<times> nat list) option" where
  "kahn_edge v vt u s =
     (case s of (A, deg, q) \<Rightarrow>
        if u < length deg \<and> v < length (delta A) \<and> u < length (delta A) \<and> u < length (terminal_states A) then
          (let deg' = deg[u := deg ! u - 1];
               q' = (if deg' ! u = 0 then q @ [u] else q)
           in case add_not_eps (delta A ! v) (delta A ! u) of
                None \<Rightarrow> None
              | Some du \<Rightarrow>
                  Some (A\<lparr>delta := (delta A)[u := du],
                          terminal_states := (terminal_states A)[u := (vt \<or> terminal_states A ! u)]\<rparr>,
                        deg', q'))
        else None)"

partial_function (option) kahn_loop :: "automata \<Rightarrow> 32 word list \<Rightarrow> nat list \<Rightarrow> automata option" where
  "kahn_loop A deg q =
     (case q of
        [] \<Rightarrow> Some A
      | v # q' \<Rightarrow>
          (case nth_opt (terminal_states A) v of
             None \<Rightarrow> None
           | Some vt \<Rightarrow>
               (case trans_at (delta A) v eps_sym of
                  None \<Rightarrow> None
                | Some us \<Rightarrow>
                    (if us \<noteq> [] then
                       (case fold_opt (kahn_edge v vt) us (A, deg, q') of
                          None \<Rightarrow> None
                        | Some (A', deg', q'') \<Rightarrow>
                            kahn_loop (A'\<lparr>delta := (delta A')[v := (delta A' ! v)[eps_sym := []]]\<rparr>) deg' q'')
                     else kahn_loop A deg q'))))"

declare kahn_loop.simps [code]

text \<open>\<^verbatim>\<open>addInterconnections\<close>: the queue starts with the states of in-degree zero.\<close>

definition add_interconnections :: "automata \<Rightarrow> 32 word list \<Rightarrow> automata option" where
  "add_interconnections A deg =
     (case fold_opt (\<lambda>v q. case nth_opt deg v of None \<Rightarrow> None | Some dv \<Rightarrow> Some (if dv = 0 then q @ [v] else q))
             [0..<states_number A] [] of
        None \<Rightarrow> None
      | Some q \<Rightarrow> kahn_loop A deg q)"

definition become_closure :: "automata \<Rightarrow> automata option" where
  "become_closure A =
     (case compress_components A of
        None \<Rightarrow> None
      | Some (A', deg) \<Rightarrow> add_interconnections A' deg)"

section \<open>The language of the automaton as read\<close>

text \<open>
  The specification's reading of the input: from state \<open>p\<close>, the word \<open>w\<close> can lead to
  \<open>q\<close> by the transitions as read, \<^verbatim>\<open>'$'\<close> being \<open>\<epsilon>\<close>; a word is accepted when it
  leads from the entrance \<open>0\<close> to a terminal state.
\<close>

inductive nfa_run :: "(nat \<times> char \<times> nat) list \<Rightarrow> nat \<Rightarrow> char list \<Rightarrow> nat \<Rightarrow> bool" for trs where
  run_nil: "nfa_run trs p [] p"
| run_eps: "(p, CHR ''$'', r) \<in> set trs \<Longrightarrow> nfa_run trs r w q \<Longrightarrow> nfa_run trs p w q"
| run_sym: "(p, c, r) \<in> set trs \<Longrightarrow> c \<noteq> CHR ''$'' \<Longrightarrow> nfa_run trs r w q \<Longrightarrow> nfa_run trs p (c # w) q"

definition nfa_accepts :: "(nat \<times> char \<times> nat) list \<Rightarrow> nat list \<Rightarrow> char list \<Rightarrow> bool" where
  "nfa_accepts trs terms w \<longleftrightarrow> (\<exists>q. nfa_run trs 0 w q \<and> q \<in> set terms)"

section \<open>Well-formed automata\<close>

text \<open>The automata the closure is run on: \<open>n\<close> rows of 27 target sets (sorted lists without
  repetition, as \<^verbatim>\<open>std::set\<close> iterates them), \<open>n\<close> terminal flags, the entrance and every
  target a state.\<close>

definition cell_ok :: "nat \<Rightarrow> nat list \<Rightarrow> bool" where
  "cell_ok c ts \<longleftrightarrow> distinct ts \<and> list_all (\<lambda>u. u < c) ts"

definition rows_wf :: "nat \<Rightarrow> ndstate list \<Rightarrow> bool" where
  "rows_wf c rows \<longleftrightarrow> list_all (\<lambda>row. length row = alph_size \<and> list_all (cell_ok c) row) rows"

definition nfa_wf :: "automata \<Rightarrow> bool" where
  "nfa_wf A \<longleftrightarrow>
     length (delta A) = states_number A \<and> length (terminal_states A) = states_number A \<and>
     entrance A < states_number A \<and> rows_wf (states_number A) (delta A)"

text \<open>The symbols \<^verbatim>\<open>readTransition\<close> accepts: an index of a row.\<close>

definition sym_ok :: "char \<Rightarrow> bool" where
  "sym_ok c \<longleftrightarrow> 0 \<le> symbol_index c \<and> symbol_index c < int alph_size"

end
