(* ===== verification/Nfa_Closure.thy ===== *)
theory Nfa_Closure
  imports Nfa_Good
begin

text \<open>
  Reading errors of the constructor \<^verbatim>\<open>Automata(std::istream&)\<close>, and the closure \<^verbatim>\<open>becomeClosure\<close> of \<^verbatim>\<open>src/2015-06-06/2/good.C\<close> returns on every
  well-formed automaton (\<^const>\<open>Nfa_Good.nfa_wf\<close>): each of its \<^verbatim>\<open>while\<close> loops ends, and
  no \<^verbatim>\<open>operator[]\<close> of it leaves its vector. The loops of \<^verbatim>\<open>fillOrder\<close> and
  \<^verbatim>\<open>fillComponent\<close> end because every push marks a state (the number of unmarked states,
  then the height of the stack, decrease); Kahn's loop of \<^verbatim>\<open>addInterconnections\<close> ends
  because every dequeued state with \<open>\<epsilon>\<close>-edges loses them all (the number of
  \<open>\<epsilon>\<close>-edges, then the length of the queue, decrease). On the way: \<^verbatim>\<open>getOrder\<close> lists
  every state exactly once, and \<^verbatim>\<open>getComponents\<close> gives every state a component below
  their count. The constructor fails exactly on an out-of-range terminal state, source state or
  symbol, and builds a well-formed automaton when the targets are in range as well.
\<close>

section \<open>Measures and invariants of the loops\<close>

text \<open>\<^verbatim>\<open>fillOrder\<close>: the unmarked states; the \<open>\<epsilon>\<close>-targets are states.\<close>

definition count_unused :: "bool list \<Rightarrow> nat" where
  "count_unused used = length (filter Not used)"

definition eps_in_range :: "ndstate list \<Rightarrow> nat \<Rightarrow> bool" where
  "eps_in_range d n \<longleftrightarrow> length d = n \<and> (\<forall>v < n. eps_sym < length (d ! v) \<and> (\<forall>u \<in> set (d ! v ! eps_sym). u < n))"

definition order_inv :: "nat \<Rightarrow> nat list \<Rightarrow> nat list \<Rightarrow> bool list \<Rightarrow> bool" where
  "order_inv n order st used \<longleftrightarrow>
     length used = n \<and> distinct (order @ st) \<and> set order \<union> set st = {i. i < n \<and> used ! i}"

definition used_mono :: "bool list \<Rightarrow> bool list \<Rightarrow> bool" where
  "used_mono used used' \<longleftrightarrow> length used' = length used \<and> (\<forall>i < length used. used ! i \<longrightarrow> used' ! i)"

text \<open>\<^verbatim>\<open>fillComponent\<close> and \<^verbatim>\<open>getComponents\<close>: \<open>n\<close> marks an unassigned state.\<close>

definition count_n :: "nat \<Rightarrow> nat list \<Rightarrow> nat" where
  "count_n n comps = length (filter (\<lambda>x. x = n) comps)"

definition comp_ext :: "nat \<Rightarrow> nat \<Rightarrow> nat list \<Rightarrow> nat list \<Rightarrow> bool" where
  "comp_ext n c xs ys \<longleftrightarrow>
     length ys = length xs \<and> (\<forall>i < length xs. ys ! i = xs ! i \<or> (xs ! i = n \<and> ys ! i = c))"

definition tr_ok :: "nat list list \<Rightarrow> nat \<Rightarrow> bool" where
  "tr_ok tr n \<longleftrightarrow> length tr = n \<and> (\<forall>u < n. \<forall>x \<in> set (tr ! u). x < n)"

definition comp_inv :: "nat \<Rightarrow> nat list \<Rightarrow> nat \<Rightarrow> bool" where
  "comp_inv n comps c \<longleftrightarrow> length comps = n \<and> set comps - {n} = {..<c}"

definition kept :: "nat \<Rightarrow> nat list \<Rightarrow> nat list \<Rightarrow> bool" where
  "kept n xs ys \<longleftrightarrow> length ys = length xs \<and> (\<forall>i < length xs. xs ! i \<noteq> n \<longrightarrow> ys ! i = xs ! i)"

text \<open>\<^verbatim>\<open>compressComponents\<close>: a component vector, and the contracted rows under construction.\<close>

definition comps_ok :: "nat \<Rightarrow> nat \<Rightarrow> nat list \<Rightarrow> bool" where
  "comps_ok n c comps \<longleftrightarrow> length comps = n \<and> (\<forall>w < n. comps ! w < c)"

definition cstate_ok :: "nat \<Rightarrow> nat \<Rightarrow> ndstate list \<times> 32 word list \<Rightarrow> bool" where
  "cstate_ok c n s \<longleftrightarrow> rows_wf c (fst s) \<and> length (fst s) = c \<and> length (snd s) = n"

text \<open>\<^verbatim>\<open>addInterconnections\<close>: the number of \<open>\<epsilon>\<close>-edges, and the state of Kahn's loop.\<close>

definition eps_total :: "ndstate list \<Rightarrow> nat" where
  "eps_total d = sum_list (map (\<lambda>row. length (row ! eps_sym)) d)"

definition kahn_inv :: "automata \<Rightarrow> 32 word list \<Rightarrow> nat list \<Rightarrow> bool" where
  "kahn_inv A deg q \<longleftrightarrow> nfa_wf A \<and> states_number A \<le> length deg \<and> (\<forall>v \<in> set q. v < states_number A)"

section \<open>\<^verbatim>\<open>getOrder\<close>: every state once\<close>

lemma count_unused_mark:
  "i < length used \<Longrightarrow> \<not> used ! i \<Longrightarrow> count_unused (used[i := True]) < count_unused used"
proof (induction used arbitrary: i)
  case Nil
  then show ?case by simp
next
  case (Cons b used)
  then show ?case by (cases i) (auto simp: count_unused_def)
qed

lemma push_unused_old: "u < length used \<Longrightarrow> used ! u \<Longrightarrow> push_unused u (st, used) = Some (st, used)"
  by (simp add: push_unused_def)

lemma push_unused_new: "u < length used \<Longrightarrow> \<not> used ! u \<Longrightarrow> push_unused u (st, used) = Some (u # st, used[u := True])"
  by (simp add: push_unused_def)

lemma used_mono_refl: "used_mono used used"
  by (simp add: used_mono_def)

lemma used_mono_trans: "used_mono a b \<Longrightarrow> used_mono b c \<Longrightarrow> used_mono a c"
  by (simp add: used_mono_def)

lemma order_inv_push:
  assumes "order_inv n order st used" and "u < n" and "\<not> used ! u"
  shows "order_inv n order (u # st) (used[u := True]) \<and> used_mono used (used[u := True])"
proof -
  have "u \<notin> set order \<union> set st" using assms by (auto simp: order_inv_def)
  then show ?thesis using assms by (auto simp: order_inv_def used_mono_def nth_list_update)
qed

lemma push_unused_fold:
  "order_inv n order st used \<Longrightarrow> \<forall>u \<in> set us. u < n \<Longrightarrow>
   \<exists>st' used'. fold_opt push_unused us (st, used) = Some (st', used') \<and> order_inv n order st' used' \<and>
     used_mono used used' \<and> (\<exists>ys. st' = ys @ st) \<and>
     ((st' = st \<and> used' = used) \<or> count_unused used' < count_unused used)"
proof (induction us arbitrary: st used)
  case Nil
  then show ?case by (simp add: used_mono_refl)
next
  case (Cons u us)
  have u: "u < length used" using Cons.prems by (simp add: order_inv_def)
  show ?case
  proof (cases "used ! u")
    case True
    obtain st' used' where "fold_opt push_unused us (st, used) = Some (st', used')" "order_inv n order st' used'"
      "used_mono used used'" "\<exists>ys. st' = ys @ st" "(st' = st \<and> used' = used) \<or> count_unused used' < count_unused used"
      using Cons.IH[of st used] Cons.prems by auto
    then show ?thesis using push_unused_old[OF u True] by auto
  next
    case False
    have lt: "count_unused (used[u := True]) < count_unused used"
      using count_unused_mark[OF u False] .
    have p: "order_inv n order (u # st) (used[u := True])" "used_mono used (used[u := True])"
      using order_inv_push[OF Cons.prems(1) _ False] Cons.prems(2) by auto
    obtain st' used' where r: "fold_opt push_unused us (u # st, used[u := True]) = Some (st', used')"
      and i: "order_inv n order st' used'" and m: "used_mono (used[u := True]) used'"
      and y: "\<exists>ys. st' = ys @ u # st" and c: "(st' = u # st \<and> used' = used[u := True]) \<or> count_unused used' < count_unused (used[u := True])"
      using Cons.IH[OF p(1)] Cons.prems by auto
    have "count_unused used' < count_unused used" using c lt by auto
    moreover have "\<exists>ys. st' = ys @ st" using y by (metis append.assoc append_Cons append_Nil)
    ultimately show ?thesis using r i used_mono_trans[OF p(2) m] push_unused_new[OF u False] by auto
  qed
qed

lemma fill_loop_returns:
  "eps_in_range d n \<Longrightarrow> order_inv n order st used \<Longrightarrow>
   \<exists>order' used'. fill_loop d st used order = Some (order', used') \<and> order_inv n order' [] used' \<and>
     used_mono used used'"
proof (induction "count_unused used" arbitrary: st used order rule: less_induct)
  case less
  note outer = less.hyps
  have d: "eps_in_range d n" by (rule less.prems(1))
  from less.prems(2) show ?case
  proof (induction "length st" arbitrary: st order rule: less_induct)
    case (less st order)
    show ?case
    proof (cases st)
      case Nil
      then show ?thesis using less.prems by (simp add: fill_loop.simps used_mono_refl)
    next
      case (Cons v rest)
      have v: "v < n" using less.prems Cons by (auto simp: order_inv_def)
      have row: "trans_at d v eps_sym = Some (d ! v ! eps_sym)"
        using d v by (simp add: trans_at_def eps_in_range_def)
      have us: "\<forall>u \<in> set (d ! v ! eps_sym). u < n" using d v by (simp add: eps_in_range_def)
      obtain st' used' where f: "fold_opt push_unused (d ! v ! eps_sym) (st, used) = Some (st', used')"
        and i: "order_inv n order st' used'" and m: "used_mono used used'"
        and y: "\<exists>ys. st' = ys @ st" and c: "(st' = st \<and> used' = used) \<or> count_unused used' < count_unused used"
        using push_unused_fold[OF less.prems us] by blast
      have ne: "st' \<noteq> []" using y Cons by auto
      have pop: "order_inv n (order @ [v]) (tl st') used'" if "hd st' = v"
        using i ne that by (cases st') (auto simp: order_inv_def)
      show ?thesis
      proof (cases "count_unused used' < count_unused used")
        case True
        show ?thesis
        proof (cases "hd st' = v")
          case h: True
          obtain o' u' where "fill_loop d (tl st') used' (order @ [v]) = Some (o', u')"
            "order_inv n o' [] u'" "used_mono used' u'"
            using outer[OF True d pop[OF h]] by blast
          then show ?thesis using f row Cons h m by (auto simp: fill_loop.simps intro: used_mono_trans)
        next
          case h: False
          obtain o' u' where "fill_loop d st' used' order = Some (o', u')"
            "order_inv n o' [] u'" "used_mono used' u'"
            using outer[OF True d i] by blast
          then show ?thesis using f row Cons h m by (auto simp: fill_loop.simps intro: used_mono_trans)
        qed
      next
        case False
        then have e: "st' = st" "used' = used" using c by auto
        have "order_inv n (order @ [v]) rest used" using pop e Cons by simp
        then obtain o' u' where "fill_loop d rest used (order @ [v]) = Some (o', u')"
            "order_inv n o' [] u'" "used_mono used u'"
          using less.hyps[of rest "order @ [v]"] Cons by auto
        then show ?thesis using f row Cons e by (auto simp: fill_loop.simps)
      qed
    qed
  qed
qed

lemma get_order_loop:
  "eps_in_range d n \<Longrightarrow> \<forall>v \<in> set vs. v < n \<Longrightarrow> order_inv n order [] used \<Longrightarrow>
   \<exists>order' used'. fold_opt (get_order_step d) vs (order, used) = Some (order', used') \<and>
     order_inv n order' [] used' \<and> used_mono used used' \<and> (\<forall>v \<in> set vs. used' ! v)"
proof (induction vs arbitrary: order used)
  case Nil
  then show ?case by (simp add: used_mono_refl)
next
  case (Cons v vs)
  have v: "v < n" "v < length used" using Cons.prems by (auto simp: order_inv_def)
  obtain o1 u1 where s1: "get_order_step d v (order, used) = Some (o1, u1)" and i1: "order_inv n o1 [] u1"
    and m1: "used_mono used u1" and uv: "u1 ! v"
  proof (cases "used ! v")
    case True
    then show ?thesis using that[of order used] Cons.prems v by (simp add: get_order_step_def used_mono_refl)
  next
    case False
    have "order_inv n order [v] (used[v := True])" "used_mono used (used[v := True])"
      using order_inv_push[OF Cons.prems(3) v(1) False] by auto
    then obtain o1 u1 where "fill_loop d [v] (used[v := True]) order = Some (o1, u1)"
      "order_inv n o1 [] u1" "used_mono (used[v := True]) u1"
      using fill_loop_returns[OF Cons.prems(1)] by blast
    moreover have "u1 ! v" using calculation(3) v by (simp add: used_mono_def)
    ultimately show ?thesis
      using that[of o1 u1] False v \<open>used_mono used (used[v := True])\<close>
      by (simp add: get_order_step_def fill_order_def) (meson used_mono_trans)
  qed
  obtain o2 u2 where "fold_opt (get_order_step d) vs (o1, u1) = Some (o2, u2)" "order_inv n o2 [] u2"
    "used_mono u1 u2" "\<forall>v \<in> set vs. u2 ! v"
    using Cons.IH[OF Cons.prems(1) _ i1] Cons.prems(2) by auto
  moreover have "u2 ! v" using calculation(3) uv v m1 by (simp add: used_mono_def)
  ultimately show ?case using s1 m1 by (auto intro: used_mono_trans)
qed

lemma get_order_perm:
  assumes "eps_in_range (delta A) (states_number A)"
  shows "\<exists>order. get_order A = Some order \<and> distinct order \<and> set order = {..<states_number A}"
proof -
  let ?n = "states_number A"
  have "order_inv ?n [] [] (replicate ?n False)" by (simp add: order_inv_def)
  from get_order_loop[OF assms _ this, of "[0..<?n]"]
  obtain order used where r: "fold_opt (get_order_step (delta A)) [0..<?n] ([], replicate ?n False) = Some (order, used)"
    and i: "order_inv ?n order [] used" and a: "\<forall>v \<in> set [0..<?n]. used ! v"
    by auto
  have "set order = {..<?n}" using i a by (auto simp: order_inv_def)
  then show ?thesis using r i by (simp add: get_order_def order_inv_def)
qed

section \<open>\<^verbatim>\<open>getComponents\<close>: every state in a component\<close>

lemma set_insert_set: "set (fst (set_insert x xs)) = insert x (set xs)"
  by (auto simp: set_insert_def set_insort_key)

lemma comp_ext_refl: "comp_ext n c xs xs"
  by (simp add: comp_ext_def)

lemma comp_ext_trans: "comp_ext n c xs ys \<Longrightarrow> comp_ext n c ys zs \<Longrightarrow> comp_ext n c xs zs"
  unfolding comp_ext_def by (metis)

lemma count_n_assign:
  assumes "u < length xs" "xs ! u = n" "c \<noteq> n"
  shows "count_n n (xs[u := c]) < count_n n xs"
proof -
  have "count_n n xs = count_n n (xs[u := c]) + 1"
    using assms unfolding count_n_def
  proof (induction xs arbitrary: u)
    case (Cons x xs)
    then show ?case by (cases u) auto
  qed simp
  then show ?thesis by simp
qed

lemma set_assign_unassigned:
  assumes "v < length xs" "xs ! v = n" "c \<noteq> n"
  shows "set (xs[v := c]) - {n} = insert c (set xs - {n})"
proof
  show "set (xs[v := c]) - {n} \<subseteq> insert c (set xs - {n})"
    using set_update_subset_insert[of xs v c] by blast
  show "insert c (set xs - {n}) \<subseteq> set (xs[v := c]) - {n}"
  proof
    fix y assume y: "y \<in> insert c (set xs - {n})"
    show "y \<in> set (xs[v := c]) - {n}"
    proof (cases "y = c")
      case True
      then show ?thesis using assms by (simp add: set_update_memI)
    next
      case False
      then obtain i where "i < length xs" "xs ! i = y" "y \<noteq> n" using y by (auto simp: in_set_conv_nth)
      moreover then have "i \<noteq> v" using assms by auto
      ultimately show ?thesis by (metis DiffI insertE length_list_update nth_list_update_neq nth_mem singletonD)
    qed
  qed
qed

lemma comp_ext_set:
  assumes "comp_ext n c xs ys" "c \<in> set xs" "c \<noteq> n"
  shows "set ys - {n} = set xs - {n}"
proof
  show "set ys - {n} \<subseteq> set xs - {n}"
    using assms by (fastforce simp: comp_ext_def in_set_conv_nth)
  show "set xs - {n} \<subseteq> set ys - {n}"
  proof
    fix y assume "y \<in> set xs - {n}"
    then obtain i where "i < length xs" "xs ! i = y" "y \<noteq> n" by (auto simp: in_set_conv_nth)
    then show "y \<in> set ys - {n}" using assms(1) unfolding comp_ext_def by (metis DiffI nth_mem singletonD)
  qed
qed

lemma push_unassigned_fold:
  "c \<noteq> n \<Longrightarrow> \<forall>u \<in> set us. u < length comps \<Longrightarrow>
   \<exists>st' comps'. fold_opt (push_unassigned n c) us (st, comps) = Some (st', comps') \<and>
     comp_ext n c comps comps' \<and> set st' \<subseteq> set st \<union> set us \<and>
     ((st' = st \<and> comps' = comps) \<or> count_n n comps' < count_n n comps)"
proof (induction us arbitrary: st comps)
  case Nil
  then show ?case by (simp add: comp_ext_refl)
next
  case (Cons u us)
  have u: "u < length comps" using Cons.prems by simp
  show ?case
  proof (cases "comps ! u = n")
    case False
    then show ?thesis using Cons.IH[of comps st] Cons.prems u by (auto simp: push_unassigned_def)
  next
    case True
    have lt: "count_n n (comps[u := c]) < count_n n comps" using count_n_assign[OF u True Cons.prems(1)] .
    have e: "comp_ext n c comps (comps[u := c])"
      unfolding comp_ext_def using True by (metis length_list_update nth_list_update_eq nth_list_update_neq)
    obtain st' comps' where r: "fold_opt (push_unassigned n c) us (u # st, comps[u := c]) = Some (st', comps')"
      and e': "comp_ext n c (comps[u := c]) comps'" and s: "set st' \<subseteq> set (u # st) \<union> set us"
      and d: "(st' = u # st \<and> comps' = comps[u := c]) \<or> count_n n comps' < count_n n (comps[u := c])"
      using Cons.IH[of "comps[u := c]" "u # st"] Cons.prems by auto
    have step: "fold_opt (push_unassigned n c) (u # us) (st, comps) =
        fold_opt (push_unassigned n c) us (u # st, comps[u := c])"
      using u True by (simp add: push_unassigned_def)
    have "count_n n comps' < count_n n comps" using d lt by auto
    moreover have "set st' \<subseteq> set st \<union> set (u # us)" using s by auto
    ultimately show ?thesis using step r comp_ext_trans[OF e e'] by auto
  qed
qed

lemma fill_comp_loop_returns:
  "tr_ok tr n \<Longrightarrow> c \<noteq> n \<Longrightarrow> length comps = n \<Longrightarrow> \<forall>x \<in> set st. x < n \<Longrightarrow>
   \<exists>comps'. fill_comp_loop tr n c st comps = Some comps' \<and> comp_ext n c comps comps'"
proof (induction "count_n n comps" arbitrary: st comps rule: less_induct)
  case less
  note outer = less.hyps
  have t: "tr_ok tr n" "c \<noteq> n" by (rule less.prems)+
  from less.prems(3,4) show ?case
  proof (induction "length st" arbitrary: st rule: less_induct)
    case (less st)
    show ?case
    proof (cases st)
      case Nil
      then show ?thesis by (simp add: fill_comp_loop.simps comp_ext_refl)
    next
      case (Cons v rest)
      have v: "v < length tr" "v < n" using less.prems Cons t by (auto simp: tr_ok_def)
      have us: "\<forall>u \<in> set (tr ! v). u < length comps" using t v less.prems by (auto simp: tr_ok_def)
      obtain st' comps' where f: "fold_opt (push_unassigned n c) (tr ! v) (rest, comps) = Some (st', comps')"
        and e: "comp_ext n c comps comps'" and s: "set st' \<subseteq> set rest \<union> set (tr ! v)"
        and d: "(st' = rest \<and> comps' = comps) \<or> count_n n comps' < count_n n comps"
        using push_unassigned_fold[OF t(2) us] by blast
      have st': "\<forall>x \<in> set st'. x < n" using s less.prems Cons us by auto
      have len: "length comps' = n" using e less.prems by (simp add: comp_ext_def)
      show ?thesis
      proof (cases "count_n n comps' < count_n n comps")
        case True
        then obtain r where "fill_comp_loop tr n c st' comps' = Some r" "comp_ext n c comps' r"
          using outer[OF True t len st'] by blast
        then show ?thesis using f Cons v e by (auto simp: fill_comp_loop.simps intro: comp_ext_trans)
      next
        case False
        then have "st' = rest" "comps' = comps" using d by auto
        moreover obtain r where "fill_comp_loop tr n c rest comps = Some r" "comp_ext n c comps r"
          using less.hyps[of rest] less.prems Cons by auto
        ultimately show ?thesis using f Cons v by (simp add: fill_comp_loop.simps)
      qed
    qed
  qed
qed

lemma kept_trans: "kept n xs ys \<Longrightarrow> kept n ys zs \<Longrightarrow> kept n xs zs"
  by (simp add: kept_def)

lemma comp_ext_kept: "comp_ext n c xs ys \<Longrightarrow> kept n xs ys"
  by (auto simp: comp_ext_def kept_def)

lemma transposed_ok:
  assumes "eps_in_range (delta A) (states_number A)"
  shows "\<exists>tr. transposed A eps_sym = Some tr \<and> tr_ok tr (states_number A)"
  unfolding transposed_def
proof (rule fold_opt_inv)
  let ?n = "states_number A"
  show "tr_ok (replicate ?n []) ?n" by (simp add: tr_ok_def)
  fix v tr assume v: "v \<in> set [0..<?n]" and t: "tr_ok tr ?n"
  have row: "trans_at (delta A) v eps_sym = Some (delta A ! v ! eps_sym)"
    and us: "\<forall>u \<in> set (delta A ! v ! eps_sym). u < ?n"
    using assms v by (auto simp: trans_at_def eps_in_range_def)
  have "\<exists>tr'. fold_opt (\<lambda>u tr. if u < length tr then Some (tr[u := fst (set_insert v (tr ! u))]) else None)
               (delta A ! v ! eps_sym) tr = Some tr' \<and> tr_ok tr' ?n"
  proof (rule fold_opt_inv[where P = "\<lambda>tr. tr_ok tr ?n", OF t])
    fix u tr assume "u \<in> set (delta A ! v ! eps_sym)" "tr_ok tr ?n"
    then show "\<exists>tr'. (if u < length tr then Some (tr[u := fst (set_insert v (tr ! u))]) else None) = Some tr' \<and> tr_ok tr' ?n"
      using us v by (auto simp: tr_ok_def nth_list_update set_insert_set)
  qed
  then show "\<exists>tr'. transpose_step (delta A) eps_sym v tr = Some tr' \<and> tr_ok tr' ?n"
    using row by (simp add: transpose_step_def)
qed

lemma card_unassigned:
  assumes "comp_inv n comps c" "v < length comps" "comps ! v = n"
  shows "c < n"
proof -
  have "n \<in> set comps" using assms(2,3) by (metis nth_mem)
  then have "card (set comps - {n}) < card (set comps)" by (rule card_Diff1_less[OF finite_set])
  also have "\<dots> \<le> n" using assms(1) card_length[of comps] by (simp add: comp_inv_def)
  finally show ?thesis using assms(1) by (simp add: comp_inv_def)
qed

lemma components_step_ok:
  assumes tr: "tr_ok tr n" and ord: "length order = n" "set order \<subseteq> {..<n}" and i: "i < n"
    and inv: "comp_inv n comps c"
  shows "\<exists>comps' c'. components_step tr n order i (comps, c) = Some (comps', c') \<and> comp_inv n comps' c' \<and>
           kept n comps comps' \<and> comps' ! (order ! (n - i - 1)) \<noteq> n"
proof -
  let ?v = "order ! (n - i - 1)"
  have j: "n - i - 1 < length order" using ord i by simp
  have v: "?v < n" "?v < length comps" using nth_mem[OF j] ord inv by (auto simp: comp_inv_def)
  show ?thesis
  proof (cases "comps ! ?v = n")
    case False
    have "components_step tr n order i (comps, c) = Some (comps, c)"
      using j v False by (simp add: components_step_def Let_def)
    then show ?thesis using inv False by (simp add: kept_def)
  next
    case True
    have cn: "c < n" using card_unassigned[OF inv v(2) True] .
    let ?cs = "comps[?v := c]"
    obtain r where r: "fill_comp_loop tr n c [?v] ?cs = Some r" and e: "comp_ext n c ?cs r"
      using fill_comp_loop_returns[OF tr, of c ?cs "[?v]"] cn v inv by (auto simp: comp_inv_def)
    have cin: "c \<in> set ?cs" using v by (simp add: set_update_memI)
    have "set r - {n} = set ?cs - {n}" using comp_ext_set[OF e cin] cn by simp
    also have "\<dots> = insert c {..<c}"
      using set_assign_unassigned[OF v(2) True] cn inv by (simp add: comp_inv_def)
    finally have s: "set r - {n} = {..<Suc c}" by (simp add: lessThan_Suc)
    have k: "kept n comps r"
    proof (rule kept_trans[OF _ comp_ext_kept[OF e]])
      show "kept n comps ?cs" unfolding kept_def using True by (metis length_list_update nth_list_update_neq)
    qed
    have "r ! ?v \<noteq> n" using e v cn by (auto simp: comp_ext_def)
    moreover have "components_step tr n order i (comps, c) = Some (r, Suc c)"
      using j v True r by (simp add: components_step_def fill_component_def Let_def)
    moreover have "comp_inv n r (Suc c)" using s e inv by (simp add: comp_inv_def comp_ext_def)
    ultimately show ?thesis using k by blast
  qed
qed

lemma components_loop:
  "tr_ok tr n \<Longrightarrow> length order = n \<Longrightarrow> set order \<subseteq> {..<n} \<Longrightarrow> \<forall>i \<in> set is. i < n \<Longrightarrow>
   comp_inv n comps c \<Longrightarrow>
   \<exists>comps' c'. fold_opt (components_step tr n order) is (comps, c) = Some (comps', c') \<and>
     comp_inv n comps' c' \<and> kept n comps comps' \<and> (\<forall>i \<in> set is. comps' ! (order ! (n - i - 1)) \<noteq> n)"
proof (induction "is" arbitrary: comps c)
  case Nil
  then show ?case by (simp add: kept_def)
next
  case (Cons i "is")
  obtain c1 k1 where s: "components_step tr n order i (comps, c) = Some (c1, k1)"
    and i1: "comp_inv n c1 k1" and kp1: "kept n comps c1" and a1: "c1 ! (order ! (n - i - 1)) \<noteq> n"
    using components_step_ok[OF Cons.prems(1-3) _ Cons.prems(5), of i] Cons.prems(4) by auto
  obtain c2 k2 where r: "fold_opt (components_step tr n order) is (c1, k1) = Some (c2, k2)"
    and i2: "comp_inv n c2 k2" and kp2: "kept n c1 c2" and a2: "\<forall>i \<in> set is. c2 ! (order ! (n - i - 1)) \<noteq> n"
    using Cons.IH[OF Cons.prems(1-3) _ i1] Cons.prems(4) by auto
  have "n - i - 1 < length order" using Cons.prems(2,4) by simp
  then have "order ! (n - i - 1) < length c1"
    using Cons.prems(3) i1 nth_mem unfolding comp_inv_def by blast
  then have "c2 ! (order ! (n - i - 1)) \<noteq> n" using kp2 a1 by (simp add: kept_def)
  then show ?case using s r i2 kept_trans[OF kp1 kp2] a2 by simp
qed

lemma get_components_ok:
  assumes "eps_in_range (delta A) (states_number A)"
  shows "\<exists>comps c. get_components A = Some (comps, c) \<and> length comps = states_number A \<and>
           c \<le> states_number A \<and> (\<forall>v < states_number A. comps ! v < c)"
proof -
  let ?n = "states_number A"
  obtain order where o: "get_order A = Some order" "distinct order" "set order = {..<?n}"
    using get_order_perm[OF assms] by blast
  have lo: "length order = ?n" using o distinct_card by fastforce
  obtain tr where t: "transposed A eps_sym = Some tr" "tr_ok tr ?n" using transposed_ok[OF assms] by blast
  have i0: "comp_inv ?n (replicate ?n ?n) 0" by (auto simp: comp_inv_def)
  obtain comps c where r: "fold_opt (components_step tr ?n order) [0..<?n] (replicate ?n ?n, 0) = Some (comps, c)"
    and i: "comp_inv ?n comps c" and a: "\<forall>i \<in> set [0..<?n]. comps ! (order ! (?n - i - 1)) \<noteq> ?n"
    using components_loop[OF t(2) lo _ _ i0, of "[0..<?n]"] o by auto
  have all: "comps ! v \<noteq> ?n" if "v < ?n" for v
  proof -
    have "v \<in> set order" using that o(3) by simp
    then obtain j where "j < ?n" "order ! j = v" using lo by (auto simp: in_set_conv_nth)
    then show ?thesis using a[rule_format, of "?n - j - 1"] by auto
  qed
  have e: "set comps - {?n} = {..<c}" "length comps = ?n" using i by (simp_all add: comp_inv_def)
  have lt: "comps ! v < c" if "v < ?n" for v
  proof -
    have "comps ! v \<in> set comps" using e(2) that by simp
    then have "comps ! v \<in> set comps - {?n}" using all[OF that] by blast
    then show ?thesis using e(1) by blast
  qed
  have "card (set comps - {?n}) \<le> card (set comps)" by (simp add: card_Diff1_le)
  then have "card {..<c} \<le> ?n" using i card_length[of comps] by (simp add: comp_inv_def)
  then show ?thesis using r t o lt i by (simp add: get_components_def comp_inv_def)
qed

section \<open>\<^verbatim>\<open>compressComponents\<close>: a well-formed contracted automaton\<close>

lemma rows_wf_nth:
  "rows_wf c rows \<Longrightarrow> v < length rows \<Longrightarrow> a < alph_size \<Longrightarrow>
   trans_at rows v a = Some (rows ! v ! a) \<and> (\<forall>u \<in> set (rows ! v ! a). u < c)"
  unfolding rows_wf_def cell_ok_def list_all_iff trans_at_def by (metis nth_mem)

lemma rows_wf_cell: "rows_wf c rows \<Longrightarrow> v < length rows \<Longrightarrow> a < alph_size \<Longrightarrow> cell_ok c (rows ! v ! a)"
  unfolding rows_wf_def list_all_iff by (metis nth_mem)

lemma cell_ok_insert: "cell_ok c ts \<Longrightarrow> t < c \<Longrightarrow> cell_ok c (fst (set_insert t ts))"
  by (auto simp: cell_ok_def set_insert_def list_all_iff distinct_insort set_insort_key)

lemma rows_wf_row_length: "rows_wf c rows \<Longrightarrow> v < length rows \<Longrightarrow> length (rows ! v) = alph_size"
  by (simp add: rows_wf_def list_all_length)

lemma nfa_wf_eps_in_range: "nfa_wf A \<Longrightarrow> eps_in_range (delta A) (states_number A)"
  using rows_wf_nth[of "states_number A" "delta A" _ eps_sym] rows_wf_row_length[of "states_number A" "delta A"]
  by (auto simp: nfa_wf_def eps_in_range_def trans_at_def eps_sym_def alph_size_def)

lemma rows_wf_update:
  "rows_wf c rows \<Longrightarrow> length row = alph_size \<Longrightarrow> list_all (cell_ok c) row \<Longrightarrow>
   rows_wf c (rows[v := row])"
  unfolding rows_wf_def by (rule list_all_update) simp_all

lemma rows_wf_row: "rows_wf c rows \<Longrightarrow> v < length rows \<Longrightarrow> list_all (cell_ok c) (rows ! v)"
  by (simp add: rows_wf_def list_all_length)

lemma trans_insert_wf:
  assumes "rows_wf c nd" "v < length nd" "a < alph_size" "t < c"
  shows "\<exists>nd' new. trans_insert nd v a t = Some (nd', new) \<and> rows_wf c nd' \<and> length nd' = length nd"
proof -
  have r: "trans_at nd v a = Some (nd ! v ! a)" "length (nd ! v) = alph_size"
    using rows_wf_nth[OF assms(1-3)] rows_wf_row_length[OF assms(1,2)] by auto
  let ?row = "(nd ! v)[a := fst (set_insert t (nd ! v ! a))]"
  have "cell_ok c (fst (set_insert t (nd ! v ! a)))"
    using cell_ok_insert[OF rows_wf_cell[OF assms(1-3)] assms(4)] .
  then have "list_all (cell_ok c) ?row"
    by (rule list_all_update[OF rows_wf_row[OF assms(1,2)]])
  then have "rows_wf c (nd[v := ?row])" using rows_wf_update assms(1) r(2) by simp
  moreover obtain ts' new where si: "set_insert t (nd ! v ! a) = (ts', new)" by fastforce
  ultimately show ?thesis using r by (simp add: trans_insert_def)
qed

lemma compress_letter_ok:
  assumes "comps_ok n c comps" "v < n" "u < n" "a < alph_size" "rows_wf c nd" "length nd = c"
  shows "\<exists>nd'. compress_letter comps v a u nd = Some nd' \<and> rows_wf c nd' \<and> length nd' = c"
proof -
  have "comps ! v < length nd" "comps ! u < c" using assms by (auto simp: comps_ok_def)
  then obtain nd' new where "trans_insert nd (comps ! v) a (comps ! u) = Some (nd', new)"
    "rows_wf c nd'" "length nd' = length nd"
    using trans_insert_wf[OF assms(5) _ assms(4)] by blast
  then show ?thesis using assms by (simp add: compress_letter_def nth_opt_def comps_ok_def)
qed

lemma compress_eps_ok:
  assumes "comps_ok n c comps" "c \<le> n" "v < n" "u < n" "cstate_ok c n s"
  shows "\<exists>s'. compress_eps comps v u s = Some s' \<and> cstate_ok c n s'"
proof -
  obtain nd deg where s: "s = (nd, deg)" by fastforce
  have cv: "comps ! v < c" "comps ! u < c" "comps ! u < length nd" "comps ! v < length deg"
    using assms s by (auto simp: comps_ok_def cstate_ok_def)
  have e: "eps_sym < alph_size" by (simp add: eps_sym_def alph_size_def)
  show ?thesis
  proof (cases "comps ! v = comps ! u")
    case True
    then show ?thesis using assms s by (simp add: compress_eps_def nth_opt_def comps_ok_def)
  next
    case False
    obtain nd' new where t: "trans_insert nd (comps ! u) eps_sym (comps ! v) = Some (nd', new)"
      "rows_wf c nd'" "length nd' = length nd"
      using trans_insert_wf[OF _ cv(3) e cv(1)] assms(5) s by (auto simp: cstate_ok_def)
    then show ?thesis using assms s False cv by (simp add: compress_eps_def nth_opt_def comps_ok_def cstate_ok_def)
  qed
qed

lemma compress_row_ok:
  assumes wf: "nfa_wf A" and co: "comps_ok (states_number A) c comps" and cn: "c \<le> states_number A"
    and v: "v < states_number A" and s: "cstate_ok c (states_number A) s"
  shows "\<exists>s'. compress_row comps (delta A) v s = Some s' \<and> cstate_ok c (states_number A) s'"
proof -
  let ?n = "states_number A"
  have row: "trans_at (delta A) v a = Some (delta A ! v ! a) \<and> (\<forall>u \<in> set (delta A ! v ! a). u < ?n)"
    if "a < alph_size" for a
    using rows_wf_nth[of ?n "delta A" v a] wf v that by (simp add: nfa_wf_def)
  have "\<exists>s'. fold_opt (\<lambda>a s. case s of (nd, deg) \<Rightarrow>
                       (case trans_at (delta A) v a of
                          None \<Rightarrow> None
                        | Some us \<Rightarrow> map_option (\<lambda>nd'. (nd', deg)) (fold_opt (compress_letter comps v a) us nd)))
            [0..<alph_size - 1] s = Some s' \<and> cstate_ok c ?n s'"
  proof (rule fold_opt_inv[where P = "cstate_ok c ?n", OF s])
    fix a s assume a: "a \<in> set [0..<alph_size - 1]" and s: "cstate_ok c ?n s"
    obtain nd deg where sd: "s = (nd, deg)" by fastforce
    have al: "a < alph_size" using a by simp
    have "\<exists>nd'. fold_opt (compress_letter comps v a) (delta A ! v ! a) nd = Some nd' \<and> rows_wf c nd' \<and> length nd' = c"
    proof (rule fold_opt_inv[where P = "\<lambda>nd. rows_wf c nd \<and> length nd = c"])
      show "rows_wf c nd \<and> length nd = c" using s sd by (simp add: cstate_ok_def)
      fix u nd assume "u \<in> set (delta A ! v ! a)" "rows_wf c nd \<and> length nd = c"
      then show "\<exists>nd'. compress_letter comps v a u nd = Some nd' \<and> rows_wf c nd' \<and> length nd' = c"
        using compress_letter_ok[OF co v _ al] row[OF al] by blast
    qed
    then show "\<exists>s'. (case s of (nd, deg) \<Rightarrow>
                       (case trans_at (delta A) v a of
                          None \<Rightarrow> None
                        | Some us \<Rightarrow> map_option (\<lambda>nd'. (nd', deg)) (fold_opt (compress_letter comps v a) us nd)))
                  = Some s' \<and> cstate_ok c ?n s'"
      using sd s row[OF al] by (auto simp: cstate_ok_def)
  qed
  then obtain s1 where s1: "fold_opt (\<lambda>a s. case s of (nd, deg) \<Rightarrow>
                       (case trans_at (delta A) v a of
                          None \<Rightarrow> None
                        | Some us \<Rightarrow> map_option (\<lambda>nd'. (nd', deg)) (fold_opt (compress_letter comps v a) us nd)))
            [0..<alph_size - 1] s = Some s1" and c1: "cstate_ok c ?n s1" by blast
  have e: "eps_sym < alph_size" by (simp add: eps_sym_def alph_size_def)
  have "\<exists>s2. fold_opt (compress_eps comps v) (delta A ! v ! eps_sym) s1 = Some s2 \<and> cstate_ok c ?n s2"
  proof (rule fold_opt_inv[where P = "cstate_ok c ?n", OF c1])
    fix u s assume "u \<in> set (delta A ! v ! eps_sym)" "cstate_ok c ?n s"
    then show "\<exists>s'. compress_eps comps v u s = Some s' \<and> cstate_ok c ?n s'"
      using compress_eps_ok[OF co cn v] row[OF e] by blast
  qed
  then show ?thesis using s1 row[OF e] by (simp add: compress_row_def)
qed

lemma compress_components_ok:
  assumes wf: "nfa_wf A"
  shows "\<exists>A' deg. compress_components A = Some (A', deg) \<and> nfa_wf A' \<and>
           length deg = states_number A \<and> states_number A' \<le> states_number A"
proof -
  let ?n = "states_number A"
  obtain comps c where g: "get_components A = Some (comps, c)" "length comps = ?n" "c \<le> ?n"
    "\<forall>v < ?n. comps ! v < c"
    using get_components_ok[OF nfa_wf_eps_in_range[OF wf]] by blast
  have co: "comps_ok ?n c comps" using g by (simp add: comps_ok_def)
  have s0: "cstate_ok c ?n (replicate c (replicate alph_size []), replicate ?n 0)"
    by (simp add: cstate_ok_def rows_wf_def cell_ok_def list_all_iff)
  have "\<exists>s. fold_opt (compress_row comps (delta A)) [0..<?n] (replicate c (replicate alph_size []), replicate ?n 0)
          = Some s \<and> cstate_ok c ?n s"
  proof (rule fold_opt_inv[where P = "cstate_ok c ?n", OF s0])
    fix v s assume "v \<in> set [0..<?n]" "cstate_ok c ?n s"
    then show "\<exists>s'. compress_row comps (delta A) v s = Some s' \<and> cstate_ok c ?n s'"
      using compress_row_ok[OF wf co g(3)] by simp
  qed
  then obtain nd deg where r: "fold_opt (compress_row comps (delta A)) [0..<?n]
      (replicate c (replicate alph_size []), replicate ?n 0) = Some (nd, deg)" and cs: "cstate_ok c ?n (nd, deg)"
    by auto
  have "\<exists>nt. fold_opt (compress_terminal comps (terminal_states A)) [0..<?n] (replicate c False) = Some nt \<and>
          length nt = c"
  proof (rule fold_opt_inv[where P = "\<lambda>nt::bool list. length nt = c"])
    fix v and nt :: "bool list" assume "v \<in> set [0..<?n]" "length nt = c"
    then show "\<exists>nt'. compress_terminal comps (terminal_states A) v nt = Some nt' \<and> length nt' = c"
      using g wf by (simp add: compress_terminal_def nfa_wf_def)
  qed simp
  then obtain nt where t: "fold_opt (compress_terminal comps (terminal_states A)) [0..<?n] (replicate c False) = Some nt"
    "length nt = c" by blast
  have e: "entrance A < ?n" using wf by (simp add: nfa_wf_def)
  then have "nth_opt comps (entrance A) = Some (comps ! entrance A)" "comps ! entrance A < c"
    using g by (simp_all add: nth_opt_def)
  then show ?thesis using r cs t g(3) by (simp add: compress_components_def g(1) nfa_wf_def cstate_ok_def)
qed

section \<open>\<^verbatim>\<open>addInterconnections\<close>: Kahn's loop ends\<close>

lemma set_fold_set_insert: "set (fold (\<lambda>x acc. fst (set_insert x acc)) xs acc) = set xs \<union> set acc"
  by (induction xs arbitrary: acc) (auto simp: set_insert_set)

lemma cell_ok_fold_insert:
  "list_all (\<lambda>u. u < c) xs \<Longrightarrow> cell_ok c acc \<Longrightarrow> cell_ok c (fold (\<lambda>x acc. fst (set_insert x acc)) xs acc)"
  by (induction xs arbitrary: acc) (auto simp: cell_ok_insert)

lemma add_not_eps_ok:
  assumes "length src = alph_size" "length dst = alph_size"
    "list_all (cell_ok c) src" "list_all (cell_ok c) dst"
  shows "\<exists>dst'. add_not_eps src dst = Some dst' \<and> length dst' = alph_size \<and> dst' ! eps_sym = dst ! eps_sym \<and>
           list_all (cell_ok c) dst'"
  unfolding add_not_eps_def
proof (rule fold_opt_inv[where P = "\<lambda>d. length d = alph_size \<and> d ! eps_sym = dst ! eps_sym \<and>
                                         list_all (cell_ok c) d"])
  show "length dst = alph_size \<and> dst ! eps_sym = dst ! eps_sym \<and> list_all (cell_ok c) dst"
    using assms by simp
  fix a d assume a: "a \<in> set [0..<alph_size - 1]"
    and d: "length d = alph_size \<and> d ! eps_sym = dst ! eps_sym \<and> list_all (cell_ok c) d"
  have al: "a < alph_size" "a \<noteq> eps_sym" using a by (auto simp: alph_size_def eps_sym_def)
  let ?x = "fold (\<lambda>x acc. fst (set_insert x acc)) (src ! a) (d ! a)"
  have "cell_ok c (src ! a)" "cell_ok c (d ! a)"
    using assms(1,3) d al by (simp_all add: list_all_length)
  then have "cell_ok c ?x" by (intro cell_ok_fold_insert) (simp_all add: cell_ok_def)
  moreover have "list_all (cell_ok c) d" using d by simp
  ultimately have "list_all (cell_ok c) (d[a := ?x])" by (simp add: list_all_update)
  then show "\<exists>d'. (if a < length src \<and> a < length d then Some (d[a := ?x]) else None) = Some d' \<and>
                  length d' = alph_size \<and> d' ! eps_sym = dst ! eps_sym \<and> list_all (cell_ok c) d'"
    using al d assms(1) by simp
qed

lemma eps_total_eq: "map (\<lambda>r. r ! eps_sym) d' = map (\<lambda>r. r ! eps_sym) d \<Longrightarrow> eps_total d' = eps_total d"
proof -
  have "eps_total d = sum_list (map length (map (\<lambda>r. r ! eps_sym) d))" for d
    by (simp add: eps_total_def comp_def)
  then show "map (\<lambda>r. r ! eps_sym) d' = map (\<lambda>r. r ! eps_sym) d \<Longrightarrow> eps_total d' = eps_total d" by metis
qed

lemma kahn_edge_ok:
  assumes k: "kahn_inv A deg q" and v: "v < states_number A" and u: "u < states_number A"
  shows "\<exists>A' deg' q'. kahn_edge v vt u (A, deg, q) = Some (A', deg', q') \<and> kahn_inv A' deg' q' \<and>
           map (\<lambda>r. r ! eps_sym) (delta A') = map (\<lambda>r. r ! eps_sym) (delta A) \<and>
           states_number A' = states_number A"
proof -
  let ?n = "states_number A"
  have wf: "length (delta A) = ?n" "length (terminal_states A) = ?n" "rows_wf ?n (delta A)" "?n \<le> length deg"
    using k by (simp_all add: kahn_inv_def nfa_wf_def)
  obtain du where du: "add_not_eps (delta A ! v) (delta A ! u) = Some du" "length du = alph_size"
    "du ! eps_sym = delta A ! u ! eps_sym" "list_all (cell_ok ?n) du"
  proof -
    have "v < length (delta A)" "u < length (delta A)" using v u wf(1) by simp_all
    from add_not_eps_ok[OF rows_wf_row_length[OF wf(3) this(1)] rows_wf_row_length[OF wf(3) this(2)]
                            rows_wf_row[OF wf(3) this(1)] rows_wf_row[OF wf(3) this(2)]] that
    show thesis by blast
  qed
  let ?A' = "A\<lparr>delta := (delta A)[u := du],
                terminal_states := (terminal_states A)[u := (vt \<or> terminal_states A ! u)]\<rparr>"
  let ?deg' = "deg[u := deg ! u - 1]"
  let ?q' = "if ?deg' ! u = 0 then q @ [u] else q"
  have r: "kahn_edge v vt u (A, deg, q) = Some (?A', ?deg', ?q')"
    using du(1) u v wf by (simp add: kahn_edge_def Let_def)
  have "rows_wf ?n ((delta A)[u := du])" using rows_wf_update[OF wf(3) du(2,4)] .
  then have "kahn_inv ?A' ?deg' ?q'" using k u wf by (simp add: kahn_inv_def nfa_wf_def)
  moreover have "map (\<lambda>r. r ! eps_sym) ((delta A)[u := du]) = map (\<lambda>r. r ! eps_sym) (delta A)"
    using map_update_same[of u "delta A"] u wf(1) du(3) by simp
  ultimately show ?thesis using r by auto
qed

lemma kahn_edges_ok:
  assumes "kahn_inv A deg q" "v < states_number A" "\<forall>u \<in> set us. u < states_number A"
  shows "\<exists>A' deg' q'. fold_opt (kahn_edge v vt) us (A, deg, q) = Some (A', deg', q') \<and> kahn_inv A' deg' q' \<and>
           map (\<lambda>r. r ! eps_sym) (delta A') = map (\<lambda>r. r ! eps_sym) (delta A) \<and>
           states_number A' = states_number A"
proof -
  have "\<exists>s'. fold_opt (kahn_edge v vt) us (A, deg, q) = Some s' \<and>
          (case s' of (A', deg', q') \<Rightarrow> kahn_inv A' deg' q' \<and>
             map (\<lambda>r. r ! eps_sym) (delta A') = map (\<lambda>r. r ! eps_sym) (delta A) \<and>
             states_number A' = states_number A)"
  proof (rule fold_opt_inv)
    show "case (A, deg, q) of (A', deg', q') \<Rightarrow> kahn_inv A' deg' q' \<and>
             map (\<lambda>r. r ! eps_sym) (delta A') = map (\<lambda>r. r ! eps_sym) (delta A) \<and>
             states_number A' = states_number A" using assms(1) by simp
    fix u s assume u: "u \<in> set us" and s: "case s of (A', deg', q') \<Rightarrow> kahn_inv A' deg' q' \<and>
             map (\<lambda>r. r ! eps_sym) (delta A') = map (\<lambda>r. r ! eps_sym) (delta A) \<and>
             states_number A' = states_number A"
    obtain A1 d1 q1 where s1: "s = (A1, d1, q1)" by (cases s) auto
    show "\<exists>s'. kahn_edge v vt u s = Some s' \<and> (case s' of (A', deg', q') \<Rightarrow> kahn_inv A' deg' q' \<and>
             map (\<lambda>r. r ! eps_sym) (delta A') = map (\<lambda>r. r ! eps_sym) (delta A) \<and>
             states_number A' = states_number A)"
      using kahn_edge_ok[of A1 d1 q1 v u vt] s s1 u assms(2,3) by auto
  qed
  then show ?thesis by auto
qed

lemma clear_eps_row:
  assumes k: "kahn_inv A deg q" and v: "v < states_number A"
  shows "kahn_inv (A\<lparr>delta := (delta A)[v := (delta A ! v)[eps_sym := []]]\<rparr>) deg q \<and>
         eps_total ((delta A)[v := (delta A ! v)[eps_sym := []]]) + length (delta A ! v ! eps_sym) = eps_total (delta A)"
proof -
  let ?n = "states_number A"
  have wf: "length (delta A) = ?n" "rows_wf ?n (delta A)" using k by (simp_all add: kahn_inv_def nfa_wf_def)
  have vl: "v < length (delta A)" using v wf by simp
  have len: "length (delta A ! v) = alph_size" using rows_wf_row_length[OF wf(2) vl] .
  have e: "eps_sym < alph_size" by (simp add: eps_sym_def alph_size_def)
  have "list_all (cell_ok ?n) ((delta A ! v)[eps_sym := []])"
    using list_all_update[OF rows_wf_row[OF wf(2) vl]] by (simp add: cell_ok_def)
  then have "rows_wf ?n ((delta A)[v := (delta A ! v)[eps_sym := []]])"
    using rows_wf_update[OF wf(2)] len by simp
  then have "kahn_inv (A\<lparr>delta := (delta A)[v := (delta A ! v)[eps_sym := []]]\<rparr>) deg q"
    using k by (simp add: kahn_inv_def nfa_wf_def)
  moreover have "eps_total ((delta A)[v := (delta A ! v)[eps_sym := []]]) + length (delta A ! v ! eps_sym) =
                 eps_total (delta A)"
    using sum_list_map_update[OF vl, of "\<lambda>row. length (row ! eps_sym)" "(delta A ! v)[eps_sym := []]"] len e
    by (simp add: eps_total_def)
  ultimately show ?thesis by blast
qed

lemma kahn_loop_returns:
  "kahn_inv A deg q \<Longrightarrow>
   \<exists>A'. kahn_loop A deg q = Some A' \<and> nfa_wf A' \<and> states_number A' = states_number A"
proof (induction "eps_total (delta A)" arbitrary: A deg q rule: less_induct)
  case less
  note outer = less.hyps
  from less.prems show ?case
  proof (induction "length q" arbitrary: q rule: less_induct)
    case (less q)
    show ?case
    proof (cases q)
      case Nil
      then show ?thesis using less.prems by (simp add: kahn_loop.simps kahn_inv_def)
    next
      case (Cons v q')
      let ?n = "states_number A"
      have v: "v < ?n" using less.prems Cons by (simp add: kahn_inv_def)
      have wf: "length (delta A) = ?n" "length (terminal_states A) = ?n" "rows_wf ?n (delta A)"
        using less.prems by (simp_all add: kahn_inv_def nfa_wf_def)
      have e: "eps_sym < alph_size" by (simp add: eps_sym_def alph_size_def)
      have row: "trans_at (delta A) v eps_sym = Some (delta A ! v ! eps_sym)"
        and us: "\<forall>u \<in> set (delta A ! v ! eps_sym). u < ?n"
        using rows_wf_nth[OF wf(3) _ e] v wf(1) by auto
      have t: "nth_opt (terminal_states A) v = Some (terminal_states A ! v)" using v wf(2) by (simp add: nth_opt_def)
      have k': "kahn_inv A deg q'" using less.prems Cons by (simp add: kahn_inv_def)
      show ?thesis
      proof (cases "delta A ! v ! eps_sym = []")
        case True
        obtain A' where "kahn_loop A deg q' = Some A'" "nfa_wf A'" "states_number A' = ?n"
          using less.hyps[of q'] k' Cons by auto
        then show ?thesis using Cons row t True by (simp add: kahn_loop.simps)
      next
        case False
        obtain A1 d1 q1 where f: "fold_opt (kahn_edge v (terminal_states A ! v)) (delta A ! v ! eps_sym) (A, deg, q') =
            Some (A1, d1, q1)" and k1: "kahn_inv A1 d1 q1"
          and m: "map (\<lambda>r. r ! eps_sym) (delta A1) = map (\<lambda>r. r ! eps_sym) (delta A)"
          and n1: "states_number A1 = ?n"
          using kahn_edges_ok[OF k' v us] by blast
        have v1: "v < states_number A1" using v n1 by simp
        have l1: "length (delta A1) = length (delta A)" using m by (metis length_map)
        have "delta A1 ! v ! eps_sym = delta A ! v ! eps_sym"
          using m v wf(1) l1 by (metis nth_map)
        then have lt: "eps_total ((delta A1)[v := (delta A1 ! v)[eps_sym := []]]) < eps_total (delta A)"
        proof -
          have "0 < length (delta A ! v ! eps_sym)" using False by simp
          moreover have "eps_total ((delta A1)[v := (delta A1 ! v)[eps_sym := []]]) + length (delta A ! v ! eps_sym) =
                 eps_total (delta A)"
            using conjunct2[OF clear_eps_row[OF k1 v1]] eps_total_eq[OF m] \<open>delta A1 ! v ! eps_sym = _\<close> by simp
          ultimately show ?thesis by linarith
        qed
        obtain A' where "kahn_loop (A1\<lparr>delta := (delta A1)[v := (delta A1 ! v)[eps_sym := []]]\<rparr>) d1 q1 = Some A'"
          "nfa_wf A'" "states_number A' = ?n"
          using outer[of "A1\<lparr>delta := (delta A1)[v := (delta A1 ! v)[eps_sym := []]]\<rparr>"] lt
            clear_eps_row[OF k1 v1] n1 by auto
        then show ?thesis using Cons row t False f by (simp add: kahn_loop.simps)
      qed
    qed
  qed
qed

lemma add_interconnections_ok:
  assumes wf: "nfa_wf A" and d: "states_number A \<le> length deg"
  shows "\<exists>A'. add_interconnections A deg = Some A' \<and> nfa_wf A' \<and> states_number A' = states_number A"
proof -
  let ?n = "states_number A"
  have "\<exists>q. fold_opt (\<lambda>v q. case nth_opt deg v of None \<Rightarrow> None | Some dv \<Rightarrow> Some (if dv = 0 then q @ [v] else q))
             [0..<?n] [] = Some q \<and> (\<forall>v \<in> set q. v < ?n)"
  proof (rule fold_opt_inv[where P = "\<lambda>q. \<forall>v \<in> set q. v < ?n"])
    fix v q assume "v \<in> set [0..<?n]" "\<forall>v \<in> set q. v < ?n"
    then show "\<exists>q'. (case nth_opt deg v of None \<Rightarrow> None | Some dv \<Rightarrow> Some (if dv = 0 then q @ [v] else q)) = Some q' \<and>
                 (\<forall>v \<in> set q'. v < ?n)"
      using d by (simp add: nth_opt_def)
  qed simp
  then obtain q where "fold_opt (\<lambda>v q. case nth_opt deg v of None \<Rightarrow> None | Some dv \<Rightarrow> Some (if dv = 0 then q @ [v] else q))
             [0..<?n] [] = Some q" "kahn_inv A deg q"
    using wf d by (auto simp: kahn_inv_def)
  then show ?thesis using kahn_loop_returns by (simp add: add_interconnections_def)
qed

lemma become_closure_ok:
  assumes "nfa_wf A"
  shows "\<exists>A'. become_closure A = Some A' \<and> nfa_wf A' \<and> states_number A' \<le> states_number A"
proof -
  obtain A1 deg where c: "compress_components A = Some (A1, deg)" "nfa_wf A1" "length deg = states_number A"
    "states_number A1 \<le> states_number A"
    using compress_components_ok[OF assms] by blast
  obtain A' where "add_interconnections A1 deg = Some A'" "nfa_wf A'" "states_number A' = states_number A1"
    using add_interconnections_ok[OF c(2), of deg] c(3,4) by auto
  then show ?thesis using c by (simp add: become_closure_def)
qed

section \<open>Reading the automaton\<close>

lemma read_terminals_None:
  "fold_opt read_terminal terms (replicate n False) = None \<longleftrightarrow> \<not> list_all (\<lambda>t. t < n) terms"
  by (rule fold_opt_None_iff[where Q = "\<lambda>ts. length ts = n"]) (auto simp: read_terminal_def)

lemma read_transition_None:
  assumes "length d = n" "list_all (\<lambda>row. length row = alph_size) d"
  shows "(read_transition tr d = None \<longleftrightarrow> \<not> (case tr of (f, c, t) \<Rightarrow> f < n \<and> sym_ok c)) \<and>
         (\<forall>d'. read_transition tr d = Some d' \<longrightarrow> length d' = n \<and> list_all (\<lambda>row. length row = alph_size) d')"
proof -
  obtain f c t where tr: "tr = (f, c, t)" by (cases tr) auto
  show ?thesis
  proof (cases "f < n \<and> 0 \<le> symbol_index c \<and> nat (symbol_index c) < alph_size")
    case True
    then have r: "length (d ! f) = alph_size" using assms by (simp add: list_all_length)
    have "list_all (\<lambda>row. length row = alph_size) (d[f := (d ! f)[nat (symbol_index c) := fst (set_insert t (d ! f ! nat (symbol_index c)))]])"
      by (rule list_all_update[OF assms(2)]) (simp add: r)
    then show ?thesis using True tr assms r
      by (auto simp: read_transition_def trans_insert_def trans_at_def sym_ok_def split: prod.split)
  next
    case False
    then show ?thesis using tr assms
      by (auto simp: read_transition_def trans_insert_def trans_at_def sym_ok_def list_all_length)
  qed
qed

lemma read_transitions_None:
  "fold_opt read_transition trs (replicate n (replicate alph_size [])) = None \<longleftrightarrow>
   \<not> list_all (\<lambda>(f, c, t). f < n \<and> sym_ok c) trs"
proof (rule fold_opt_None_iff[where Q = "\<lambda>d. length d = n \<and> list_all (\<lambda>row. length row = alph_size) d"])
  fix tr and d :: "ndstate list" assume "tr \<in> set trs" and d: "length d = n \<and> list_all (\<lambda>row. length row = alph_size) d"
  show "(read_transition tr d = None \<longleftrightarrow> \<not> (case tr of (f, c, t) \<Rightarrow> f < n \<and> sym_ok c)) \<and>
        (\<forall>d'. read_transition tr d = Some d' \<longrightarrow> length d' = n \<and> list_all (\<lambda>row. length row = alph_size) d')"
    by (rule read_transition_None) (use d in simp_all)
qed (simp add: list_all_iff)

lemma automata_init_wf:
  assumes "0 < n" "list_all (\<lambda>t. t < n) terms" "list_all (\<lambda>(f, c, t). f < n \<and> t < n \<and> sym_ok c) trs"
  shows "\<exists>A. automata_init n terms trs = Some A \<and> nfa_wf A \<and> states_number A = n"
proof -
  have "\<exists>ts. fold_opt read_terminal terms (replicate n False) = Some ts \<and> length ts = n"
  proof (rule fold_opt_inv[where P = "\<lambda>ts. length ts = n"])
    fix t and ts :: "bool list" assume "t \<in> set terms" "length ts = n"
    then show "\<exists>ts'. read_terminal t ts = Some ts' \<and> length ts' = n"
      using assms(2) by (auto simp: read_terminal_def list_all_iff)
  qed simp
  then obtain ts where ts: "fold_opt read_terminal terms (replicate n False) = Some ts" "length ts = n" by blast
  have "\<exists>d. fold_opt read_transition trs (replicate n (replicate alph_size [])) = Some d \<and> rows_wf n d \<and> length d = n"
  proof (rule fold_opt_inv[where P = "\<lambda>d. rows_wf n d \<and> length d = n"])
    show "rows_wf n (replicate n (replicate alph_size [])) \<and> length (replicate n (replicate alph_size [])) = n"
      by (simp add: rows_wf_def cell_ok_def list_all_iff)
    fix tr d assume tr: "tr \<in> set trs" and d: "rows_wf n d \<and> length d = n"
    obtain f c t where e: "tr = (f, c, t)" by (cases tr) auto
    then have "f < n" "t < n" "sym_ok c" using tr assms(3) by (auto simp: list_all_iff)
    moreover have "rows_wf n d" "f < length d" "nat (symbol_index c) < alph_size"
      using d \<open>f < n\<close> \<open>sym_ok c\<close> by (auto simp: sym_ok_def)
    ultimately obtain d' new where "trans_insert d f (nat (symbol_index c)) t = Some (d', new)" "rows_wf n d'"
      "length d' = length d"
      using trans_insert_wf by blast
    then show "\<exists>d'. read_transition tr d = Some d' \<and> rows_wf n d' \<and> length d' = n"
      using e d \<open>sym_ok c\<close> by (simp add: read_transition_def sym_ok_def)
  qed
  then obtain d where "fold_opt read_transition trs (replicate n (replicate alph_size [])) = Some d"
    "rows_wf n d" "length d = n" by blast
  then show ?thesis using ts assms(1) by (simp add: automata_init_def nfa_wf_def)
qed

section \<open>Properties of reading and closure\<close>

text \<open>C8. Reading then closing returns: on every input whose state ids are below the state
  count \<open>n > 0\<close> and whose symbols are letters or \<^verbatim>\<open>'$'\<close>, the constructor returns an
  automaton, \<^verbatim>\<open>becomeClosure\<close> returns (each of its \<^verbatim>\<open>while\<close> loops ends and no index leaves
  its vector), and the result is a well-formed automaton of at most \<open>n\<close> states.\<close>

theorem closure_returns:
  assumes "0 < n" "list_all (\<lambda>t. t < n) terms" "list_all (\<lambda>(f, c, t). f < n \<and> t < n \<and> sym_ok c) trs"
  shows "\<exists>A A'. automata_init n terms trs = Some A \<and> become_closure A = Some A' \<and> nfa_wf A' \<and>
           states_number A' \<le> n"
  using automata_init_wf[OF assms] become_closure_ok by fastforce

theorem closure_returns_witness:
  "\<exists>A A'. automata_init 4 [3] [(1, CHR ''$'', 2), (1, CHR ''$'', 3), (3, CHR ''$'', 2), (0, CHR ''a'', 2)] = Some A \<and>
     become_closure A = Some A' \<and> nfa_wf A' \<and> states_number A' \<le> 4"
  by (rule closure_returns) (simp_all add: sym_ok_def symbol_index_def alph_size_def)

text \<open>C13. \<^verbatim>\<open>getOrder\<close> returns, on every well-formed automaton, a finishing order that lists
  every state exactly once.\<close>

theorem get_order_covers:
  assumes "nfa_wf A"
  shows "\<exists>order. get_order A = Some order \<and> distinct order \<and> set order = {..<states_number A}"
  using get_order_perm[OF nfa_wf_eps_in_range[OF assms]] .

theorem get_order_covers_witness:
  "nfa_wf \<lparr>entrance = 0, components_number = 0, states_number = 3,
           delta = [replicate 26 [] @ [[1]], replicate 26 [] @ [[0, 2]], replicate 27 []],
           terminal_states = [False, False, True]\<rparr> \<and> (\<exists>order. get_order \<lparr>entrance = 0, components_number = 0, states_number = 3,
           delta = [replicate 26 [] @ [[1]], replicate 26 [] @ [[0, 2]], replicate 27 []],
           terminal_states = [False, False, True]\<rparr> = Some order \<and> distinct order \<and> set order = {..<3})"
  using get_order_covers[of "\<lparr>entrance = 0, components_number = 0, states_number = 3,
           delta = [replicate 26 [] @ [[1]], replicate 26 [] @ [[0, 2]], replicate 27 []],
           terminal_states = [False, False, True]\<rparr>"]
  by (simp add: nfa_wf_def rows_wf_def cell_ok_def alph_size_def list_all_iff)

text \<open>C14. \<^verbatim>\<open>getComponents\<close> returns, on every well-formed automaton, a component for every
  state, every component below their count, and at most as many components as states.\<close>

theorem get_components_total:
  assumes "nfa_wf A"
  shows "\<exists>comps c. get_components A = Some (comps, c) \<and> length comps = states_number A \<and>
           c \<le> states_number A \<and> list_all (\<lambda>x. x < c) comps"
proof -
  obtain comps c where "get_components A = Some (comps, c)" "length comps = states_number A"
    "c \<le> states_number A" "\<forall>v < states_number A. comps ! v < c"
    using get_components_ok[OF nfa_wf_eps_in_range[OF assms]] by blast
  then show ?thesis by (auto simp: list_all_length)
qed

theorem get_components_total_witness:
  "nfa_wf \<lparr>entrance = 0, components_number = 0, states_number = 3,
           delta = [replicate 26 [] @ [[1]], replicate 26 [] @ [[0, 2]], replicate 27 []],
           terminal_states = [False, False, True]\<rparr> \<and> (\<exists>comps c. get_components \<lparr>entrance = 0, components_number = 0, states_number = 3,
           delta = [replicate 26 [] @ [[1]], replicate 26 [] @ [[0, 2]], replicate 27 []],
           terminal_states = [False, False, True]\<rparr> = Some (comps, c) \<and> length comps = 3 \<and> c \<le> 3 \<and>
     list_all (\<lambda>x. x < c) comps)"
  using get_components_total[of "\<lparr>entrance = 0, components_number = 0, states_number = 3,
           delta = [replicate 26 [] @ [[1]], replicate 26 [] @ [[0, 2]], replicate 27 []],
           terminal_states = [False, False, True]\<rparr>"]
  by (simp add: nfa_wf_def rows_wf_def cell_ok_def alph_size_def list_all_iff)

text \<open>C15. The constructor fails (an out-of-range \<^verbatim>\<open>operator[]\<close>) exactly when a terminal
  state or the source of a transition is not below \<open>n\<close>, or a symbol is not an index of a
  row; the target of a transition is not checked.\<close>

theorem automata_init_error:
  "automata_init n terms trs = None \<longleftrightarrow>
   \<not> (list_all (\<lambda>t. t < n) terms \<and> list_all (\<lambda>(f, c, t). f < n \<and> sym_ok c) trs)"
  using read_terminals_None[of terms n] read_transitions_None[of trs n]
  by (auto simp: automata_init_def split: option.split)

theorem automata_init_error_witness:
  "automata_init 2 [5] [] = None \<and> automata_init 2 [1] [(0, CHR ''a'', 7)] \<noteq> None"
  using automata_init_error[of 2 "[5]" "[]"] automata_init_error[of 2 "[1]" "[(0, CHR ''a'', 7)]"]
  by (simp add: sym_ok_def symbol_index_def alph_size_def)

end
