(* ===== verification/Nfa_Scan.thy ===== *)
theory Nfa_Scan
  imports Nfa_Good
begin

text \<open>
  The flattened automaton \<^verbatim>\<open>FastAutomata\<close> of \<^verbatim>\<open>src/2015-06-06/2/good.C\<close> and the scan
  \<^verbatim>\<open>getMaxSuitedSubstr\<close> with \<^verbatim>\<open>main\<close>. \<^verbatim>\<open>_transitions\<close> holds, at
  \<open>state * 27 + symbol\<close>, the offset of that pair's targets, and the targets after the
  \<open>27 n\<close> offsets. Offsets are computed in \<^verbatim>\<open>unsigned int\<close> (\<open>32 word\<close>) as in the source.

  The constructor initialises \<^verbatim>\<open>_is_terminal(_states_number)\<close> before \<^verbatim>\<open>_states_number\<close>
  (members are initialised in declaration order, and \<^verbatim>\<open>_states_number\<close> is declared
  after \<^verbatim>\<open>_is_terminal\<close>), so the size of \<^verbatim>\<open>_is_terminal\<close> is an indeterminate value: it
  is the parameter \<open>isz\<close> of the model.
\<close>

section \<open>\<^verbatim>\<open>FastAutomata\<close>\<close>

record fast_automata =
  transitions :: "nat list"
  is_terminal :: "bool list"
  fast_states_number :: nat
  fast_entrance :: nat

definition offset_for :: "32 word \<Rightarrow> 32 word \<Rightarrow> nat" where
  "offset_for st a = unat (st * 27 + a)"

text \<open>Sizing \<^verbatim>\<open>_transitions\<close>: \<open>27 n\<close> offsets plus every target.\<close>

definition data_size :: "ndstate list \<Rightarrow> nat \<Rightarrow> nat option" where
  "data_size d n =
     fold_opt (\<lambda>u sz. fold_opt (\<lambda>a sz. map_option (\<lambda>ts. sz + length ts) (trans_at d u a)) [0..<alph_size] sz)
       [0..<n] (n * alph_size)"

text \<open>One pair \<open>(state, a)\<close> of the filling loop: its offset, then its targets.\<close>

definition fill_cell :: "ndstate list \<Rightarrow> nat \<Rightarrow> nat \<Rightarrow> nat list \<times> nat \<Rightarrow> (nat list \<times> nat) option" where
  "fill_cell d st a s =
     (case s of (tr, off) \<Rightarrow>
        (case trans_at d st a of
           None \<Rightarrow> None
         | Some vs \<Rightarrow>
             (if offset_for (of_nat st) (of_nat a) < length tr then
                fold_opt (\<lambda>v s. case s of (tr, off) \<Rightarrow>
                                  if off < length tr then Some (tr[off := v], off + 1) else None)
                  vs (tr[offset_for (of_nat st) (of_nat a) := off], off)
              else None)))"

definition fast_init :: "automata \<Rightarrow> nat \<Rightarrow> fast_automata option" where
  "fast_init A isz =
     (let n = states_number A in
      case fold_opt (\<lambda>i it. if i < length it \<and> i < length (terminal_states A)
                             then Some (it[i := terminal_states A ! i]) else None)
             [0..<n] (replicate isz False) of
        None \<Rightarrow> None
      | Some it \<Rightarrow>
          (case data_size (delta A) n of
             None \<Rightarrow> None
           | Some sz \<Rightarrow>
               (case fold_opt (\<lambda>st s. fold_opt (fill_cell (delta A) st) [0..<alph_size] s) [0..<n]
                       (replicate sz 0, n * alph_size) of
                  None \<Rightarrow> None
                | Some (tr, _) \<Rightarrow>
                    Some \<lparr>transitions = tr, is_terminal = it, fast_states_number = n,
                          fast_entrance = entrance A\<rparr>)))"

definition offset_for_transition :: "fast_automata \<Rightarrow> 32 word \<Rightarrow> 32 word \<Rightarrow> nat option" where
  "offset_for_transition fa st a = nth_opt (transitions fa) (offset_for st a)"

text \<open>\<^verbatim>\<open>transitionsNumber\<close>: the next pair's offset (an \<^verbatim>\<open>unsigned int\<close>) minus this one's,
  in \<open>size_t\<close>; \<^verbatim>\<open>state < _states_number - 1\<close> is a \<open>size_t\<close> comparison.\<close>

definition transitions_number :: "fast_automata \<Rightarrow> 32 word \<Rightarrow> 32 word \<Rightarrow> size_t option" where
  "transitions_number fa st a =
     (let next = (if a < 26 then offset_for_transition fa st (a + 1)
                  else if (ucast st :: size_t) < of_nat (fast_states_number fa) - 1
                  then offset_for_transition fa (st + 1) 0
                  else Some (length (transitions fa)))
      in case next of
           None \<Rightarrow> None
         | Some nx \<Rightarrow>
             (case offset_for_transition fa st a of
                None \<Rightarrow> None
              | Some b \<Rightarrow> Some (ucast (of_nat nx :: 32 word) - of_nat b)))"

text \<open>\<^verbatim>\<open>neighbors\<close>: the vector built from the iterator range \<^verbatim>\<open>[begin, end)\<close>.\<close>

definition neighbors :: "fast_automata \<Rightarrow> 32 word \<Rightarrow> 32 word \<Rightarrow> nat list option" where
  "neighbors fa st a =
     (case offset_for_transition fa st a of
        None \<Rightarrow> None
      | Some b \<Rightarrow>
          (case transitions_number fa st a of
             None \<Rightarrow> None
           | Some k \<Rightarrow> (if b + unat k \<le> length (transitions fa)
                        then Some (take (unat k) (drop b (transitions fa))) else None)))"

section \<open>The scan\<close>

definition max_uint :: nat where "max_uint = 2 ^ 32 - 1"

text \<open>\<^verbatim>\<open>length(begin, end) = end - begin + 1\<close> in \<^verbatim>\<open>unsigned int\<close>.\<close>

definition length_u :: "nat \<Rightarrow> nat \<Rightarrow> nat" where
  "length_u b e = unat (of_nat e - of_nat b + 1 :: 32 word)"

definition add_pair :: "nat list \<Rightarrow> nat \<Rightarrow> nat \<Rightarrow> nat list option" where
  "add_pair ss st idx =
     (if st < length ss then Some (if ss ! st > idx then ss[st := idx] else ss) else None)"

text \<open>\<^verbatim>\<open>T[i] - 'a'\<close>: a (signed) \<^verbatim>\<open>char\<close> difference converted to \<^verbatim>\<open>unsigned int\<close>.\<close>

definition char_sym :: "char \<Rightarrow> 32 word" where
  "char_sym c =
     word_of_int ((if of_char c < (128 :: nat) then int (of_char c) else int (of_char c) - 256) - 97)"

text \<open>A target \<open>u\<close> of a live state whose run started at \<open>s\<close>: record it, and a longer match
  when \<open>u\<close> is terminal.\<close>

definition scan_arc :: "fast_automata \<Rightarrow> nat \<Rightarrow> nat \<Rightarrow> nat \<Rightarrow> nat list \<times> nat \<times> nat \<Rightarrow> (nat list \<times> nat \<times> nat) option" where
  "scan_arc fa i s u st =
     (case st of (new, mb, ml) \<Rightarrow>
        (case add_pair new u s of
           None \<Rightarrow> None
         | Some new' \<Rightarrow>
             (case nth_opt (is_terminal fa) u of
                None \<Rightarrow> None
              | Some t \<Rightarrow> Some (if t \<and> length_u s i > ml then (new', s, length_u s i) else (new', mb, ml)))))"

definition scan_state ::
  "fast_automata \<Rightarrow> char list \<Rightarrow> nat \<Rightarrow> nat list \<Rightarrow> nat \<Rightarrow> nat list \<times> nat \<times> nat \<Rightarrow> (nat list \<times> nat \<times> nat) option" where
  "scan_state fa T i cur v st =
     (if cur ! v < length T then
        (case neighbors fa (of_nat v) (char_sym (T ! i)) of
           None \<Rightarrow> None
         | Some us \<Rightarrow> fold_opt (scan_arc fa i (cur ! v)) us st)
      else Some st)"

text \<open>One position \<open>i\<close> of the text: reset \<^verbatim>\<open>new_states\<close>, start a run at the entrance,
  advance every live state, swap.\<close>

definition scan_step :: "fast_automata \<Rightarrow> char list \<Rightarrow> nat \<Rightarrow> nat list \<times> nat \<times> nat \<Rightarrow> (nat list \<times> nat \<times> nat) option" where
  "scan_step fa T i st =
     (case st of (cur, mb, ml) \<Rightarrow>
        (case add_pair cur (fast_entrance fa) i of
           None \<Rightarrow> None
         | Some cur' \<Rightarrow>
             fold_opt (scan_state fa T i cur') [0..<fast_states_number fa]
               (replicate (fast_states_number fa) max_uint, mb, ml)))"

definition get_max_suited_substr :: "automata \<Rightarrow> nat \<Rightarrow> char list \<Rightarrow> char list option" where
  "get_max_suited_substr A isz T =
     (case fast_init A isz of
        None \<Rightarrow> None
      | Some fa \<Rightarrow>
          (case fold_opt (scan_step fa T) [0..<length T] (replicate (fast_states_number fa) max_uint, 0, 0) of
             None \<Rightarrow> None
           | Some (_, mb, ml) \<Rightarrow> (if mb \<le> length T then Some (take ml (drop mb T)) else None)))"

text \<open>\<^verbatim>\<open>main\<close>, from the automaton as read and the text line.\<close>

definition main_nfa :: "nat \<Rightarrow> nat list \<Rightarrow> (nat \<times> char \<times> nat) list \<Rightarrow> char list \<Rightarrow> nat \<Rightarrow> char list option" where
  "main_nfa n terms trs text isz =
     (case automata_init n terms trs of
        None \<Rightarrow> None
      | Some A \<Rightarrow>
          (case become_closure A of
             None \<Rightarrow> None
           | Some A' \<Rightarrow>
               (case get_max_suited_substr A' isz text of
                  None \<Rightarrow> None
                | Some ans \<Rightarrow> Some (if ans = [] then ''No solution'' else ans))))"

section \<open>The closure merges states that are not strongly connected\<close>

lemmas eval_nfa = main_nfa_def automata_init_def read_terminal_def read_transition_def trans_insert_def
  trans_at_def set_insert_def symbol_index_def alph_size_def eps_sym_def get_components_def get_order_def
  get_order_step_def fill_order_def fill_loop.simps push_unused_def transposed_def transpose_step_def
  components_step_def fill_component_def fill_comp_loop.simps push_unassigned_def upt_rec replicate_numeral_Cons
  become_closure_def compress_components_def compress_row_def compress_letter_def compress_eps_def nth_opt_def
  compress_terminal_def add_interconnections_def kahn_loop.simps kahn_edge_def add_not_eps_def
  get_max_suited_substr_def fast_init_def data_size_def fill_cell_def offset_for_def scan_step_def
  scan_state_def scan_arc_def add_pair_def neighbors_def transitions_number_def offset_for_transition_def
  char_sym_def length_u_def max_uint_def

text \<open>The runs of the four-state automaton with \<open>\<epsilon>\<close>-edges \<open>1 \<rightarrow> 2\<close>, \<open>1 \<rightarrow> 3\<close>,
  \<open>3 \<rightarrow> 2\<close> and the letter edge \<open>0 \<midarrow>a\<rightarrow> 2\<close>.\<close>

lemma merge_example_runs:
  "nfa_run [(1, CHR ''$'', 2), (1, CHR ''$'', 3), (3, CHR ''$'', 2), (0, CHR ''a'', 2)] p w q \<Longrightarrow>
     (w = [] \<and> (q = p \<or> (p = 1 \<and> (q = 2 \<or> q = 3)) \<or> (p = 3 \<and> q = 2))) \<or> (p = 0 \<and> w = ''a'' \<and> q = 2)"
  by (induction rule: nfa_run.induct) auto

lemma merge_example_output:
  "3 \<le> isz \<Longrightarrow>
   main_nfa 4 [3] [(1, CHR ''$'', 2), (1, CHR ''$'', 3), (3, CHR ''$'', 2), (0, CHR ''a'', 2)] ''a'' isz = Some ''a''"
  by (simp add: eval_nfa)

section \<open>Properties of the program\<close>

text \<open>
  C4. \<^verbatim>\<open>fillOrder\<close> is not a depth-first search: it pushes every unused \<open>\<epsilon>\<close>-successor of
  the top at once, so its finishing order is not a DFS finishing order, and Kosaraju's
  second pass merges states that are not strongly connected. On the automaton with
  \<open>\<epsilon>\<close>-edges \<open>1 \<rightarrow> 2\<close>, \<open>1 \<rightarrow> 3\<close>, \<open>3 \<rightarrow> 2\<close>, the letter edge \<open>0 \<midarrow>a\<rightarrow> 2\<close> and the terminal
  state \<open>3\<close>, states \<open>2\<close> and \<open>3\<close> become one terminal state, and on the text \<open>a\<close> the
  program prints \<open>a\<close>, although neither \<open>a\<close> nor the empty word is accepted (the answer
  should be \<^verbatim>\<open>No solution\<close>). This holds for every size \<open>isz \<ge> 3\<close> the indeterminate
  \<^verbatim>\<open>_is_terminal\<close> may get.
\<close>

theorem closure_merges_non_scc:
  assumes "3 \<le> isz"
  shows "main_nfa 4 [3] [(1, CHR ''$'', 2), (1, CHR ''$'', 3), (3, CHR ''$'', 2), (0, CHR ''a'', 2)] ''a'' isz = Some ''a'' \<and>
         \<not> nfa_accepts [(1, CHR ''$'', 2), (1, CHR ''$'', 3), (3, CHR ''$'', 2), (0, CHR ''a'', 2)] [3] ''a'' \<and> \<not> nfa_accepts [(1, CHR ''$'', 2), (1, CHR ''$'', 3), (3, CHR ''$'', 2), (0, CHR ''a'', 2)] [3] []"
proof -
  have "\<not> nfa_accepts [(1, CHR ''$'', 2), (1, CHR ''$'', 3), (3, CHR ''$'', 2), (0, CHR ''a'', 2)] [3] ''a''" and "\<not> nfa_accepts [(1, CHR ''$'', 2), (1, CHR ''$'', 3), (3, CHR ''$'', 2), (0, CHR ''a'', 2)] [3] []"
    unfolding nfa_accepts_def using merge_example_runs by fastforce+
  then show ?thesis using merge_example_output[OF assms] by blast
qed

section \<open>Witnesses\<close>

theorem closure_merges_non_scc_witness:
  "(3 :: nat) \<le> 3 \<and> main_nfa 4 [3] [(1, CHR ''$'', 2), (1, CHR ''$'', 3), (3, CHR ''$'', 2), (0, CHR ''a'', 2)] ''a'' 3 = Some ''a'' \<and>
   \<not> nfa_accepts [(1, CHR ''$'', 2), (1, CHR ''$'', 3), (3, CHR ''$'', 2), (0, CHR ''a'', 2)] [3] ''a'' \<and> \<not> nfa_accepts [(1, CHR ''$'', 2), (1, CHR ''$'', 3), (3, CHR ''$'', 2), (0, CHR ''a'', 2)] [3] []"
  using closure_merges_non_scc[of 3] by simp

end
