(* ===== verification/Nfa_Fast.thy ===== *)
theory Nfa_Fast
  imports Nfa_Scan Nfa_Closure
begin

text \<open>
  The flattened automaton \<^verbatim>\<open>FastAutomata\<close> and the scan \<^verbatim>\<open>getMaxSuitedSubstr\<close> of
  \<^verbatim>\<open>src/2015-06-06/2/good.C\<close> on a well-formed automaton. The constructor lays out the
  \<open>27 n\<close> offsets and then the targets of each pair \<open>(state, symbol)\<close> in order
  (\<open>layout\<close>); \<^verbatim>\<open>neighbors\<close> reads back exactly the targets of the pair, as long
  as the table has fewer than \<open>2^32\<close> entries (offsets are \<^verbatim>\<open>unsigned int\<close>). The scan
  then returns on every lower-case text, and its answer is a factor of the text. With the
  closure of \<^verbatim>\<open>Nfa_Closure\<close> this gives that \<^verbatim>\<open>main\<close> produces an answer on every
  valid input whose table fits the offsets.
\<close>

section \<open>The layout of the flattened table\<close>

text \<open>The cells in the order of the offsets (\<open>state * 27 + symbol\<close>), where each cell's targets
  start, and the whole table.\<close>

definition cells :: "ndstate list \<Rightarrow> nat list list" where
  "cells d = concat d"

definition cell_start :: "ndstate list \<Rightarrow> nat \<Rightarrow> nat" where
  "cell_start d j = length d * alph_size + length (concat (take j (cells d)))"

definition layout :: "ndstate list \<Rightarrow> nat list" where
  "layout d = map (cell_start d) [0..<length d * alph_size] @ concat (cells d)"

text \<open>The table after the first \<open>j\<close> cells have been filled, and the filling offset.\<close>

definition fill_pre :: "ndstate list \<Rightarrow> nat \<Rightarrow> nat list \<times> nat" where
  "fill_pre d j =
     (take j (map (cell_start d) [0..<length d * alph_size]) @ replicate (length d * alph_size - j) 0 @
      concat (take j (cells d)) @ replicate (length (concat (cells d)) - length (concat (take j (cells d)))) 0,
      cell_start d j)"

text \<open>The texts \<^verbatim>\<open>main\<close> scans: lower-case letters, so that \<^verbatim>\<open>T[i] - 'a'\<close> is a letter.
  The state of the scan: one start per state, and the best start within the text.\<close>

definition lower_text :: "char list \<Rightarrow> bool" where
  "lower_text T \<longleftrightarrow> list_all (\<lambda>ch. (97 :: nat) \<le> of_char ch \<and> of_char ch \<le> (122 :: nat)) T"

definition scan_inv :: "nat \<Rightarrow> char list \<Rightarrow> nat list \<times> nat \<times> nat \<Rightarrow> bool" where
  "scan_inv n T st \<longleftrightarrow> length (fst st) = n \<and> fst (snd st) \<le> length T"

section \<open>Filling the table\<close>

lemma cells_length: "rows_wf c d \<Longrightarrow> length (cells d) = length d * alph_size"
  unfolding cells_def rows_wf_def
  by (induction d) (auto simp: length_concat)

lemma cells_nth:
  "rows_wf c d \<Longrightarrow> st < length d \<Longrightarrow> a < alph_size \<Longrightarrow> cells d ! (st * alph_size + a) = d ! st ! a"
proof (induction d arbitrary: st)
  case (Cons row d)
  have r: "length row = alph_size" "rows_wf c d" using Cons.prems by (simp_all add: rows_wf_def)
  show ?case
  proof (cases st)
    case 0
    then show ?thesis using r Cons.prems by (simp add: cells_def nth_append)
  next
    case (Suc st')
    have "cells (row # d) ! (st * alph_size + a) = cells d ! (st' * alph_size + a)"
      using r Suc by (simp add: cells_def nth_append)
    then show ?thesis using Cons.IH[OF r(2)] Cons.prems Suc by simp
  qed
qed simp

lemma offset_for_nat:
  "st * 27 + a < 2 ^ 32 \<Longrightarrow> offset_for (of_nat st) (of_nat a) = st * 27 + a"
proof -
  assume b: "st * 27 + a < 2 ^ 32"
  have e: "(of_nat st * 27 + of_nat a :: 32 word) = of_nat (st * 27 + a)" by simp
  have "unat (of_nat (st * 27 + a) :: 32 word) = st * 27 + a" by (rule unat_of_nat_below) (use b in simp)
  then show ?thesis unfolding offset_for_def e .
qed

lemma fill_cell_step:
  assumes wf: "rows_wf c d" and st: "st < length d" and a: "a < alph_size"
    and small: "length d * alph_size + length (concat (cells d)) < 2 ^ 32"
  shows "fill_cell d st a (fill_pre d (st * alph_size + a)) = Some (fill_pre d (Suc (st * alph_size + a)))"
proof -
  let ?N = "length d * alph_size" and ?C = "cells d" and ?j = "st * alph_size + a"
  let ?O = "map (cell_start d) [0..<?N]"
  let ?S = "length (concat (take ?j ?C))"
  have jN: "?j < ?N"
  proof -
    have "st * alph_size + a < st * alph_size + alph_size" using a by simp
    also have "\<dots> \<le> length d * alph_size" using st by (metis add.commute mult_Suc le_simps(3) mult_le_mono1)
    finally show ?thesis .
  qed
  have lc: "length ?C = ?N" using cells_length[OF wf] .
  have cj: "?C ! ?j = d ! st ! a" using cells_nth[OF wf st a] .
  have row: "trans_at d st a = Some (d ! st ! a)" using rows_wf_nth[OF wf st a] by simp
  have Sle: "length (concat (take (Suc ?j) ?C)) \<le> length (concat ?C)" by (rule concat_take_le)
  have S1: "concat (take (Suc ?j) ?C) = concat (take ?j ?C) @ d ! st ! a"
    using concat_take_Suc[of ?j ?C] jN lc cj by simp
  have off: "offset_for (of_nat st) (of_nat a) = ?j"
    using offset_for_nat[of st a] small jN by (simp add: alph_size_def)
  let ?tr = "fst (fill_pre d ?j)"
  have len: "length ?tr = ?N + length (concat ?C)"
    using concat_take_le[of ?j ?C] jN by (simp add: fill_pre_def)
  have ok: "offset_for (of_nat st) (of_nat a) < length ?tr" using off len jN by simp
  have upd: "?tr[?j := cell_start d ?j] =
      (take (Suc ?j) ?O @ replicate (?N - Suc ?j) 0 @ concat (take ?j ?C)) @
        replicate (length (concat ?C) - ?S) 0 @ []"
    using update_gap[of ?j ?O ?N "concat (take ?j ?C) @ replicate (length (concat ?C) - ?S) 0"] jN
    by (simp add: fill_pre_def)
  have lp: "length (take (Suc ?j) ?O @ replicate (?N - Suc ?j) 0 @ concat (take ?j ?C)) = cell_start d ?j"
    using jN by (simp add: cell_start_def)
  have vs: "length (d ! st ! a) \<le> length (concat ?C) - ?S" using Sle S1 by simp
  have w: "fold_opt (\<lambda>v s. case s of (tr, off) \<Rightarrow> if off < length tr then Some (tr[off := v], off + 1) else None)
      (d ! st ! a) (?tr[?j := cell_start d ?j], cell_start d ?j) =
      Some ((take (Suc ?j) ?O @ replicate (?N - Suc ?j) 0 @ concat (take ?j ?C)) @ d ! st ! a @
              replicate (length (concat ?C) - ?S - length (d ! st ! a)) 0 @ [],
            cell_start d ?j + length (d ! st ! a))"
    using write_targets[OF vs, of "take (Suc ?j) ?O @ replicate (?N - Suc ?j) 0 @ concat (take ?j ?C)" "[]"]
    unfolding upd lp by simp
  have "fill_pre d (Suc ?j) =
      ((take (Suc ?j) ?O @ replicate (?N - Suc ?j) 0 @ concat (take ?j ?C)) @ d ! st ! a @
         replicate (length (concat ?C) - ?S - length (d ! st ! a)) 0 @ [],
       cell_start d ?j + length (d ! st ! a))"
    using S1 by (simp add: fill_pre_def cell_start_def)
  then show ?thesis using w row off ok by (simp add: fill_cell_def fill_pre_def)
qed

lemma fill_row:
  assumes wf: "rows_wf c d" and st: "st < length d"
    and small: "length d * alph_size + length (concat (cells d)) < 2 ^ 32"
  shows "b \<le> alph_size \<Longrightarrow>
    fold_opt (fill_cell d st) [0..<b] (fill_pre d (st * alph_size)) = Some (fill_pre d (st * alph_size + b))"
proof (induction b)
  case (Suc b)
  then show ?case using fill_cell_step[OF wf st _ small, of b] by (simp add: fold_opt_append)
qed simp

lemma fill_rows:
  assumes wf: "rows_wf c d" and small: "length d * alph_size + length (concat (cells d)) < 2 ^ 32"
  shows "k \<le> length d \<Longrightarrow>
    fold_opt (\<lambda>st s. fold_opt (fill_cell d st) [0..<alph_size] s) [0..<k] (fill_pre d 0) =
      Some (fill_pre d (k * alph_size))"
proof (induction k)
  case (Suc k)
  then show ?case using fill_row[OF wf _ small, of k alph_size] by (simp add: fold_opt_append add.commute)
qed simp

lemma fill_pre_0:
  "fill_pre d 0 = (replicate (length d * alph_size + length (concat (cells d))) 0, length d * alph_size)"
  by (simp add: fill_pre_def cell_start_def replicate_add)

lemma fill_pre_all: "rows_wf c d \<Longrightarrow> fill_pre d (length d * alph_size) = (layout d, cell_start d (length d * alph_size))"
  using cells_length[of c d] by (simp add: fill_pre_def layout_def)

lemma data_size_row:
  "rows_wf c d \<Longrightarrow> u < length d \<Longrightarrow> b \<le> alph_size \<Longrightarrow>
   fold_opt (\<lambda>a sz. map_option (\<lambda>ts. sz + length ts) (trans_at d u a)) [0..<b] sz0 =
     Some (sz0 + length (concat (take b (d ! u))))"
proof (induction b)
  case (Suc b)
  have "trans_at d u b = Some (d ! u ! b)" using rows_wf_nth[OF Suc.prems(1,2)] Suc.prems(3) by simp
  moreover have "b < length (d ! u)" using rows_wf_row_length[OF Suc.prems(1,2)] Suc.prems(3) by simp
  ultimately show ?case using Suc by (simp add: fold_opt_append take_Suc_conv_app_nth)
qed simp

lemma data_size_value:
  assumes wf: "rows_wf c d"
  shows "data_size d (length d) = Some (length d * alph_size + length (concat (cells d)))"
proof -
  have "k \<le> length d \<Longrightarrow>
    fold_opt (\<lambda>u sz. fold_opt (\<lambda>a sz. map_option (\<lambda>ts. sz + length ts) (trans_at d u a)) [0..<alph_size] sz)
       [0..<k] (length d * alph_size) = Some (length d * alph_size + length (concat (concat (take k d))))" for k
  proof (induction k)
    case (Suc k)
    have "take alph_size (d ! k) = d ! k" using rows_wf_row_length[OF wf, of k] Suc.prems by simp
    then show ?case using Suc data_size_row[OF wf, of k alph_size] by (simp add: fold_opt_append take_Suc_conv_app_nth)
  qed simp
  from this[of "length d"] show ?thesis by (simp add: data_size_def cells_def)
qed

lemma fill_terminals:
  "k \<le> length ts \<Longrightarrow> length ts \<le> isz \<Longrightarrow>
   fold_opt (\<lambda>i it. if i < length it \<and> i < length ts then Some (it[i := ts ! i]) else None) [0..<k]
     (replicate isz False) = Some (take k ts @ replicate (isz - k) False)"
proof (induction k)
  case (Suc k)
  have r: "replicate (isz - k) False = False # replicate (isz - Suc k) False"
    using Suc.prems by (metis Suc_diff_Suc Suc_le_lessD le_trans replicate_Suc)
  have "(take k ts @ replicate (isz - k) False)[k := ts ! k] = take (Suc k) ts @ replicate (isz - Suc k) False"
    unfolding r using Suc.prems by (simp add: list_update_append take_Suc_conv_app_nth)
  then show ?case using Suc by (simp add: fold_opt_append)
qed simp

lemma fast_init_ok:
  assumes wf: "nfa_wf A" and isz: "states_number A \<le> isz"
    and small: "length (delta A) * alph_size + length (concat (cells (delta A))) < 2 ^ 32"
  shows "fast_init A isz = Some \<lparr>transitions = layout (delta A),
           is_terminal = terminal_states A @ replicate (isz - states_number A) False,
           fast_states_number = states_number A, fast_entrance = entrance A\<rparr>"
proof -
  let ?n = "states_number A" and ?d = "delta A"
  have w: "rows_wf ?n ?d" "length ?d = ?n" "length (terminal_states A) = ?n"
    using wf by (simp_all add: nfa_wf_def)
  have t: "fold_opt (\<lambda>i it. if i < length it \<and> i < length (terminal_states A) then Some (it[i := terminal_states A ! i])
             else None) [0..<?n] (replicate isz False) = Some (terminal_states A @ replicate (isz - ?n) False)"
    using fill_terminals[of ?n "terminal_states A" isz] w(3) isz by simp
  have ds: "data_size ?d ?n = Some (?n * alph_size + length (concat (cells ?d)))"
    using data_size_value[OF w(1)] w(2) by simp
  have f: "fold_opt (\<lambda>st s. fold_opt (fill_cell ?d st) [0..<alph_size] s) [0..<?n]
             (replicate (?n * alph_size + length (concat (cells ?d))) 0, ?n * alph_size) =
           Some (layout ?d, cell_start ?d (?n * alph_size))"
    using fill_rows[OF w(1) small, of ?n] fill_pre_0[of ?d] fill_pre_all[OF w(1)] w(2) by simp
  show ?thesis using t ds f by (simp add: fast_init_def Let_def)
qed

section \<open>Reading the table back\<close>

lemma cell_start_Suc:
  "rows_wf c d \<Longrightarrow> j < length d * alph_size \<Longrightarrow> cell_start d (Suc j) = cell_start d j + length (cells d ! j)"
  using concat_take_Suc[of j "cells d"] cells_length[of c d] by (simp add: cell_start_def)

lemma cell_start_le: "cell_start d j \<le> length d * alph_size + length (concat (cells d))"
  using concat_take_le[of j "cells d"] by (simp add: cell_start_def)

lemma layout_cell:
  assumes "rows_wf c d" "j < length d * alph_size"
  shows "take (length (cells d ! j)) (drop (cell_start d j) (layout d)) = cells d ! j"
proof -
  let ?C = "cells d"
  have lc: "length ?C = length d * alph_size" using cells_length[OF assms(1)] .
  have "concat ?C = concat (take j ?C) @ ?C ! j @ concat (drop (Suc j) ?C)"
    using assms(2) lc by (metis append_take_drop_id concat.simps(2) concat_append Cons_nth_drop_Suc)
  then have "drop (cell_start d j) (layout d) = ?C ! j @ concat (drop (Suc j) ?C)"
    by (simp add: layout_def cell_start_def)
  then show ?thesis by simp
qed

lemma layout_offset:
  "rows_wf c d \<Longrightarrow> j < length d * alph_size \<Longrightarrow> nth_opt (layout d) j = Some (cell_start d j)"
  by (simp add: nth_opt_def layout_def nth_append)

lemma layout_length: "rows_wf c d \<Longrightarrow> length (layout d) = cell_start d (length d * alph_size)"
  using cells_length[of c d] by (simp add: layout_def cell_start_def)

lemma next_offset:
  assumes wf: "rows_wf c d" and v: "v < length d" and a: "a < alph_size"
    and small: "length d * alph_size + length (concat (cells d)) < 2 ^ 32"
    and fa: "transitions fa = layout d" "fast_states_number fa = length d"
  shows "(if (of_nat a :: 32 word) < 26 then offset_for_transition fa (of_nat v) (of_nat a + 1)
          else if (ucast (of_nat v :: 32 word) :: size_t) < of_nat (fast_states_number fa) - 1
          then offset_for_transition fa (of_nat v + 1) 0
          else Some (length (transitions fa))) = Some (cell_start d (Suc (v * alph_size + a)))"
proof -
  let ?N = "length d * alph_size"
  have N: "?N < 2 ^ 32" using small by simp
  have vN: "v * alph_size + alph_size \<le> ?N" using v by (metis add.commute mult_Suc le_simps(3) mult_le_mono1)
  show ?thesis
  proof (cases "a < 26")
    case True
    have lt: "(of_nat a :: 32 word) < 26" using True word32_less_nat[of a 26] by simp
    have e1: "(of_nat a + 1 :: 32 word) = of_nat (Suc a)" by simp
    have "offset_for (of_nat v) (of_nat (Suc a)) = Suc (v * alph_size + a)"
      using offset_for_nat[of v "Suc a"] vN N True by (simp add: alph_size_def)
    then have off1: "offset_for (of_nat v) (of_nat a + 1) = Suc (v * alph_size + a)" unfolding e1 .
    have "Suc (v * alph_size + a) < ?N" using vN True by (simp add: alph_size_def)
    then have "offset_for_transition fa (of_nat v) (of_nat a + 1) = Some (cell_start d (Suc (v * alph_size + a)))"
      unfolding offset_for_transition_def fa(1) off1 by (rule layout_offset[OF wf])
    then show ?thesis using lt by simp
  next
    case False
    then have a26: "a = 26" using a by (simp add: alph_size_def)
    have n1: "(of_nat (length d) - 1 :: size_t) = of_nat (length d - 1)" using v by (simp add: of_nat_diff)
    have uv: "(ucast (of_nat v :: 32 word) :: size_t) = of_nat v" using ucast_of_nat_32_64[of v] v N
      by (simp add: alph_size_def)
    have "\<not> (of_nat a :: 32 word) < 26" using a26 by simp
    moreover have "(ucast (of_nat v :: 32 word) :: size_t) < of_nat (length d) - 1 \<longleftrightarrow> v < length d - 1"
      unfolding uv n1 using word64_less_nat[of v "length d - 1"] v N by (simp add: alph_size_def)
    moreover have "offset_for_transition fa (of_nat v + 1) 0 = Some (cell_start d (Suc (v * alph_size + a)))"
      if "v < length d - 1"
    proof -
      have "Suc v * 27 + 0 < 2 ^ 32" "Suc v * alph_size < ?N" using that N v
        by (simp_all add: alph_size_def)
      moreover have "offset_for (of_nat v + 1) 0 = Suc v * 27"
      proof -
        have e: "((of_nat v + 1) * 27 + 0 :: 32 word) = of_nat (Suc v * 27)" by simp
        have "unat (of_nat (Suc v * 27) :: 32 word) = Suc v * 27"
          by (rule unat_of_nat_below) (use \<open>Suc v * 27 + 0 < 2 ^ 32\<close> in simp)
        then show ?thesis unfolding offset_for_def e .
      qed
      ultimately show ?thesis using layout_offset[OF wf, of "Suc v * 27"] fa a26
        by (simp add: offset_for_transition_def alph_size_def)
    qed
    moreover have "length (transitions fa) = cell_start d (Suc (v * alph_size + a))" if "\<not> v < length d - 1"
    proof -
      have "Suc (v * alph_size + a) = ?N" using that v a26 by (simp add: alph_size_def)
      then show ?thesis using layout_length[OF wf] fa by simp
    qed
    ultimately show ?thesis using fa by auto
  qed
qed

lemma neighbors_layout:
  assumes wf: "rows_wf c d" and v: "v < length d" and a: "a < alph_size"
    and small: "length d * alph_size + length (concat (cells d)) < 2 ^ 32"
    and fa: "transitions fa = layout d" "fast_states_number fa = length d"
  shows "neighbors fa (of_nat v) (of_nat a) = Some (d ! v ! a)"
proof -
  let ?N = "length d * alph_size" and ?j = "v * alph_size + a"
  have jN: "?j < ?N"
  proof -
    have "?j < v * alph_size + alph_size" using a by simp
    also have "\<dots> \<le> ?N" using v by (metis add.commute mult_Suc le_simps(3) mult_le_mono1)
    finally show ?thesis .
  qed
  have off: "offset_for (of_nat v) (of_nat a) = ?j"
    using offset_for_nat[of v a] small jN by (simp add: alph_size_def)
  have b: "offset_for_transition fa (of_nat v) (of_nat a) = Some (cell_start d ?j)"
    unfolding offset_for_transition_def fa(1) off by (rule layout_offset[OF wf jN])
  have nx: "cell_start d (Suc ?j) = cell_start d ?j + length (d ! v ! a)"
    using cell_start_Suc[OF wf jN] cells_nth[OF wf v a] by simp
  have le: "cell_start d (Suc ?j) < 2 ^ 32" using cell_start_le[of d "Suc ?j"] small by linarith
  have k: "transitions_number fa (of_nat v) (of_nat a) =
      Some (ucast (of_nat (cell_start d (Suc ?j)) :: 32 word) - of_nat (cell_start d ?j))"
    using next_offset[OF wf v a small fa] b by (simp add: transitions_number_def Let_def)
  have uk: "unat (ucast (of_nat (cell_start d (Suc ?j)) :: 32 word) - (of_nat (cell_start d ?j) :: size_t)) =
      length (d ! v ! a)"
    using count_of_offsets[of "cell_start d ?j" "cell_start d (Suc ?j)"] nx le by simp
  have fit: "cell_start d ?j + length (d ! v ! a) \<le> length (transitions fa)"
    using nx cell_start_le[of d "Suc ?j"] fa(1) by (simp add: layout_def)
  have "take (length (d ! v ! a)) (drop (cell_start d ?j) (transitions fa)) = d ! v ! a"
    using layout_cell[OF wf jN] cells_nth[OF wf v a] fa(1) by simp
  then show ?thesis using b k uk fit by (simp add: neighbors_def)
qed

section \<open>The scan\<close>

lemma cell_ok_length: "cell_ok c ts \<Longrightarrow> length ts \<le> c"
proof -
  assume "cell_ok c ts"
  then have "distinct ts" "set ts \<subseteq> {..<c}" by (auto simp: cell_ok_def list_all_iff)
  then show ?thesis by (metis card_lessThan card_mono distinct_card finite_lessThan)
qed

lemma cells_size:
  assumes "rows_wf c d"
  shows "length (concat (cells d)) \<le> length d * alph_size * c"
proof -
  have "list_all (\<lambda>ts. length ts \<le> c) (cells d)"
    using assms cell_ok_length by (auto simp: rows_wf_def cells_def list_all_iff)
  then have "sum_list (map length (cells d)) \<le> length (cells d) * c" by (rule sum_list_le_length_mult)
  then show ?thesis using cells_length[OF assms] by (simp add: length_concat)
qed

lemma char_sym_letter:
  "(97 :: nat) \<le> of_char ch \<Longrightarrow> of_char ch \<le> (122 :: nat) \<Longrightarrow> char_sym ch = of_nat (of_char ch - 97)"
proof -
  assume l: "(97 :: nat) \<le> of_char ch" "of_char ch \<le> (122 :: nat)"
  then have "int (of_char ch) - 97 = int (of_char ch - 97)" by simp
  then show ?thesis using l by (simp add: char_sym_def)
qed

lemma scan_arc_ok:
  assumes "scan_inv n T st" "u < n" "n \<le> length (is_terminal fa)" "s < length T"
  shows "\<exists>st'. scan_arc fa i s u st = Some st' \<and> scan_inv n T st'"
proof -
  obtain new mb ml where st: "st = (new, mb, ml)" by (cases st) auto
  have "add_pair new u s = Some (if new ! u > s then new[u := s] else new)"
    using assms st by (simp add: add_pair_def scan_inv_def)
  moreover have "nth_opt (is_terminal fa) u = Some (is_terminal fa ! u)" using assms by (simp add: nth_opt_def)
  ultimately show ?thesis using assms st by (simp add: scan_arc_def scan_inv_def)
qed

lemma scan_state_ok:
  assumes wf: "nfa_wf A" and isz: "states_number A \<le> isz"
    and small: "length (delta A) * alph_size + length (concat (cells (delta A))) < 2 ^ 32"
    and fa: "transitions fa = layout (delta A)" "fast_states_number fa = states_number A"
      "length (is_terminal fa) = isz"
    and lt: "lower_text tx" and i: "i < length tx" and v: "v < states_number A"
    and cur: "length cur = states_number A" and st: "scan_inv (states_number A) tx st"
  shows "\<exists>st'. scan_state fa tx i cur v st = Some st' \<and> scan_inv (states_number A) tx st'"
proof (cases "cur ! v < length tx")
  case True
  let ?a = "of_char (tx ! i) - 97"
  have l: "(97 :: nat) \<le> of_char (tx ! i)" "of_char (tx ! i) \<le> (122 :: nat)"
    using lt i by (auto simp: lower_text_def list_all_length)
  have a: "?a < alph_size" using l by (simp add: alph_size_def)
  have w: "rows_wf (states_number A) (delta A)" "length (delta A) = states_number A" using wf by (simp_all add: nfa_wf_def)
  have nb: "neighbors fa (of_nat v) (char_sym (tx ! i)) = Some (delta A ! v ! ?a)"
    using neighbors_layout[OF w(1) _ a small fa(1)] fa(2) w(2) v char_sym_letter[OF l] by simp
  have us: "\<forall>u \<in> set (delta A ! v ! ?a). u < states_number A" using rows_wf_nth[OF w(1) _ a] v w(2) by simp
  have "\<exists>st'. fold_opt (scan_arc fa i (cur ! v)) (delta A ! v ! ?a) st = Some st' \<and> scan_inv (states_number A) tx st'"
  proof (rule fold_opt_inv[where P = "scan_inv (states_number A) tx", OF st])
    fix u s assume "u \<in> set (delta A ! v ! ?a)" "scan_inv (states_number A) tx s"
    then show "\<exists>s'. scan_arc fa i (cur ! v) u s = Some s' \<and> scan_inv (states_number A) tx s'"
      using scan_arc_ok[of "states_number A" tx s u fa "cur ! v" i] us isz fa(3) True by auto
  qed
  then show ?thesis using True nb by (simp add: scan_state_def)
qed (simp add: scan_state_def st)

lemma get_max_suited_substr_ok:
  assumes wf: "nfa_wf A" and isz: "states_number A \<le> isz"
    and small: "length (delta A) * alph_size + length (concat (cells (delta A))) < 2 ^ 32"
    and lt: "lower_text tx"
  shows "\<exists>r. get_max_suited_substr A isz tx = Some r \<and> (\<exists>i. take (length r) (drop i tx) = r)"
proof -
  let ?n = "states_number A"
  let ?fa = "\<lparr>transitions = layout (delta A), is_terminal = terminal_states A @ replicate (isz - ?n) False,
              fast_states_number = ?n, fast_entrance = entrance A\<rparr>"
  have fi: "fast_init A isz = Some ?fa" using fast_init_ok[OF wf isz small] .
  have fa: "transitions ?fa = layout (delta A)" "fast_states_number ?fa = ?n" "length (is_terminal ?fa) = isz"
    using wf isz by (simp_all add: nfa_wf_def)
  have e: "entrance A < ?n" using wf by (simp add: nfa_wf_def)
  have "\<exists>st. fold_opt (scan_step ?fa tx) [0..<length tx] (replicate ?n max_uint, 0, 0) = Some st \<and> scan_inv ?n tx st"
  proof (rule fold_opt_inv[where P = "scan_inv ?n tx"])
    show "scan_inv ?n tx (replicate ?n max_uint, 0, 0)" by (simp add: scan_inv_def)
    fix i st assume i: "i \<in> set [0..<length tx]" and st: "scan_inv ?n tx st"
    obtain cur mb ml where c: "st = (cur, mb, ml)" by (cases st) auto
    let ?cur' = "if cur ! entrance A > i then cur[entrance A := i] else cur"
    have ap: "add_pair cur (fast_entrance ?fa) i = Some ?cur'"
      using st c e by (simp add: add_pair_def scan_inv_def)
    have lc: "length ?cur' = ?n" using st c by (simp add: scan_inv_def)
    have "\<exists>st'. fold_opt (scan_state ?fa tx i ?cur') [0..<?n] (replicate ?n max_uint, mb, ml) = Some st' \<and>
                scan_inv ?n tx st'"
    proof (rule fold_opt_inv[where P = "scan_inv ?n tx"])
      show "scan_inv ?n tx (replicate ?n max_uint, mb, ml)" using st c by (simp add: scan_inv_def)
      fix v s assume "v \<in> set [0..<?n]" "scan_inv ?n tx s"
      then show "\<exists>s'. scan_state ?fa tx i ?cur' v s = Some s' \<and> scan_inv ?n tx s'"
        using scan_state_ok[OF wf isz small fa lt _ _ lc] i by simp
    qed
    then show "\<exists>st'. scan_step ?fa tx i st = Some st' \<and> scan_inv ?n tx st'"
      using ap c by (simp add: scan_step_def)
  qed
  then obtain cur mb ml where r: "fold_opt (scan_step ?fa tx) [0..<length tx] (replicate ?n max_uint, 0, 0) = Some (cur, mb, ml)"
    and mb: "mb \<le> length tx" by (auto simp: scan_inv_def)
  have "take (length (take ml (drop mb tx))) (drop mb tx) = take ml (drop mb tx)" by (simp add: min_def)
  then show ?thesis using fi r mb by (auto simp: get_max_suited_substr_def)
qed

lemma closure_input_small:
  assumes "0 < n" "list_all (\<lambda>t. t < n) terms" "list_all (\<lambda>(f, c, t). f < n \<and> t < n \<and> sym_ok c) trs"
    and "n * alph_size * (n + 1) < 2 ^ 32"
  shows "\<exists>A A'. automata_init n terms trs = Some A \<and> become_closure A = Some A' \<and> nfa_wf A' \<and>
           states_number A' \<le> n \<and> length (delta A') * alph_size + length (concat (cells (delta A'))) < 2 ^ 32"
proof -
  obtain A where A: "automata_init n terms trs = Some A" "nfa_wf A" "states_number A = n"
    using automata_init_wf[OF assms(1-3)] by blast
  obtain A' where A': "become_closure A = Some A'" "nfa_wf A'" "states_number A' \<le> n"
    using become_closure_ok[OF A(2)] A(3) by auto
  let ?c = "states_number A'"
  have w: "rows_wf ?c (delta A')" "length (delta A') = ?c" using A'(2) by (simp_all add: nfa_wf_def)
  have "length (delta A') * alph_size + length (concat (cells (delta A'))) \<le> ?c * alph_size * (?c + 1)"
    using cells_size[OF w(1)] w(2) by (simp add: algebra_simps)
  also have "\<dots> \<le> n * alph_size * (n + 1)" using A'(3) by (intro mult_mono) simp_all
  finally have "length (delta A') * alph_size + length (concat (cells (delta A'))) < 2 ^ 32"
    using assms(4) by linarith
  then show ?thesis using A(1) A' by blast
qed

section \<open>Properties of the flattened automaton and of \<^verbatim>\<open>main\<close>\<close>

text \<open>C9. The flattened automaton refines the automaton it is built from: on a well-formed
  automaton whose table has fewer than \<open>2^32\<close> entries, and with \<^verbatim>\<open>_is_terminal\<close> at least
  as long as the number of states, the constructor returns, keeps the entrance, the number of
  states and the terminal flags, and \<^verbatim>\<open>neighbors(state, symbol)\<close> is exactly
  \<^verbatim>\<open>_delta[state][symbol]\<close> for every state and every symbol.\<close>

theorem fast_init_refines:
  assumes "nfa_wf A" "states_number A \<le> isz"
    and "length (delta A) * alph_size + length (concat (concat (delta A))) < 2 ^ 32"
  shows "\<exists>fa. fast_init A isz = Some fa \<and> fast_states_number fa = states_number A \<and>
           fast_entrance fa = entrance A \<and> take (states_number A) (is_terminal fa) = terminal_states A \<and>
           list_all (\<lambda>v. list_all (\<lambda>a. neighbors fa (of_nat v) (of_nat a) = Some (delta A ! v ! a))
                                   [0..<alph_size]) [0..<states_number A]"
proof -
  have w: "rows_wf (states_number A) (delta A)" "length (delta A) = states_number A"
    "length (terminal_states A) = states_number A" using assms(1) by (simp_all add: nfa_wf_def)
  have small: "length (delta A) * alph_size + length (concat (cells (delta A))) < 2 ^ 32"
    using assms(3) by (simp add: cells_def)
  show ?thesis
    using fast_init_ok[OF assms(1,2) small] neighbors_layout[OF w(1) _ _ small] w
    by (simp add: list_all_iff)
qed

theorem fast_init_refines_witness:
  "nfa_wf \<lparr>entrance = 0, components_number = 0, states_number = 2,
           delta = [[[1]] @ replicate 26 [], replicate 27 []], terminal_states = [False, True]\<rparr> \<and> list_all (\<lambda>v. list_all (\<lambda>a. neighbors (the (fast_init \<lparr>entrance = 0, components_number = 0, states_number = 2,
           delta = [[[1]] @ replicate 26 [], replicate 27 []], terminal_states = [False, True]\<rparr> 3)) (of_nat v) (of_nat a) =
      Some (delta \<lparr>entrance = 0, components_number = 0, states_number = 2,
           delta = [[[1]] @ replicate 26 [], replicate 27 []], terminal_states = [False, True]\<rparr> ! v ! a)) [0..<alph_size]) [0..<2] \<and> fast_init \<lparr>entrance = 0, components_number = 0, states_number = 2,
           delta = [[[1]] @ replicate 26 [], replicate 27 []], terminal_states = [False, True]\<rparr> 3 \<noteq> None"
  using fast_init_refines[of "\<lparr>entrance = 0, components_number = 0, states_number = 2,
           delta = [[[1]] @ replicate 26 [], replicate 27 []], terminal_states = [False, True]\<rparr>" 3]
  by (auto simp: nfa_wf_def rows_wf_def cell_ok_def alph_size_def list_all_iff)

text \<open>C7. \<^verbatim>\<open>main\<close> answers every valid input: when the state ids are below \<open>n > 0\<close>, the
  symbols are letters or \<^verbatim>\<open>'$'\<close>, \<^verbatim>\<open>_is_terminal\<close> has at least \<open>n\<close> entries, the text is
  lower-case and \<open>27 n (n + 1) < 2^32\<close> (so that every offset of the flattened table of
  the closed automaton fits an \<^verbatim>\<open>unsigned int\<close>), reading, closure, flattening and scan all
  return, and the answer is \<^verbatim>\<open>No solution\<close> or a non-empty factor of the text.\<close>

theorem main_nfa_returns:
  assumes "0 < n" "list_all (\<lambda>t. t < n) terms" "list_all (\<lambda>(f, c, t). f < n \<and> t < n \<and> sym_ok c) trs"
    and "n \<le> isz" "n * alph_size * (n + 1) < 2 ^ 32" "lower_text text"
  shows "\<exists>out. main_nfa n terms trs text isz = Some out \<and>
           (out = ''No solution'' \<or> (out \<noteq> [] \<and> (\<exists>i. take (length out) (drop i text) = out)))"
proof -
  obtain A A' where A: "automata_init n terms trs = Some A" "become_closure A = Some A'" "nfa_wf A'"
    "states_number A' \<le> n" "length (delta A') * alph_size + length (concat (cells (delta A'))) < 2 ^ 32"
    using closure_input_small[OF assms(1-3,5)] by blast
  obtain r where "get_max_suited_substr A' isz text = Some r" "\<exists>i. take (length r) (drop i text) = r"
    using get_max_suited_substr_ok[OF A(3) _ A(5) assms(6), of isz] A(4) assms(4) by auto
  then show ?thesis using A(1,2) by (auto simp: main_nfa_def)
qed

theorem main_nfa_returns_witness:
  "\<exists>out. main_nfa 4 [3] [(1, CHR ''$'', 2), (1, CHR ''$'', 3), (3, CHR ''$'', 2), (0, CHR ''a'', 2)] ''a'' 4 = Some out \<and>
     (out = ''No solution'' \<or> (out \<noteq> [] \<and> (\<exists>i. take (length out) (drop i ''a'') = out)))"
  by (rule main_nfa_returns) (simp_all add: sym_ok_def symbol_index_def alph_size_def lower_text_def)

end
