(* ===== verification/Nfa_Better.thy ===== *)
theory Nfa_Better
  imports Comb "HOL-Library.Multiset"
begin

text \<open>
  The compact automaton reader of \<^verbatim>\<open>src/2015-06-06/2/better.C\<close>: states and arc counts are
  \<^verbatim>\<open>uint16_t\<close> (\<open>16 word\<close>), a target is a pair of bit-fields (a 5-bit symbol, \<open>0\<close> for
  \<open>\<epsilon>\<close>, and an 11-bit state), the transitions are sorted by source with
  \<^verbatim>\<open>std::sort\<close> and stored in a \<^verbatim>\<open>Comb<Arc, Target>\<close> by \<^verbatim>\<open>compactify_to\<close>
  (\<^verbatim>\<open>Comb.thy\<close>). \<^verbatim>\<open>main\<close> only reads the automaton. The comparator \<^verbatim>\<open>less\<close> compares
  sources only, so the order \<^verbatim>\<open>std::sort\<close> leaves within one source is unspecified: the
  sort is a parameter \<open>srt\<close>, constrained by \<open>sort_spec\<close> to return a permutation sorted
  by \<^verbatim>\<open>less\<close>.

  \<^verbatim>\<open>find_epsilon_components\<close> is not called by \<^verbatim>\<open>main\<close> and does not compile (it calls a
  member \<^verbatim>\<open>size()\<close> that \<^verbatim>\<open>Comb\<close> lacks, only to \<^verbatim>\<open>reserve\<close>, which has no effect on the
  contents); it is modelled as written otherwise. Its inner loop reads
  \<^verbatim>\<open>inverted.at(src, dst)\<close> with \<^verbatim>\<open>dst\<close> not yet initialised: that read is undefined
  behaviour, the error \<open>None\<close>.
\<close>

section \<open>Data\<close>

record target =
  tsymbol :: "5 word"
  tstate :: "11 word"

type_synonym state = "16 word"
type_synonym transition = "state \<times> target"
type_synonym transitions = "(16 word, target) comb"

record automata_b =
  term_b :: "bool list"
  trans_b :: transitions

text \<open>The value of a \<^verbatim>\<open>char\<close> (signed) in arithmetic.\<close>

definition schar :: "char \<Rightarrow> int" where
  "schar ch = (if of_char ch < (128 :: nat) then int (of_char ch) else int (of_char ch) - 256)"

definition get_symbol :: "char \<Rightarrow> 8 word" where
  "get_symbol raw = (if raw = CHR ''$'' then 0 else word_of_int (schar raw - schar CHR ''a'' + 1))"

text \<open>\<^verbatim>\<open>put_symbol(char symbol)\<close>: the assertion, then \<^verbatim>\<open>symbol - 1 + 'a'\<close> as an
  \<^verbatim>\<open>unsigned char\<close>.\<close>

definition put_symbol :: "int \<Rightarrow> 8 word option" where
  "put_symbol symbol = (if symbol = 0 then None else Some (word_of_int (symbol - 1 + schar CHR ''a'')))"

definition less_tr :: "transition \<Rightarrow> transition \<Rightarrow> bool" where
  "less_tr lhs rhs \<longleftrightarrow> fst lhs < fst rhs"

text \<open>What \<^verbatim>\<open>std::sort(begin, end, less)\<close> guarantees.\<close>

definition sort_spec :: "(transition list \<Rightarrow> transition list) \<Rightarrow> bool" where
  "sort_spec srt \<longleftrightarrow> (\<forall>xs. mset (srt xs) = mset xs \<and> sorted_wrt (\<lambda>a b. \<not> less_tr b a) (srt xs))"

section \<open>Reading\<close>

definition read_terminals :: "state \<Rightarrow> state list \<Rightarrow> bool list option" where
  "read_terminals n ss =
     fold_opt (\<lambda>s ts. if unat s < length ts then Some (ts[unat s := True]) else None) ss (replicate (unat n) False)"

text \<open>One raw transition \<^verbatim>\<open>{src, {get_symbol(raw_symbol), dst}}\<close>: the bit-fields keep the
  low 5 and 11 bits.\<close>

definition raw_transition :: "state \<times> char \<times> state \<Rightarrow> transition" where
  "raw_transition t = (case t of (src, raw, dst) \<Rightarrow> (src, \<lparr>tsymbol = ucast (get_symbol raw), tstate = ucast dst\<rparr>))"

definition read_transitions ::
  "(transition list \<Rightarrow> transition list) \<Rightarrow> state \<Rightarrow> (state \<times> char \<times> state) list \<Rightarrow> transitions option" where
  "read_transitions srt n trs = compactify_to (srt (map raw_transition trs)) n comb_init"

text \<open>\<^verbatim>\<open>read_automata\<close>: the header \<open>n m k\<close>, then \<open>k\<close> terminal states and \<open>m\<close>
  transitions (the lists as read).\<close>

definition read_automata ::
  "(transition list \<Rightarrow> transition list) \<Rightarrow> state \<Rightarrow> state list \<Rightarrow> (state \<times> char \<times> state) list \<Rightarrow> automata_b option" where
  "read_automata srt n terms trs =
     (case read_terminals n terms of
        None \<Rightarrow> None
      | Some ts \<Rightarrow>
          (case read_transitions srt n trs of
             None \<Rightarrow> None
           | Some tr \<Rightarrow> Some \<lparr>term_b = ts, trans_b = tr\<rparr>))"

section \<open>\<^verbatim>\<open>find_epsilon_components\<close>\<close>

text \<open>The inverted \<open>\<epsilon>\<close>-edges: for every stored target of symbol \<open>0\<close>,
  \<^verbatim>\<open>{target.state, {0, src}}\<close>.\<close>

definition invert_row :: "transitions \<Rightarrow> nat \<Rightarrow> transition list option" where
  "invert_row tr src =
     map_option (\<lambda>row. map (\<lambda>t. (ucast (tstate t), \<lparr>tsymbol = 0, tstate = ucast (of_nat src :: state)\<rparr>))
                          (filter (\<lambda>t. tsymbol t = 0) row))
       (comb_row ucast tr src)"

definition raw_inverted :: "transitions \<Rightarrow> transition list option" where
  "raw_inverted tr = map_option concat (those (map (invert_row tr) [0..<rows tr]))"

text \<open>The flood fill from a start state: the first iteration of the \<^verbatim>\<open>for\<close> loop over a
  non-empty row reads \<^verbatim>\<open>dst\<close> uninitialised.\<close>

fun flood :: "(16 word, target) comb \<Rightarrow> nat list \<Rightarrow> unit option" where
  "flood ic [] = Some ()"
| "flood ic (src # st) =
     (case comb_length ucast ic src of
        None \<Rightarrow> None
      | Some l \<Rightarrow> if l = 0 then flood ic st else None)"

text \<open>The outer \<^verbatim>\<open>for\<close> loop from the inner \<^verbatim>\<open>while\<close>: \<^verbatim>\<open>(*out)[i]\<close> is read before
  \<^verbatim>\<open>i != out->size()\<close> is tested; a state still \<open>0\<close> starts a flood fill under a new
  component number, and \<^verbatim>\<open>++i\<close> returns to the \<^verbatim>\<open>for\<close> test.\<close>

function components_loop_b :: "transitions \<Rightarrow> state list \<Rightarrow> state \<Rightarrow> nat \<Rightarrow> state list option" where
  "components_loop_b ic out cn i =
     (if i < length out then
        (if out ! i \<noteq> 0 then components_loop_b ic out cn (Suc i)
         else (case flood ic [i] of
                 None \<Rightarrow> None
               | Some _ \<Rightarrow> (if Suc i = length out then Some out
                            else components_loop_b ic out (cn + 1) (Suc i))))
      else None)"
  by pat_completeness auto
termination by (relation "measure (\<lambda>(ic, out, cn, i). length out - i)") auto

definition find_epsilon_components ::
  "(transition list \<Rightarrow> transition list) \<Rightarrow> automata_b \<Rightarrow> state list option" where
  "find_epsilon_components srt a =
     (let r = rows (trans_b a); out = replicate r 0 in
      case raw_inverted (trans_b a) of
        None \<Rightarrow> None
      | Some raw \<Rightarrow>
          (case compactify_to (map (\<lambda>(s, d). (ucast s :: size_t, d)) (srt raw)) (of_nat r :: size_t)
                  (comb_init :: transitions) of
             None \<Rightarrow> None
           | Some ic \<Rightarrow> (if r = 0 then Some out else components_loop_b ic out 0 0)))"

text \<open>The inverted \<open>\<epsilon>\<close>-edges of row \<open>v\<close> of a stored automaton.\<close>

definition inv_entries :: "transition list \<Rightarrow> nat \<Rightarrow> transition list" where
  "inv_entries rawT v = map (\<lambda>t. (ucast (tstate t), \<lparr>tsymbol = 0, tstate = ucast (of_nat v :: state)\<rparr>))
                          (filter (\<lambda>t. tsymbol t = 0) (row_of rawT v))"

text \<open>The types the compact layout relies on: a stored symbol is \<open>0\<close> (\<open>\<epsilon>\<close>) or a letter
  index \<open>1..26\<close>, and a stored target state is a state of the automaton.\<close>

definition target_ok :: "state \<Rightarrow> target \<Rightarrow> bool" where
  "target_ok n t \<longleftrightarrow> unat (tsymbol t) \<le> 26 \<and> unat (tstate t) < unat n"

definition automata_b_ok :: "state \<Rightarrow> automata_b \<Rightarrow> bool" where
  "automata_b_ok n a \<longleftrightarrow> length (term_b a) = unat n \<and> comb_wf (trans_b a) \<and>
     length (comb_index (trans_b a)) = unat n \<and> list_all (list_all (target_ok n)) (comb_rows (trans_b a))"

section \<open>Lemmas on reading\<close>

lemma get_symbol_letter:
  assumes "(97 :: nat) \<le> of_char ch" "of_char ch \<le> (122 :: nat)"
  shows "get_symbol ch = of_nat (of_char ch - 96)"
proof -
  have "ch \<noteq> CHR ''$''" using assms by auto
  moreover have "schar ch - schar CHR ''a'' + 1 = int (of_char ch - 96)" using assms by (simp add: schar_def)
  ultimately show ?thesis by (simp add: get_symbol_def)
qed

lemma uint_ucast_5_small: "k < 32 \<Longrightarrow> uint (ucast (of_nat k :: 8 word) :: 5 word) = int k"
proof -
  assume k: "k < 32"
  have "unat (of_nat k :: 8 word) = k" using k by (simp add: unat_of_nat_below)
  then have "unat (ucast (of_nat k :: 8 word) :: 5 word) = k"
    using k by (simp add: unsigned_ucast_eq take_bit_nat_eq_self)
  then show ?thesis by (simp add: uint_nat)
qed

lemma tstate_raw_transition: "unat (tstate (snd (raw_transition (s, ch, d)))) = unat d mod 2048"
  by (simp add: raw_transition_def unsigned_ucast_eq take_bit_eq_mod)

lemma unat_ucast_11_16: "unat (ucast (x :: 11 word) :: 16 word) = unat x"
proof -
  have "unat x < 2 ^ 11" using unsigned_less[of x] by simp
  then show ?thesis by (simp add: unsigned_ucast_eq take_bit_nat_eq_self)
qed

lemma sort_spec_sorted: "sort_spec srt \<Longrightarrow> sorted (map (unat \<circ> fst) (srt xs))"
proof -
  assume "sort_spec srt"
  then have "sorted_wrt (\<lambda>a b. \<not> less_tr b a) (srt xs)" by (simp add: sort_spec_def)
  then have "sorted_wrt (\<lambda>a b. (unat \<circ> fst) a \<le> (unat \<circ> fst) b) (srt xs)"
    by (rule sorted_wrt_mono_rel[rotated]) (simp add: less_tr_def word_le_nat_alt not_less)
  then show ?thesis by (simp add: sorted_wrt_map)
qed

lemma sort_spec_mset: "sort_spec srt \<Longrightarrow> mset (srt xs) = mset xs"
  by (simp add: sort_spec_def)

lemma mset_row_of: "mset xs = mset ys \<Longrightarrow> mset (row_of xs v) = mset (row_of ys v)"
  by (simp add: row_of_def)

lemma read_terminals_flags:
  "list_all (\<lambda>s. unat s < length ts) ss \<Longrightarrow>
   fold_opt (\<lambda>s ts. if unat s < length ts then Some (ts[unat s := True]) else None) ss ts =
     Some (map (\<lambda>v. ts ! v \<or> list_ex (\<lambda>s. unat s = v) ss) [0..<length ts])"
proof (induction ss arbitrary: ts)
  case Nil
  then show ?case by (simp add: map_nth)
next
  case (Cons s ss)
  have "map (\<lambda>v. ts[unat s := True] ! v \<or> list_ex (\<lambda>s. unat s = v) ss) [0..<length ts] =
        map (\<lambda>v. ts ! v \<or> list_ex (\<lambda>s. unat s = v) (s # ss)) [0..<length ts]"
    using Cons.prems by (auto simp: nth_list_update)
  then show ?case using Cons by simp
qed

lemma read_transitions_rows:
  assumes srt: "sort_spec srt" and src: "list_all (\<lambda>t. unat (fst t) < unat n) trs"
    and m: "length trs < 2 ^ 16"
  shows "\<exists>tr. read_transitions srt n trs = Some tr \<and> comb_wf tr \<and> length (comb_index tr) = unat n \<and>
           comb_rows tr = map (row_of (srt (map raw_transition trs))) [0..<unat n]"
proof -
  let ?raw = "srt (map raw_transition trs)"
  have "set ?raw = set (map raw_transition trs)" using sort_spec_mset[OF srt] by (metis set_mset_mset)
  then have below: "\<forall>(s, d) \<in> set ?raw. unat s < unat n"
    using src by (auto simp: list_all_iff raw_transition_def split: prod.splits)
  have "length ?raw = length trs" using sort_spec_mset[OF srt] by (metis mset_eq_length length_map)
  then have len: "length ?raw < 2 ^ LENGTH(16)" using m by simp
  obtain c where "compactify_to ?raw n (comb_init :: transitions) = Some c" "comb_wf c"
      "comb_rows c = map (row_of ?raw) [0..<unat n]"
    using compactify_to_abs[OF sort_spec_sorted[OF srt] below len] by blast
  moreover have "length (comb_index c) = unat n"
  proof -
    have "length (comb_rows c) = unat n" using calculation(3) by simp
    then show ?thesis by (simp add: comb_rows_def)
  qed
  ultimately show ?thesis by (simp add: read_transitions_def)
qed

lemma read_automata_ok:
  assumes srt: "sort_spec srt" and tm: "list_all (\<lambda>t. unat t < unat n) terms"
    and src: "list_all (\<lambda>t. unat (fst t) < unat n) trs" and m: "length trs < 2 ^ 16"
  shows "\<exists>a. read_automata srt n terms trs = Some a \<and>
           term_b a = map (\<lambda>v. list_ex (\<lambda>t. unat t = v) terms) [0..<unat n] \<and>
           comb_wf (trans_b a) \<and> length (comb_index (trans_b a)) = unat n \<and>
           comb_rows (trans_b a) = map (row_of (srt (map raw_transition trs))) [0..<unat n]"
proof -
  have t: "read_terminals n terms = Some (map (\<lambda>v. list_ex (\<lambda>t. unat t = v) terms) [0..<unat n])"
    using read_terminals_flags[of "replicate (unat n) False" terms] tm by (simp add: read_terminals_def)
  obtain tr where "read_transitions srt n trs = Some tr" "comb_wf tr" "length (comb_index tr) = unat n"
    "comb_rows tr = map (row_of (srt (map raw_transition trs))) [0..<unat n]"
    using read_transitions_rows[OF srt src m] by blast
  then show ?thesis using t by (simp add: read_automata_def)
qed

lemma comb_row_read:
  fixes c :: transitions
  assumes "comb_wf c" "v < length (comb_index c)"
  shows "comb_row ucast c v = Some (comb_rows c ! v)"
  using comb_row_exact[OF assms] exact_on_ucast[where 'i = 16] by simp

lemma sort_spec_sort_key: "sort_spec (sort_key fst)"
proof -
  have "sorted_wrt (\<lambda>a b. \<not> less_tr b a) (sort_key fst xs)" for xs :: "transition list"
  proof -
    have "sorted (map fst (sort_key fst xs))" by simp
    then have "sorted_wrt (\<lambda>a b. fst a \<le> fst b) (sort_key fst xs)" by (simp add: sorted_wrt_map)
    then show ?thesis by (rule sorted_wrt_mono_rel[rotated]) (simp add: less_tr_def not_less)
  qed
  then show ?thesis by (simp add: sort_spec_def)
qed

lemma raw_transition_ok:
  assumes c: "c = CHR ''$'' \<or> ((97 :: nat) \<le> of_char c \<and> of_char c \<le> (122 :: nat))"
    and d: "unat d < unat n" and n: "unat n \<le> 2048"
  shows "target_ok n (snd (raw_transition (s, c, d)))"
proof -
  have "unat (tsymbol (snd (raw_transition (s, c, d)))) \<le> 26"
  proof (cases "c = CHR ''$''")
    case True then show ?thesis by (simp add: raw_transition_def get_symbol_def)
  next
    case False
    then have k: "of_char c - 96 < (32::nat)" "of_char c - 96 \<le> (26::nat)" using c by auto
    have "tsymbol (snd (raw_transition (s, c, d))) = ucast (of_nat (of_char c - 96) :: 8 word)"
      using False c get_symbol_letter[of c] by (simp add: raw_transition_def)
    then show ?thesis using uint_ucast_5_small[OF k(1)] k(2) by (simp add: unat_eq_nat_uint)
  qed
  moreover have "unat (tstate (snd (raw_transition (s, c, d)))) = unat d"
    using d n by (simp add: tstate_raw_transition)
  ultimately show ?thesis using d by (simp add: target_ok_def)
qed

lemma row_of_all:
  "list_all (\<lambda>x. P (snd x)) xs \<Longrightarrow> list_all (list_all P) (map (row_of xs) vs)"
  by (auto simp: row_of_def list_all_iff)

section \<open>The components loop\<close>

lemma components_loop_zero:
  "i < length out \<Longrightarrow> list_all (\<lambda>x. x = 0) out \<Longrightarrow>
   components_loop_b ic out cn i = (if list_ex (\<lambda>j. flood ic [j] = None) [i..<length out] then None else Some out)"
proof (induction ic out cn i rule: components_loop_b.induct)
  case (1 ic out cn i)
  have z: "out ! i = 0" using "1.prems" by (simp add: list_all_length)
  have u: "[i..<length out] = i # [Suc i..<length out]" using "1.prems"(1) by (simp add: upt_conv_Cons)
  show ?case
  proof (cases "flood ic [i]")
    case None
    then show ?thesis using z u "1.prems" by (simp add: components_loop_b.simps del: flood.simps)
  next
    case (Some x)
    then have f: "flood ic [i] = Some ()" by simp
    show ?thesis
    proof (cases "Suc i = length out")
      case True
      then show ?thesis using f z u "1.prems" by (simp add: components_loop_b.simps del: flood.simps)
    next
      case False
      then have "Suc i < length out" using "1.prems"(1) by simp
      then show ?thesis using "1.IH"(2)[of "()"] f z u False "1.prems" by (simp add: components_loop_b.simps del: flood.simps)
    qed
  qed
qed

lemma letter_symbol_nonzero:
  assumes "(97 :: nat) \<le> of_char ch" "of_char ch \<le> (122 :: nat)"
  shows "tsymbol (snd (raw_transition (s, ch, d))) \<noteq> 0"
proof -
  let ?k = "of_char ch - 96 :: nat"
  have "uint (tsymbol (snd (raw_transition (s, ch, d)))) = int ?k"
    using get_symbol_letter[OF assms] uint_ucast_5_small[of ?k] assms by (simp add: raw_transition_def)
  moreover have "0 < ?k" using assms by simp
  ultimately show ?thesis by auto
qed

lemma raw_inverted_read:
  assumes "comb_wf tr" "length (comb_index tr) = r" "comb_rows tr = map (row_of rawT) [0..<r]"
  shows "raw_inverted tr = Some (concat (map (inv_entries rawT) [0..<r]))"
proof -
  have "invert_row tr v = Some (inv_entries rawT v)" if "v \<in> set [0..<r]" for v
    using comb_row_read[OF assms(1)] assms(2,3) that by (simp add: invert_row_def inv_entries_def)
  then have "those (map (invert_row tr) [0..<r]) = Some (map (inv_entries rawT) [0..<r])"
    by (rule those_map_all_Some)
  then show ?thesis using assms(2) by (simp add: raw_inverted_def rows_def)
qed

lemma length_rows_of:
  "length (concat (map (row_of xs) [0..<r])) = length (filter (\<lambda>t. unat (fst t) < r) xs)"
proof (induction r)
  case (Suc r)
  have "length (filter (\<lambda>t. unat (fst t) < Suc r) xs) =
        length (filter (\<lambda>t. unat (fst t) < r) xs) + length (filter (\<lambda>t. unat (fst t) = r) xs)"
    by (induction xs) auto
  moreover have "length (row_of xs r) = length (filter (\<lambda>t. unat (fst t) = r) xs)"
    by (simp add: row_of_def split_def)
  ultimately show ?case using Suc by simp
qed simp

lemma inv_entries_length: "length (concat (map (inv_entries rawT) [0..<r])) \<le> length rawT"
proof -
  have "length (concat (map (inv_entries rawT) [0..<r])) \<le> length (concat (map (row_of rawT) [0..<r]))"
  proof (induction r)
    case (Suc r)
    have "length (inv_entries rawT r) \<le> length (row_of rawT r)" by (simp add: inv_entries_def)
    then show ?case using Suc by simp
  qed simp
  also have "\<dots> \<le> length rawT" by (simp add: length_rows_of)
  finally show ?thesis .
qed

lemma inv_entries_set:
  "x \<in> set (concat (map (inv_entries rawT) [0..<r])) \<Longrightarrow>
   \<exists>v t. v < r \<and> t \<in> set (row_of rawT v) \<and> tsymbol t = 0 \<and> fst x = ucast (tstate t)"
  by (fastforce simp: inv_entries_def)

lemma inv_entries_empty:
  "list_all (\<lambda>t. unat (fst t) < r) rawT \<Longrightarrow>
   concat (map (inv_entries rawT) [0..<r]) = [] \<longleftrightarrow> \<not> list_ex (\<lambda>t. tsymbol (snd t) = 0) rawT"
  by (auto simp: inv_entries_def row_of_def split_def list_all_iff list_ex_iff filter_empty_conv)

lemma flood_read:
  fixes c :: transitions
  assumes "comb_wf c" "j < length (comb_index c)"
  shows "flood c [j] = None \<longleftrightarrow> comb_rows c ! j \<noteq> []"
proof -
  obtain l where "comb_length ucast c j = Some l" "unat l = length (comb_rows c ! j)"
    using comb_length_exact[OF assms] exact_on_ucast[where 'i = 16] by fastforce
  then show ?thesis by (auto simp: unat_eq_zero)
qed

lemma row_of_nonempty:
  "list_all (\<lambda>t. unat (fst t) < r) xs \<Longrightarrow> list_ex (\<lambda>j. row_of xs j \<noteq> []) [0..<r] \<longleftrightarrow> xs \<noteq> []"
  by (cases xs) (auto simp: row_of_def list_ex_iff split_def filter_empty_conv)

lemma symbol_eps_iff:
  "c = CHR ''$'' \<or> ((97 :: nat) \<le> of_char c \<and> of_char c \<le> (122 :: nat)) \<Longrightarrow>
   tsymbol (snd (raw_transition (s, c, d))) = 0 \<longleftrightarrow> c = CHR ''$''"
  using letter_symbol_nonzero[of c s d] by (auto simp: raw_transition_def get_symbol_def)

section \<open>Properties of the compact reader\<close>

text \<open>C10. Reading refines the input: on every input whose terminal states and sources are
  below \<open>n\<close> and with fewer than \<open>2^16\<close> transitions (\<open>m\<close> is a \<^verbatim>\<open>uint16_t\<close>), and for every
  order \<^verbatim>\<open>std::sort\<close> may leave, \<^verbatim>\<open>read_automata\<close> returns; the terminal flags are those
  read, the \<^verbatim>\<open>Comb\<close> has \<open>n\<close> rows, and row \<open>v\<close> holds the encoded targets of the
  transitions from \<open>v\<close> (as a multiset: their order within a row is unspecified).\<close>

theorem read_automata_correct:
  assumes "sort_spec srt" "list_all (\<lambda>t. unat t < unat n) terms"
    and "list_all (\<lambda>t. unat (fst t) < unat n) trs" "length trs < 2 ^ 16"
  shows "\<exists>a. read_automata srt n terms trs = Some a \<and>
           term_b a = map (\<lambda>v. list_ex (\<lambda>t. unat t = v) terms) [0..<unat n] \<and> rows (trans_b a) = unat n \<and>
           list_all (\<lambda>v. \<exists>r. comb_row ucast (trans_b a) v = Some r \<and>
                             mset r = mset (row_of (map raw_transition trs) v)) [0..<unat n]"
proof -
  obtain a where a: "read_automata srt n terms trs = Some a"
    "term_b a = map (\<lambda>v. list_ex (\<lambda>t. unat t = v) terms) [0..<unat n]"
    "comb_wf (trans_b a)" "length (comb_index (trans_b a)) = unat n"
    "comb_rows (trans_b a) = map (row_of (srt (map raw_transition trs))) [0..<unat n]"
    using read_automata_ok[OF assms] by blast
  have "comb_row ucast (trans_b a) v = Some (row_of (srt (map raw_transition trs)) v)" if "v < unat n" for v
    using comb_row_read[OF a(3)] a(4,5) that by simp
  moreover have "mset (row_of (srt (map raw_transition trs)) v) = mset (row_of (map raw_transition trs) v)" for v
    by (rule mset_row_of[OF sort_spec_mset[OF assms(1)]])
  ultimately show ?thesis using a by (simp add: list_all_iff rows_def)
qed

text \<open>C11. \<^verbatim>\<open>find_epsilon_components\<close> never computes components. On a valid automaton
  (states below \<open>n\<close>, symbols letters or \<^verbatim>\<open>'$'\<close>), if there is an \<open>\<epsilon>\<close>-transition the
  flood fill reads \<^verbatim>\<open>inverted.at(src, dst)\<close> with \<^verbatim>\<open>dst\<close> uninitialised (undefined
  behaviour); otherwise it returns, but every state keeps the label \<open>0\<close>: the start of a
  flood fill is never labelled with \<^verbatim>\<open>comp\<close>.\<close>

theorem find_epsilon_components_result:
  assumes srt: "sort_spec srt" and tm: "list_all (\<lambda>t. unat t < unat n) terms"
    and tr: "list_all (\<lambda>(s, c, d). unat s < unat n \<and> unat d < unat n \<and>
                                  (c = CHR ''$'' \<or> ((97 :: nat) \<le> of_char c \<and> of_char c \<le> (122 :: nat)))) trs"
    and m: "length trs < 2 ^ 16"
  shows "\<exists>a. read_automata srt n terms trs = Some a \<and>
           find_epsilon_components srt a =
             (if list_ex (\<lambda>(s, c, d). c = CHR ''$'') trs then None else Some (replicate (unat n) 0))"
proof -
  let ?R = "unat n" and ?rawT = "srt (map raw_transition trs)"
  have src: "list_all (\<lambda>t. unat (fst t) < ?R) trs" using tr by (auto simp: list_all_iff)
  obtain a where a: "read_automata srt n terms trs = Some a" "comb_wf (trans_b a)"
      "length (comb_index (trans_b a)) = ?R" "comb_rows (trans_b a) = map (row_of ?rawT) [0..<?R]"
    using read_automata_ok[OF srt tm src m] by blast
  let ?inv = "concat (map (inv_entries ?rawT) [0..<?R])"
  have ri: "raw_inverted (trans_b a) = Some ?inv" using raw_inverted_read[OF a(2-4)] .
  have setT: "set ?rawT = raw_transition ` set trs" using sort_spec_mset[OF srt] by (metis set_mset_mset set_map)
  have rawT_src: "list_all (\<lambda>t. unat (fst t) < ?R) ?rawT"
    using setT src by (auto simp: list_all_iff raw_transition_def split: prod.splits)
  have eps: "list_ex (\<lambda>t. tsymbol (snd t) = 0) ?rawT \<longleftrightarrow> list_ex (\<lambda>(s, c, d). c = CHR ''$'') trs"
    using setT tr symbol_eps_iff by (fastforce simp: list_ex_iff list_all_iff)
  have inv_src: "unat (fst x) < ?R" if xs: "x \<in> set ?inv" for x
  proof -
    obtain v t where vt: "v < ?R" "t \<in> set (row_of ?rawT v)" "fst x = ucast (tstate t)"
      using inv_entries_set[OF xs] by blast
    then obtain y where "y \<in> set ?rawT" "t = snd y" by (auto simp: row_of_def)
    then obtain s c d where "(s, c, d) \<in> set trs" "t = snd (raw_transition (s, c, d))" using setT by auto
    moreover then have "unat d < ?R" using tr by (auto simp: list_all_iff)
    ultimately show ?thesis using vt(3) tstate_raw_transition[of s c d] unat_ucast_11_16 by simp
  qed
  have "length ?rawT = length trs" using sort_spec_mset[OF srt] by (metis mset_eq_length length_map)
  then have lenI: "length ?inv < 2 ^ 16" using inv_entries_length[of ?rawT ?R] m by linarith
  have lsrt: "length (srt ?inv) = length ?inv" using mset_eq_length[OF sort_spec_mset[OF srt]] .
  let ?raw64 = "map (\<lambda>(s, d). (ucast s :: size_t, d)) (srt ?inv)"
  have set64: "set (srt ?inv) = set ?inv" using sort_spec_mset[OF srt] by (metis set_mset_mset)
  have u64: "unat (ucast s :: size_t) = unat (s :: state)" for s using exact_on_ucast[of s] by (simp add: exact_on_def)
  have R64: "unat (of_nat ?R :: size_t) = ?R" using u64[of n] by simp
  have sorted64: "sorted (map (unat \<circ> fst) ?raw64)"
    using sort_spec_sorted[OF srt, of ?inv] by (simp add: comp_def split_def u64)
  have below64: "\<forall>(s, d) \<in> set ?raw64. unat s < unat (of_nat ?R :: size_t)"
  proof
    fix p assume "p \<in> set ?raw64"
    then obtain x where x: "x \<in> set ?inv" "p = (ucast (fst x), snd x)" using set64 by (auto simp: split_def)
    then show "case p of (s, d) \<Rightarrow> unat s < unat (of_nat ?R :: size_t)" using inv_src[OF x(1)] R64 u64 by simp
  qed
  have len64: "length ?raw64 < 2 ^ LENGTH(16)"
    using lenI lsrt by simp
  obtain ic where ic: "compactify_to ?raw64 (of_nat ?R :: size_t) (comb_init :: transitions) = Some ic"
      "comb_wf ic" "comb_rows ic = map (row_of ?raw64) [0..<?R]"
    using compactify_to_abs[OF sorted64 below64 len64] R64 by auto
  have lic: "length (comb_index ic) = ?R"
  proof -
    have "length (comb_rows ic) = ?R" using ic(3) by simp
    then show ?thesis by (simp add: comb_rows_def)
  qed
  have fl: "list_ex (\<lambda>j. flood ic [j] = None) [0..<?R] \<longleftrightarrow> list_ex (\<lambda>j. row_of ?raw64 j \<noteq> []) [0..<?R]"
    using flood_read[OF ic(2)] lic ic(3) by (auto simp: list_ex_iff)
  have "list_all (\<lambda>t. unat (fst t) < ?R) ?raw64" using below64 R64 by (auto simp: list_all_iff)
  then have "list_ex (\<lambda>j. row_of ?raw64 j \<noteq> []) [0..<?R] \<longleftrightarrow> ?raw64 \<noteq> []" by (rule row_of_nonempty)
  moreover have "?raw64 \<noteq> [] \<longleftrightarrow> ?inv \<noteq> []"
  proof -
    have "srt ?inv = [] \<longleftrightarrow> ?inv = []" using lsrt by (metis length_0_conv)
    then show ?thesis by simp
  qed
  moreover have "?inv \<noteq> [] \<longleftrightarrow> list_ex (\<lambda>(s, c, d). c = CHR ''$'') trs"
    using inv_entries_empty[OF rawT_src] eps by blast
  ultimately have none: "list_ex (\<lambda>j. flood ic [j] = None) [0..<?R] \<longleftrightarrow> list_ex (\<lambda>(s, c, d). c = CHR ''$'') trs"
    using fl by blast
  have "find_epsilon_components srt a =
          (if ?R = 0 then Some [] else components_loop_b ic (replicate ?R 0) 0 0)"
    using ri ic(1) a(3) by (simp add: find_epsilon_components_def rows_def Let_def)
  also have "\<dots> = (if list_ex (\<lambda>(s, c, d). c = CHR ''$'') trs then None else Some (replicate ?R 0))"
  proof (cases "?R = 0")
    case True
    then have "trs = []" using src by (cases trs) auto
    then show ?thesis using True by simp
  next
    case False
    then show ?thesis using components_loop_zero[of 0 "replicate ?R 0" ic 0] none by (simp add: list_all_iff)
  qed
  finally show ?thesis using a(1) by blast
qed

text \<open>C26. The target state is stored in an 11-bit field although states are
  \<^verbatim>\<open>uint16_t\<close>: a target \<open>d\<close> is kept as \<open>d mod 2048\<close>, so a transition to state \<open>2048\<close> is
  stored as a transition to state \<open>0\<close>.\<close>

theorem target_state_11bit:
  "unat (tstate (snd (raw_transition (s, ch, d)))) = unat d mod 2048 \<and>
   tstate (snd (raw_transition (0, CHR ''a'', 2048))) = 0"
  by (simp add: raw_transition_def unsigned_ucast_eq take_bit_eq_mod)

text \<open>C25. The symbol encoding round-trips through the 5-bit field: for a letter,
  \<^verbatim>\<open>put_symbol\<close> of the stored symbol gives the letter back; \<^verbatim>\<open>'$'\<close> is stored as \<open>0\<close>,
  which \<^verbatim>\<open>put_symbol\<close> rejects by its assertion.\<close>

theorem symbol_roundtrip:
  assumes "(97 :: nat) \<le> of_char ch" "of_char ch \<le> (122 :: nat)"
  shows "put_symbol (uint (tsymbol (snd (raw_transition (s, ch, d))))) = Some (of_nat (of_char ch)) \<and>
         tsymbol (snd (raw_transition (s, CHR ''$'', d))) = 0 \<and> put_symbol 0 = None"
proof -
  let ?k = "of_char ch - 96 :: nat"
  have k: "?k < 32" "0 < ?k" using assms by simp_all
  have "uint (ucast (of_nat ?k :: 8 word) :: 5 word) = int ?k" using uint_ucast_5_small[OF k(1)] .
  then have "uint (tsymbol (snd (raw_transition (s, ch, d)))) = int ?k"
    using get_symbol_letter[OF assms] by (simp add: raw_transition_def)
  moreover have "int ?k - 1 + schar CHR ''a'' = int (of_char ch)" using assms by (simp add: schar_def)
  ultimately show ?thesis using k
    by (simp add: put_symbol_def raw_transition_def get_symbol_def)
qed

text \<open>C12. The automaton \<^verbatim>\<open>read_automata\<close> builds is well-typed when \<open>n \<le> 2048\<close> (the range of the
  11-bit state field): one terminal flag and one row per state, a well-formed \<^verbatim>\<open>Comb\<close>,
  and every stored target holds a symbol in \<open>0..26\<close> and a state below \<open>n\<close>.\<close>

theorem read_automata_typed:
  assumes srt: "sort_spec srt" and n: "unat n \<le> 2048" and tm: "list_all (\<lambda>t. unat t < unat n) terms"
    and tr: "list_all (\<lambda>(s, c, d). unat s < unat n \<and> unat d < unat n \<and>
                (c = CHR ''$'' \<or> ((97 :: nat) \<le> of_char c \<and> of_char c \<le> (122 :: nat)))) trs"
    and m: "length trs < 2 ^ 16"
  shows "\<exists>a. read_automata srt n terms trs = Some a \<and> automata_b_ok n a"
proof -
  have src: "list_all (\<lambda>t. unat (fst t) < unat n) trs" using tr by (auto simp: list_all_iff)
  obtain a where a: "read_automata srt n terms trs = Some a"
    "term_b a = map (\<lambda>v. list_ex (\<lambda>t. unat t = v) terms) [0..<unat n]"
    "comb_wf (trans_b a)" "length (comb_index (trans_b a)) = unat n"
    "comb_rows (trans_b a) = map (row_of (srt (map raw_transition trs))) [0..<unat n]"
    using read_automata_ok[OF srt tm src m] by blast
  have "list_all (\<lambda>x. target_ok n (snd x)) (map raw_transition trs)"
    using tr n by (auto simp: list_all_iff intro!: raw_transition_ok)
  then have "list_all (\<lambda>x. target_ok n (snd x)) (srt (map raw_transition trs))"
    using sort_spec_mset[OF srt] by (metis list_all_iff set_mset_mset)
  then have "list_all (list_all (target_ok n)) (comb_rows (trans_b a))"
    using a(5) by (simp add: row_of_all)
  then show ?thesis using a by (simp add: automata_b_ok_def)
qed

section \<open>Witnesses\<close>

theorem read_automata_correct_witness:
  "\<exists>a. read_automata (sort_key fst) 3 [2] [(0, CHR ''a'', 1), (1, CHR ''$'', 2), (0, CHR ''b'', 2)] = Some a \<and>
     term_b a = [False, False, True] \<and> rows (trans_b a) = 3 \<and>
     list_all (\<lambda>v. \<exists>r. comb_row ucast (trans_b a) v = Some r \<and>
        mset r = mset (row_of (map raw_transition [(0, CHR ''a'', 1), (1, CHR ''$'', 2), (0, CHR ''b'', 2)]) v)) [0..<3]"
  using read_automata_correct[OF sort_spec_sort_key, of 3 "[2]" "[(0, CHR ''a'', 1), (1, CHR ''$'', 2), (0, CHR ''b'', 2)]"]
  by (simp add: upt_rec)

theorem find_epsilon_components_result_witness:
  "\<exists>a. read_automata (sort_key fst) 3 [2] [(0, CHR ''a'', 1), (1, CHR ''$'', 2)] = Some a \<and>
     find_epsilon_components (sort_key fst) a = None"
  using find_epsilon_components_result[OF sort_spec_sort_key, of 3 "[2]" "[(0, CHR ''a'', 1), (1, CHR ''$'', 2)]"]
  by simp

theorem symbol_roundtrip_witness:
  "put_symbol (uint (tsymbol (snd (raw_transition (0, CHR ''q'', 5))))) = Some (of_nat (of_char CHR ''q''))"
  using symbol_roundtrip[of "CHR ''q''" 0 5] by simp

theorem read_automata_typed_witness:
  "\<exists>a. read_automata (sort_key fst) 3 [2] [(0, CHR ''a'', 1), (1, CHR ''$'', 2), (0, CHR ''z'', 2)] = Some a \<and>
     automata_b_ok 3 a"
  by (rule read_automata_typed[OF sort_spec_sort_key]) simp_all
end
