(* ===== verification/Nfa_Match.thy ===== *)
theory Nfa_Match
  imports Nfa_Fast
begin

text \<open>
  What \<^verbatim>\<open>getMaxSuitedSubstr\<close> of \<^verbatim>\<open>src/2015-06-06/2/good.C\<close> computes. The language
  of an automaton is given by the subset run \<open>reach\<close> over its letter columns (the scan
  reads the column \<^verbatim>\<open>T[i] - 'a'\<close> only, so \<open>\<epsilon>\<close>-edges take no part: the closure is meant to
  have removed them), and \<open>longest_accepted\<close> is the length of a longest non-empty factor
  of the text that the automaton accepts. The scan returns such a factor (or the empty
  string when there is none), and \<^verbatim>\<open>main\<close> prints it, or \<^verbatim>\<open>No solution\<close>, for the
  automaton \<^verbatim>\<open>becomeClosure\<close> produces.

  The proof states the scan's invariant over the interface \<open>fast_of\<close> (the refinement
  facts of \<^verbatim>\<open>FastAutomata\<close>, proved in \<^verbatim>\<open>Nfa_Fast\<close>): before position \<open>i\<close>,
  \<^verbatim>\<open>current_states[v]\<close> is the earliest start \<open>b < i\<close> of a run from the entrance to \<open>v\<close> on
  \<open>T[b..i)\<close>, or \<^verbatim>\<open>UINT_MAX\<close> (\<open>cur_ok\<close>); the best pair is an accepted factor at least as
  long as every accepted factor ending by \<open>i\<close> (\<open>best_ok\<close>). The text is assumed to have at
  most \<^verbatim>\<open>UINT_MAX\<close> characters, so that no start index reaches the sentinel.
\<close>

section \<open>The language of the automaton\<close>

definition letter :: "char \<Rightarrow> nat" where
  "letter c = of_char c - 97"

fun reach :: "automata \<Rightarrow> nat list \<Rightarrow> char list \<Rightarrow> nat list" where
  "reach A vs [] = vs"
| "reach A vs (c # w) = reach A (remdups (concat (map (\<lambda>v. delta A ! v ! letter c) vs))) w"

definition accepts :: "automata \<Rightarrow> char list \<Rightarrow> bool" where
  "accepts A w \<longleftrightarrow> list_ex (\<lambda>q. terminal_states A ! q) (reach A [entrance A] w)"

definition factor :: "char list \<Rightarrow> nat \<Rightarrow> nat \<Rightarrow> char list" where
  "factor T b e = take (e - b) (drop b T)"

text \<open>The length of a longest non-empty accepted factor, \<open>0\<close> when there is none.\<close>

definition longest_accepted :: "automata \<Rightarrow> char list \<Rightarrow> nat" where
  "longest_accepted A T =
     Max (set (0 # [e - b. b \<leftarrow> [0..<length T], e \<leftarrow> [Suc b..<Suc (length T)], accepts A (factor T b e)]))"

section \<open>The scan's invariant\<close>

text \<open>The states reached from the entrance on the factor \<open>T[b..e)\<close>.\<close>

definition runs :: "automata \<Rightarrow> char list \<Rightarrow> nat \<Rightarrow> nat \<Rightarrow> nat set" where
  "runs A T b e = set (reach A [entrance A] (factor T b e))"

text \<open>The interface the scan uses of \<^verbatim>\<open>FastAutomata\<close>.\<close>

definition fast_of :: "automata \<Rightarrow> fast_automata \<Rightarrow> bool" where
  "fast_of A fa \<longleftrightarrow> fast_states_number fa = states_number A \<and> fast_entrance fa = entrance A \<and>
     states_number A \<le> length (is_terminal fa) \<and> take (states_number A) (is_terminal fa) = terminal_states A \<and>
     (\<forall>v < states_number A. \<forall>a < alph_size. neighbors fa (of_nat v) (of_nat a) = Some (delta A ! v ! a))"

text \<open>\<^verbatim>\<open>current_states\<close> before position \<open>e\<close>, starts below \<open>k\<close> considered.\<close>

definition cur_ok :: "automata \<Rightarrow> char list \<Rightarrow> nat \<Rightarrow> nat \<Rightarrow> nat list \<Rightarrow> bool" where
  "cur_ok A T k e cur \<longleftrightarrow> length cur = states_number A \<and>
     (\<forall>v < states_number A.
        (cur ! v < k \<and> v \<in> runs A T (cur ! v) e \<and> (\<forall>b < k. v \<in> runs A T b e \<longrightarrow> cur ! v \<le> b)) \<or>
        (cur ! v = max_uint \<and> (\<forall>b < k. v \<notin> runs A T b e)))"

text \<open>The best pair \<open>(max_begin, max_length)\<close> after the positions below \<open>e\<close>.\<close>

definition best_ok :: "automata \<Rightarrow> char list \<Rightarrow> nat \<Rightarrow> nat \<times> nat \<Rightarrow> bool" where
  "best_ok A T e p \<longleftrightarrow> fst p \<le> length T \<and>
     (snd p = 0 \<or> fst p + snd p \<le> length T \<and> accepts A (factor T (fst p) (fst p + snd p))) \<and>
     (\<forall>b e'. b < e' \<longrightarrow> e' \<le> e \<longrightarrow> accepts A (factor T b e') \<longrightarrow> e' - b \<le> snd p)"

text \<open>Within position \<open>i\<close>: the live arcs of the states below \<open>j\<close>, the partial
  \<^verbatim>\<open>new_states\<close> as the minimum start over the arcs done, and the candidates they offered.\<close>

definition arcs :: "automata \<Rightarrow> char list \<Rightarrow> nat \<Rightarrow> nat list \<Rightarrow> nat \<Rightarrow> (nat \<times> nat) set" where
  "arcs A T i cur j = {(v, u). v < j \<and> cur ! v < length T \<and> u \<in> set (delta A ! v ! letter (T ! i))}"

definition arr_ok :: "nat \<Rightarrow> nat list \<Rightarrow> (nat \<times> nat) set \<Rightarrow> nat list \<Rightarrow> bool" where
  "arr_ok n cur E new \<longleftrightarrow> length new = n \<and>
     (\<forall>u < n. (\<forall>v. (v, u) \<in> E \<longrightarrow> new ! u \<le> cur ! v) \<and>
        (new ! u = max_uint \<or> (\<exists>v. (v, u) \<in> E \<and> new ! u = cur ! v)))"

definition cand_ok :: "automata \<Rightarrow> nat \<Rightarrow> nat list \<Rightarrow> (nat \<times> nat) set \<Rightarrow> nat \<Rightarrow> bool" where
  "cand_ok A i cur E ml \<longleftrightarrow> (\<forall>(v, u) \<in> E. terminal_states A ! u \<longrightarrow> Suc i - cur ! v \<le> ml)"

definition step_ok :: "automata \<Rightarrow> char list \<Rightarrow> nat \<Rightarrow> nat list \<Rightarrow> (nat \<times> nat) set \<Rightarrow> nat list \<times> nat \<times> nat \<Rightarrow> bool" where
  "step_ok A T i cur E st \<longleftrightarrow>
     arr_ok (states_number A) cur E (fst st) \<and> best_ok A T i (snd st) \<and> cand_ok A i cur E (snd (snd st))"

section \<open>The language of runs\<close>

lemma reach_snoc:
  "reach A vs (w @ [c]) = remdups (concat (map (\<lambda>v. delta A ! v ! letter c) (reach A vs w)))"
  by (induction w arbitrary: vs) simp_all

lemma reach_range:
  assumes "rows_wf n (delta A)" "length (delta A) = n" "set vs \<subseteq> {..<n}" "\<forall>c \<in> set w. letter c < alph_size"
  shows "set (reach A vs w) \<subseteq> {..<n}"
  using assms(3,4)
proof (induction w arbitrary: vs)
  case (Cons c w)
  have "set (delta A ! v ! letter c) \<subseteq> {..<n}" if "v \<in> set vs" for v
    using Cons.prems that rows_wf_nth[OF assms(1), of v "letter c"] assms(2) by (auto simp: list_all_iff)
  then have "set (remdups (concat (map (\<lambda>v. delta A ! v ! letter c) vs))) \<subseteq> {..<n}" by auto
  then show ?case using Cons by simp
qed simp

lemma factor_snoc: "b \<le> i \<Longrightarrow> i < length T \<Longrightarrow> factor T b (Suc i) = factor T b i @ [T ! i]"
  by (simp add: factor_def Suc_diff_le take_Suc_conv_app_nth)

lemma runs_empty: "runs A T i i = {entrance A}"
  by (simp add: runs_def factor_def)

lemma runs_Suc:
  "b \<le> i \<Longrightarrow> i < length T \<Longrightarrow>
   u \<in> runs A T b (Suc i) \<longleftrightarrow> (\<exists>v \<in> runs A T b i. u \<in> set (delta A ! v ! letter (T ! i)))"
  by (auto simp: runs_def factor_snoc reach_snoc)

lemma lower_letter: "lower_text T \<Longrightarrow> i < length T \<Longrightarrow> letter (T ! i) < alph_size"
  by (auto simp: lower_text_def list_all_length letter_def alph_size_def)

lemma runs_range:
  assumes "nfa_wf A" "lower_text T" "e \<le> length T"
  shows "runs A T b e \<subseteq> {..<states_number A}"
proof -
  have "set (factor T b e) \<subseteq> set T" by (auto simp: factor_def dest: in_set_takeD in_set_dropD)
  moreover have "\<forall>c \<in> set T. letter c < alph_size"
    using assms(2) by (auto simp: lower_text_def list_all_iff letter_def alph_size_def)
  ultimately have "\<forall>c \<in> set (factor T b e). letter c < alph_size" by blast
  then show ?thesis using reach_range[of "states_number A" A "[entrance A]"] assms(1)
    by (simp add: runs_def nfa_wf_def)
qed

lemma accepts_runs: "accepts A (factor T b e) \<longleftrightarrow> (\<exists>q \<in> runs A T b e. terminal_states A ! q)"
  by (simp add: accepts_def runs_def list_ex_iff)

section \<open>One arc, one state, one position\<close>

lemma length_u_exact: "s \<le> i \<Longrightarrow> Suc i < 2 ^ 32 \<Longrightarrow> length_u s i = Suc i - s"
proof -
  assume si: "s \<le> i" and b: "Suc i < 2 ^ 32"
  have "(of_nat i - of_nat s + 1 :: 32 word) = of_nat (Suc i - s)"
    using si by (simp add: of_nat_diff Suc_diff_le)
  moreover have "Suc i - s < 2 ^ 32" using b by simp
  ultimately show ?thesis by (simp add: length_u_def unat_of_nat_below)
qed

lemma arr_ok_empty: "arr_ok n cur {} (replicate n max_uint)"
  by (simp add: arr_ok_def)

lemma arr_ok_insert:
  assumes "arr_ok n cur E new" "u < n" "cur ! v = s"
  shows "arr_ok n cur (insert (v, u) E) (if s < new ! u then new[u := s] else new)"
  using assms by (fastforce simp: arr_ok_def nth_list_update)

lemma best_ok_step:
  assumes "best_ok A T i (mb, ml)" "cand_ok A i cur E ml" "cur ! v = s" "s \<le> i" "i < length T"
    and acc: "terminal_states A ! u \<Longrightarrow> accepts A (factor T s (Suc i))"
  shows "best_ok A T i (if terminal_states A ! u \<and> Suc i - s > ml then (s, Suc i - s) else (mb, ml)) \<and>
         cand_ok A i cur (insert (v, u) E)
           (snd (if terminal_states A ! u \<and> Suc i - s > ml then (s, Suc i - s) else (mb, ml)))"
proof (cases "terminal_states A ! u \<and> Suc i - s > ml")
  case True
  have "s + (Suc i - s) = Suc i" using assms(4) by simp
  then show ?thesis using True assms acc
    by (fastforce simp: best_ok_def cand_ok_def)
next
  case False
  then show ?thesis using assms by (auto simp: best_ok_def cand_ok_def)
qed

lemma fast_of_terminal: "fast_of A fa \<Longrightarrow> u < states_number A \<Longrightarrow> nth_opt (is_terminal fa) u = Some (terminal_states A ! u)"
proof -
  assume f: "fast_of A fa" and u: "u < states_number A"
  then have "u < length (is_terminal fa)" "take (states_number A) (is_terminal fa) ! u = terminal_states A ! u"
    by (auto simp: fast_of_def)
  then show ?thesis using u by (simp add: nth_opt_def)
qed

lemma scan_arc_step:
  assumes st: "step_ok A T i cur E (new, mb, ml)" and f: "fast_of A fa" and u: "u < states_number A"
    and s: "cur ! v = s" "s \<le> i" "i < length T" "length T \<le> max_uint"
    and vr: "v \<in> runs A T s i" and uv: "u \<in> set (delta A ! v ! letter (T ! i))"
  shows "\<exists>st'. scan_arc fa i s u (new, mb, ml) = Some st' \<and> step_ok A T i cur (insert (v, u) E) st'"
proof -
  have ar: "arr_ok (states_number A) cur E new" and bo: "best_ok A T i (mb, ml)" and co: "cand_ok A i cur E ml"
    using st by (simp_all add: step_ok_def)
  have ap: "add_pair new u s = Some (if s < new ! u then new[u := s] else new)"
    using ar u by (simp add: add_pair_def arr_ok_def)
  have lu: "length_u s i = Suc i - s"
    using s length_u_exact[of s i] by (simp add: max_uint_def)
  have acc: "accepts A (factor T s (Suc i))" if "terminal_states A ! u"
    using runs_Suc[OF s(2,3)] vr uv that by (auto simp: accepts_runs)
  have "best_ok A T i (if terminal_states A ! u \<and> Suc i - s > ml then (s, Suc i - s) else (mb, ml)) \<and>
        cand_ok A i cur (insert (v, u) E)
          (snd (if terminal_states A ! u \<and> Suc i - s > ml then (s, Suc i - s) else (mb, ml)))"
    by (rule best_ok_step[OF bo co s(1-3) acc])
  moreover have "arr_ok (states_number A) cur (insert (v, u) E) (if s < new ! u then new[u := s] else new)"
    by (rule arr_ok_insert[OF ar u s(1)])
  ultimately show ?thesis using ap lu fast_of_terminal[OF f u]
    by (cases "terminal_states A ! u \<and> ml < Suc i - s") (auto simp: scan_arc_def step_ok_def)
qed

lemma lower_char_sym: "lower_text T \<Longrightarrow> i < length T \<Longrightarrow> char_sym (T ! i) = of_nat (letter (T ! i))"
  using char_sym_letter[of "T ! i"] by (auto simp: lower_text_def list_all_length letter_def)

lemma scan_state_step:
  assumes wf: "nfa_wf A" and f: "fast_of A fa" and lt: "lower_text T"
    and i: "i < length T" "length T \<le> max_uint"
    and c: "cur_ok A T (Suc i) i cur" and j: "j < states_number A"
    and st: "step_ok A T i cur (arcs A T i cur j) st"
  shows "\<exists>st'. scan_state fa T i cur j st = Some st' \<and> step_ok A T i cur (arcs A T i cur (Suc j)) st'"
proof (cases "cur ! j < length T")
  case True
  let ?us = "delta A ! j ! letter (T ! i)"
  let ?P = "\<lambda>k. step_ok A T i cur (arcs A T i cur j \<union> {j} \<times> set (take k ?us))"
  have live: "cur ! j \<le> i" "j \<in> runs A T (cur ! j) i"
    using c j True i(2) by (auto simp: cur_ok_def)
  have a: "letter (T ! i) < alph_size" by (rule lower_letter[OF lt i(1)])
  have nb: "neighbors fa (of_nat j) (char_sym (T ! i)) = Some ?us"
    using f j a lower_char_sym[OF lt i(1)] by (simp add: fast_of_def)
  have us: "\<forall>u \<in> set ?us. u < states_number A"
    using rows_wf_nth[of "states_number A" "delta A" j "letter (T ! i)"] wf j a by (simp add: nfa_wf_def)
  have ar: "arcs A T i cur (Suc j) = arcs A T i cur j \<union> {j} \<times> set ?us"
    using True by (auto simp: arcs_def less_Suc_eq)
  have "\<exists>st'. fold_opt (scan_arc fa i (cur ! j)) ?us st = Some st' \<and> ?P (length ?us) st'"
  proof (rule fold_opt_prefix_inv[where P = ?P])
    show "?P 0 st" using st by simp
    fix k s assume k: "k < length ?us" and s: "?P k s"
    obtain new mb ml where sn: "s = (new, mb, ml)" by (cases s)
    have ins: "insert (j, ?us ! k) (arcs A T i cur j \<union> {j} \<times> set (take k ?us)) =
               arcs A T i cur j \<union> {j} \<times> set (take (Suc k) ?us)"
      using k by (auto simp: take_Suc_conv_app_nth)
    have "\<exists>s'. scan_arc fa i (cur ! j) (?us ! k) (new, mb, ml) = Some s' \<and>
            step_ok A T i cur (insert (j, ?us ! k) (arcs A T i cur j \<union> {j} \<times> set (take k ?us))) s'"
      by (rule scan_arc_step[OF s[unfolded sn] f _ refl live(1) i live(2)]) (use k us in simp_all)
    then show "\<exists>s'. scan_arc fa i (cur ! j) (?us ! k) s = Some s' \<and> ?P (Suc k) s'"
      using sn ins by simp
  qed
  then show ?thesis using True nb ar by (simp add: scan_state_def)
next
  case False
  then have "arcs A T i cur (Suc j) = arcs A T i cur j" by (auto simp: arcs_def less_Suc_eq)
  then show ?thesis using False st by (simp add: scan_state_def)
qed

lemma cur_ok_entrance:
  assumes c: "cur_ok A T i i cur" and i: "i < max_uint"
  shows "cur_ok A T (Suc i) i (if i < cur ! entrance A then cur[entrance A := i] else cur)"
proof -
  let ?c = "if i < cur ! entrance A then cur[entrance A := i] else cur"
  have len: "length ?c = states_number A" using c by (simp add: cur_ok_def)
  have "(?c ! v < Suc i \<and> v \<in> runs A T (?c ! v) i \<and> (\<forall>b < Suc i. v \<in> runs A T b i \<longrightarrow> ?c ! v \<le> b)) \<or>
        (?c ! v = max_uint \<and> (\<forall>b < Suc i. v \<notin> runs A T b i))" if v: "v < states_number A" for v
  proof -
    have old: "(cur ! v < i \<and> v \<in> runs A T (cur ! v) i \<and> (\<forall>b < i. v \<in> runs A T b i \<longrightarrow> cur ! v \<le> b)) \<or>
               (cur ! v = max_uint \<and> (\<forall>b < i. v \<notin> runs A T b i))"
      using c v by (simp add: cur_ok_def)
    show ?thesis
    proof (cases "v = entrance A")
      case True
      then show ?thesis using old i c v by (auto simp: All_less_Suc runs_empty cur_ok_def)
    next
      case False
      then have "?c ! v = cur ! v" by simp
      then show ?thesis using old False by (auto simp: All_less_Suc runs_empty)
    qed
  qed
  then show ?thesis using len by (simp add: cur_ok_def)
qed

lemma arcs_dominate:
  assumes wf: "nfa_wf A" and lt: "lower_text T" and i: "i < length T"
    and c: "cur_ok A T (Suc i) i cur" and u: "u \<in> runs A T b (Suc i)" and b: "b \<le> i"
  shows "\<exists>v. (v, u) \<in> arcs A T i cur (states_number A) \<and> cur ! v \<le> b"
proof -
  obtain v where v: "v \<in> runs A T b i" "u \<in> set (delta A ! v ! letter (T ! i))"
    using runs_Suc[OF b i] u by blast
  have vn: "v < states_number A" using runs_range[OF wf lt, of i b] v(1) i by auto
  have "cur ! v \<le> b" using c vn v(1) b by (auto simp: cur_ok_def)
  then show ?thesis using vn v(2) b i by (auto simp: arcs_def)
qed

lemma step_ok_next:
  assumes wf: "nfa_wf A" and lt: "lower_text T" and i: "i < length T" "length T \<le> max_uint"
    and c: "cur_ok A T (Suc i) i cur" and so: "step_ok A T i cur (arcs A T i cur (states_number A)) (new, mb, ml)"
  shows "cur_ok A T (Suc i) (Suc i) new \<and> best_ok A T (Suc i) (mb, ml)"
proof
  have ar: "arr_ok (states_number A) cur (arcs A T i cur (states_number A)) new"
    and bo: "best_ok A T i (mb, ml)" and co: "cand_ok A i cur (arcs A T i cur (states_number A)) ml"
    using so by (simp_all add: step_ok_def)
  have dom: "new ! u \<le> b" if "u \<in> runs A T b (Suc i)" "b \<le> i" "u < states_number A" for u b
    using arcs_dominate[OF wf lt i(1) c that(1,2)] ar that(3) by (fastforce simp: arr_ok_def)
  have "(new ! u < Suc i \<and> u \<in> runs A T (new ! u) (Suc i) \<and> (\<forall>b < Suc i. u \<in> runs A T b (Suc i) \<longrightarrow> new ! u \<le> b)) \<or>
        (new ! u = max_uint \<and> (\<forall>b < Suc i. u \<notin> runs A T b (Suc i)))" if u: "u < states_number A" for u
  proof -
    consider "new ! u = max_uint" | v where "(v, u) \<in> arcs A T i cur (states_number A)" "new ! u = cur ! v"
      using ar u by (auto simp: arr_ok_def)
    then show ?thesis
    proof cases
      case 1
      have "u \<notin> runs A T b (Suc i)" if "b < Suc i" for b
        using dom[of u b] that u 1 i by fastforce
      then show ?thesis using 1 by blast
    next
      case 2
      then have v: "v < states_number A" "cur ! v < length T" "u \<in> set (delta A ! v ! letter (T ! i))"
        by (auto simp: arcs_def)
      then have "cur ! v < Suc i \<and> v \<in> runs A T (cur ! v) i"
        using c i(2) by (auto simp: cur_ok_def)
      then have "new ! u < Suc i \<and> u \<in> runs A T (new ! u) (Suc i)"
        using 2(2) runs_Suc[of "cur ! v" i T u A] i(1) v(3) by auto
      then show ?thesis using dom u by auto
    qed
  qed
  then show "cur_ok A T (Suc i) (Suc i) new" using ar by (simp add: cur_ok_def arr_ok_def)
  have "Suc i - b \<le> ml" if b: "b < Suc i" and acc: "accepts A (factor T b (Suc i))" for b
  proof -
    obtain q where q: "q \<in> runs A T b (Suc i)" "terminal_states A ! q" using acc by (auto simp: accepts_runs)
    obtain v where "(v, q) \<in> arcs A T i cur (states_number A)" "cur ! v \<le> b"
      using arcs_dominate[OF wf lt i(1) c q(1)] b by auto
    then show ?thesis using co q(2) by (fastforce simp: cand_ok_def)
  qed
  then show "best_ok A T (Suc i) (mb, ml)" using bo by (auto simp: best_ok_def le_Suc_eq)
qed

lemma scan_step_ok:
  assumes wf: "nfa_wf A" and f: "fast_of A fa" and lt: "lower_text T"
    and i: "i < length T" "length T \<le> max_uint"
    and c: "cur_ok A T i i cur" and b: "best_ok A T i (mb, ml)"
  shows "\<exists>cur' mb' ml'. scan_step fa T i (cur, mb, ml) = Some (cur', mb', ml') \<and>
           cur_ok A T (Suc i) (Suc i) cur' \<and> best_ok A T (Suc i) (mb', ml')"
proof -
  let ?n = "states_number A"
  let ?c = "if i < cur ! entrance A then cur[entrance A := i] else cur"
  have e: "entrance A < ?n" using wf by (simp add: nfa_wf_def)
  have ap: "add_pair cur (fast_entrance fa) i = Some ?c"
    using c e f by (simp add: add_pair_def cur_ok_def fast_of_def)
  have c': "cur_ok A T (Suc i) i ?c" using cur_ok_entrance[OF c] i by simp
  have "\<exists>st. fold_opt (scan_state fa T i ?c) [0..<?n] (replicate ?n max_uint, mb, ml) = Some st \<and>
          step_ok A T i ?c (arcs A T i ?c ?n) st"
  proof (rule fold_opt_upt_inv[where P = "\<lambda>j. step_ok A T i ?c (arcs A T i ?c j)"])
    show "step_ok A T i ?c (arcs A T i ?c 0) (replicate ?n max_uint, mb, ml)"
      using b by (simp add: step_ok_def arcs_def arr_ok_empty cand_ok_def)
    fix j st assume "j < ?n" "step_ok A T i ?c (arcs A T i ?c j) st"
    then show "\<exists>st'. scan_state fa T i ?c j st = Some st' \<and> step_ok A T i ?c (arcs A T i ?c (Suc j)) st'"
      by (rule scan_state_step[OF wf f lt i c'])
  qed
  then obtain new mb' ml' where
    fo: "fold_opt (scan_state fa T i ?c) [0..<?n] (replicate ?n max_uint, mb, ml) = Some (new, mb', ml')"
    and so: "step_ok A T i ?c (arcs A T i ?c ?n) (new, mb', ml')" by (metis prod_cases3)
  show ?thesis using ap fo step_ok_next[OF wf lt i c' so] f by (simp add: scan_step_def fast_of_def)
qed

section \<open>The answer\<close>

lemma candidates_iff:
  "x \<in> set [e - b. b \<leftarrow> [0..<n], e \<leftarrow> [Suc b..<Suc n], P b e] \<longleftrightarrow> (\<exists>b e. b < e \<and> e \<le> n \<and> P b e \<and> x = e - b)"
proof
  assume "x \<in> set [e - b. b \<leftarrow> [0..<n], e \<leftarrow> [Suc b..<Suc n], P b e]"
  then obtain b e where "b < n" "Suc b \<le> e" "e < Suc n" "P b e" "x = e - b"
    by (auto simp del: upt_Suc split: if_splits)
  then show "\<exists>b e. b < e \<and> e \<le> n \<and> P b e \<and> x = e - b" by (intro exI[of _ b] exI[of _ e]) simp
next
  assume "\<exists>b e. b < e \<and> e \<le> n \<and> P b e \<and> x = e - b"
  then obtain b e where be: "b < e" "e \<le> n" "P b e" "x = e - b" by blast
  then have "b \<in> set [0..<n]" "e \<in> set [Suc b..<Suc n]" by auto
  then show "x \<in> set [e - b. b \<leftarrow> [0..<n], e \<leftarrow> [Suc b..<Suc n], P b e]"
    using be(3,4) by (simp del: upt_Suc) (rule bexI[where x = b], rule bexI[where x = e], simp_all)
qed

lemma best_ok_longest:
  assumes "best_ok A T (length T) (mb, ml)"
  shows "length (take ml (drop mb T)) = longest_accepted A T \<and> (ml = 0 \<or> accepts A (take ml (drop mb T)))"
proof -
  let ?L = "[e - b. b \<leftarrow> [0..<length T], e \<leftarrow> [Suc b..<Suc (length T)], accepts A (factor T b e)]"
  have fit: "ml = 0 \<or> mb + ml \<le> length T \<and> accepts A (factor T mb (mb + ml))"
    and le: "\<And>b e. b < e \<Longrightarrow> e \<le> length T \<Longrightarrow> accepts A (factor T b e) \<Longrightarrow> e - b \<le> ml"
    using assms by (auto simp: best_ok_def)
  have ub: "x \<le> ml" if "x \<in> set (0 # ?L)" for x
  proof (cases "x = 0")
    case False
    then have "x \<in> set ?L" using that by simp
    then show ?thesis using le unfolding candidates_iff by blast
  qed simp
  have mem: "ml \<in> set (0 # ?L)"
  proof (cases "ml = 0")
    case False
    then have "mb + ml \<le> length T" "accepts A (factor T mb (mb + ml))" using fit by auto
    then have "ml \<in> set ?L" unfolding candidates_iff using False
      by (intro exI[of _ mb] exI[of _ "mb + ml"]) simp
    then show ?thesis by simp
  qed simp
  have "longest_accepted A T = ml"
    unfolding longest_accepted_def by (rule Max_eqI) (use ub mem in simp_all)
  moreover have "length (take ml (drop mb T)) = ml" using fit by auto
  moreover have "factor T mb (mb + ml) = take ml (drop mb T)" by (simp add: factor_def)
  ultimately show ?thesis using fit by auto
qed

lemma fast_init_fast_of:
  assumes wf: "nfa_wf A" and isz: "states_number A \<le> isz"
    and small: "length (delta A) * alph_size + length (concat (concat (delta A))) < 2 ^ 32"
  shows "\<exists>fa. fast_init A isz = Some fa \<and> fast_of A fa"
proof -
  have w: "rows_wf (states_number A) (delta A)" "length (delta A) = states_number A"
    "length (terminal_states A) = states_number A" using wf by (simp_all add: nfa_wf_def)
  have sm: "length (delta A) * alph_size + length (concat (cells (delta A))) < 2 ^ 32"
    using small by (simp add: cells_def)
  show ?thesis
    using fast_init_ok[OF wf isz sm] neighbors_layout[OF w(1) _ _ sm] w isz
    by (simp add: fast_of_def)
qed

section \<open>Properties of the scan and of \<^verbatim>\<open>main\<close>\<close>

text \<open>C5. \<^verbatim>\<open>getMaxSuitedSubstr\<close> is correct: on a well-formed automaton whose flattened table
  fits the 32-bit offsets, and a lower-case text of at most \<^verbatim>\<open>UINT_MAX\<close> characters, it
  returns a factor of the text that the automaton accepts and that is as long as every
  non-empty accepted factor, or the empty string when no non-empty factor is accepted.\<close>

theorem get_max_suited_substr_longest:
  assumes wf: "nfa_wf A" and isz: "states_number A \<le> isz"
    and small: "length (delta A) * alph_size + length (concat (concat (delta A))) < 2 ^ 32"
    and lt: "lower_text T" and len: "length T \<le> max_uint"
  shows "\<exists>ans. get_max_suited_substr A isz T = Some ans \<and> length ans = longest_accepted A T \<and>
           (ans = [] \<or> accepts A ans \<and> (\<exists>b. take (length ans) (drop b T) = ans))"
proof -
  obtain fa where fi: "fast_init A isz = Some fa" and f: "fast_of A fa"
    using fast_init_fast_of[OF wf isz small] by blast
  let ?P = "\<lambda>j st. cur_ok A T j j (fst st) \<and> best_ok A T j (snd st)"
  have "\<exists>st. fold_opt (scan_step fa T) [0..<length T] (replicate (fast_states_number fa) max_uint, 0, 0) = Some st \<and>
          ?P (length T) st"
  proof (rule fold_opt_upt_inv[where P = ?P])
    show "?P 0 (replicate (fast_states_number fa) max_uint, 0, 0)"
      using f by (simp add: fast_of_def cur_ok_def best_ok_def)
    fix j st assume j: "j < length T" and p: "?P j st"
    obtain cur mb ml where st: "st = (cur, mb, ml)" by (cases st)
    show "\<exists>st'. scan_step fa T j st = Some st' \<and> ?P (Suc j) st'"
      using scan_step_ok[OF wf f lt j len, of cur mb ml] p st by auto
  qed
  then obtain cur mb ml where
    r: "fold_opt (scan_step fa T) [0..<length T] (replicate (fast_states_number fa) max_uint, 0, 0) = Some (cur, mb, ml)"
    and b: "best_ok A T (length T) (mb, ml)" by (metis prod_cases3 prod.sel)
  have mb: "mb \<le> length T" using b by (simp add: best_ok_def)
  have g: "get_max_suited_substr A isz T = Some (take ml (drop mb T))"
    using fi r mb by (simp add: get_max_suited_substr_def)
  have "take (length (take ml (drop mb T))) (drop mb T) = take ml (drop mb T)" by (simp add: min_def)
  then show ?thesis using g best_ok_longest[OF b] by fastforce
qed

text \<open>C6. \<^verbatim>\<open>main\<close> of \<^verbatim>\<open>2/good.C\<close> prints a longest factor of the text accepted by the
  automaton \<^verbatim>\<open>becomeClosure\<close> builds, or \<^verbatim>\<open>No solution\<close> when that automaton accepts no
  non-empty factor, on every valid input whose table fits the offsets.\<close>

theorem main_nfa_longest:
  assumes "0 < n" "list_all (\<lambda>t. t < n) terms" "list_all (\<lambda>(f, c, t). f < n \<and> t < n \<and> sym_ok c) trs"
    and "n \<le> isz" "n * alph_size * (n + 1) < 2 ^ 32" "lower_text text" "length text \<le> max_uint"
  shows "\<exists>A A' out. automata_init n terms trs = Some A \<and> become_closure A = Some A' \<and>
           main_nfa n terms trs text isz = Some out \<and>
           (if longest_accepted A' text = 0 then out = ''No solution''
            else length out = longest_accepted A' text \<and> accepts A' out \<and> (\<exists>i. take (length out) (drop i text) = out))"
proof -
  obtain A A' where A: "automata_init n terms trs = Some A" "become_closure A = Some A'" "nfa_wf A'"
    "states_number A' \<le> n" "length (delta A') * alph_size + length (concat (cells (delta A'))) < 2 ^ 32"
    using closure_input_small[OF assms(1-3,5)] by blast
  have sm: "length (delta A') * alph_size + length (concat (concat (delta A'))) < 2 ^ 32"
    using A(5) by (simp add: cells_def)
  obtain ans where g: "get_max_suited_substr A' isz text = Some ans" "length ans = longest_accepted A' text"
    "ans = [] \<or> accepts A' ans \<and> (\<exists>b. take (length ans) (drop b text) = ans)"
    using get_max_suited_substr_longest[OF A(3) _ sm assms(6,7), of isz] A(4) assms(4) by (meson order.trans)
  show ?thesis using A(1,2) g by (auto simp: main_nfa_def)
qed

section \<open>Witnesses\<close>

theorem get_max_suited_substr_longest_witness:
  "\<exists>ans. get_max_suited_substr \<lparr>entrance = 0, components_number = 0, states_number = 2,
           delta = [[[1]] @ replicate 26 [], replicate 27 []], terminal_states = [False, True]\<rparr> 3 ''bab'' = Some ans \<and>
     length ans = longest_accepted \<lparr>entrance = 0, components_number = 0, states_number = 2,
           delta = [[[1]] @ replicate 26 [], replicate 27 []], terminal_states = [False, True]\<rparr> ''bab'' \<and>
     (ans = [] \<or> accepts \<lparr>entrance = 0, components_number = 0, states_number = 2,
           delta = [[[1]] @ replicate 26 [], replicate 27 []], terminal_states = [False, True]\<rparr> ans \<and>
        (\<exists>b. take (length ans) (drop b ''bab'') = ans))"
  by (rule get_max_suited_substr_longest)
    (simp_all add: nfa_wf_def rows_wf_def cell_ok_def alph_size_def lower_text_def max_uint_def list_all_iff)

theorem main_nfa_longest_witness:
  "\<exists>A A' out. automata_init 4 [3] [(1, CHR ''$'', 2), (1, CHR ''$'', 3), (3, CHR ''$'', 2), (0, CHR ''a'', 2)] = Some A \<and>
     become_closure A = Some A' \<and>
     main_nfa 4 [3] [(1, CHR ''$'', 2), (1, CHR ''$'', 3), (3, CHR ''$'', 2), (0, CHR ''a'', 2)] ''ba'' 4 = Some out \<and>
     (if longest_accepted A' ''ba'' = 0 then out = ''No solution''
      else length out = longest_accepted A' ''ba'' \<and> accepts A' out \<and> (\<exists>i. take (length out) (drop i ''ba'') = out))"
  by (rule main_nfa_longest) (simp_all add: sym_ok_def symbol_index_def alph_size_def lower_text_def max_uint_def)

end
