(* ===== verification/Spec2Isabelle.thy ===== *)
theory Spec2Isabelle
  imports Prelude Comb Bfs01 Graph_Better Ordered_Map Graph_Good Nfa_Good Nfa_Closure Nfa_Scan Nfa_Fast Nfa_Better Nfa_Match
begin

text \<open>
  A verification development of the programs under \<^verbatim>\<open>src/2015-06-06\<close>: two solutions of a
  0-1 shortest-path problem (\<^verbatim>\<open>1/good.C\<close>, \<^verbatim>\<open>1/better.C\<close>) and two of an
  \<open>\<epsilon>\<close>-NFA matching problem (\<^verbatim>\<open>2/good.C\<close>, \<^verbatim>\<open>2/better.C\<close>). The compact versions share
  the row-compressed container \<^verbatim>\<open>Comb\<close> (\<^verbatim>\<open>comb.h\<close>) and its builder
  \<^verbatim>\<open>compactify_to\<close> (\<^verbatim>\<open>util.h\<close>); both shortest-path programs run the same deque-based
  0-1 search over different graph representations.

  \<^bold>\<open>Theories and what they model.\<close>
  \<^item> \<open>Prelude\<close>: the machine types (\<open>size_t\<close>, \<open>int32\<close>, \<open>uint16\<close> as words), the
    predicate \<open>exact_on\<close> for the integral conversion of a stored index into \<open>size_t\<close>,
    and the word and list lemmas the components share (collection \<open>read_simps\<close>).
  \<^item> \<open>Comb\<close>: \<^verbatim>\<open>Comb<I, T>\<close> (\<^verbatim>\<open>comb.h\<close>) as the record \<open>comb\<close> of \<^verbatim>\<open>index_\<close> and
    \<^verbatim>\<open>data_\<close>, one definition per member (\<open>end_row\<close>, \<open>comb_append\<close>, \<open>rows\<close>,
    \<open>get_start\<close>, \<open>comb_length\<close>, \<open>comb_at\<close>) with each \<^verbatim>\<open>assert\<close> as the error \<open>None\<close>,
    and \<^verbatim>\<open>compactify_to\<close> (\<^verbatim>\<open>util.h\<close>) as \<open>close_rows\<close> (the loop
    \<^verbatim>\<open>for (; src != target; ++src) end_row()\<close>, with a wrapping word counter: a
    \<^theory_text>\<open>function\<close> whose termination measure is \<open>unat (target - src)\<close>),
    \<open>compactify_loop\<close> and \<open>compactify_to\<close>. Lemmas: the invariant \<open>comb_wf\<close> is kept, the
    operations refine a list of closed rows plus an open row, \<^verbatim>\<open>length\<close>/\<^verbatim>\<open>at\<close> read a
    row back exactly when the stored offsets convert exactly (always for \<open>ucast\<close>, below
    the sign bit for \<open>scast\<close>), and the builder round-trips a source-sorted list. The
    assertion bound of \<^verbatim>\<open>end_row\<close> is the range of an unsigned index; at the signed index
    of \<^verbatim>\<open>1/better.C\<close> it is not reached, since \<^verbatim>\<open>2 * m\<close> overflows first.
  \<^item> \<open>Bfs01\<close>: \<^verbatim>\<open>min_distance\<close> of both shortest-path programs over an abstract adjacency
    (\<open>nat \<Rightarrow> (nat \<times> int) list option\<close>, rows in visiting order): \<open>relax\<close> (the arc loop),
    \<open>bfs_loop\<close> (the deque loop, a \<^theory_text>\<open>partial_function (option)\<close> since it need not
    end on negative weights) and \<open>bfs_min_distance\<close>. Lemmas: the loop invariant
    \<open>bfs_inv\<close>; termination on non-negative weights (well-founded induction on the sum of
    the distances, proved as "returns \<open>Some\<close>", not assumed); the answer is a lower bound
    of every walk weight and is itself a walk weight or the sentinel; with 0-1 weights a
    shortest walk is shorter than the number of vertices and weighs at most the number of
    undirected edges (cycle cutting on backward walk lists \<open>rpath\<close>), so the sentinels
    \<open>n\<close> of \<^verbatim>\<open>1/better.C\<close> and \<open>m + 1\<close> of \<^verbatim>\<open>1/good.C\<close> are safe. Below \<open>0\<close> the sentinel makes the search answer it everywhere
    but at the start (\<open>bfs_min_distance_negative\<close>).
  \<^item> \<open>Graph_Better\<close>: \<^verbatim>\<open>1/better.C\<close>: the bit-packed records \<open>Arc\<close> (1-bit weight,
    31-bit signed vertex) and \<open>Edge\<close>, \<open>make_arc\<close>, the comparator \<open>less_edge\<close> (with its
    wrapping \<^verbatim>\<open>int\<close> subtraction), \<open>equal_edge\<close>, \<^verbatim>\<open>std::sort\<close> as \<open>sort_key edge_key\<close>
    (any sorted permutation is this one: \<open>std_sort_unique\<close>), \<^verbatim>\<open>std::unique\<close> as
    \<open>std_unique\<close>, \<open>read_edges\<close>, \<open>compactify_graph\<close>, \<open>read_graph\<close>, \<open>graph_adj\<close>,
    \<open>min_distance\<close>, \<open>main_better\<close>. Lemmas: the kept edges are a subset, sorted by source,
    and keep for every (source, target) the lightest weight; the stored graph has the
    walks of the input up to weight; \<open>main_better_correct\<close>.
  \<^item> \<open>Ordered_Map\<close>: \<^verbatim>\<open>std::map\<close> as an association list with strictly increasing keys;
    \<open>omap_update\<close> keeps the order and refines the map update.
  \<^item> \<open>Graph_Good\<close>: \<^verbatim>\<open>1/good.C\<close>: the record \<open>graph\<close>, \<open>graph_init\<close>, the read loop
    \<open>read_edges_good\<close> (store a pair unless a lighter or equal weight is present),
    \<open>read_graph_good\<close>, \<open>good_adj\<close>, \<open>inf_dist\<close>, \<open>min_distance_good\<close>, \<open>main_good\<close>.
    Lemmas: the read loop keeps the invariant \<open>read_inv\<close> (ordered, symmetric, only input
    arcs, every input arc dominated); \<open>main_good_correct\<close>.
  \<^item> \<open>Nfa_Good\<close>: the class \<^verbatim>\<open>Automata\<close> of \<^verbatim>\<open>2/good.C\<close> as the record \<open>automata\<close>
    (\<^verbatim>\<open>_delta\<close> a list of rows of 27 sorted target lists, \<^verbatim>\<open>std::set\<close> as a sorted
    list), the constructor \<open>automata_init\<close> from the parsed counts, terminals and triples,
    Kosaraju's \<open>get_order\<close> (\<open>fill_loop\<close>, \<open>fill_order\<close>), \<open>transposed\<close>,
    \<open>get_components\<close> (\<open>fill_comp_loop\<close>), \<open>compress_components\<close>,
    \<open>add_interconnections\<close> (Kahn's \<open>kahn_loop\<close>) and \<open>become_closure\<close>; every
    \<^verbatim>\<open>while\<close> loop is a \<^theory_text>\<open>partial_function (option)\<close>. The well-formedness
    predicate \<open>nfa_wf\<close> (rows of 27 cells of distinct in-range targets).
  \<^item> \<open>Nfa_Closure\<close>: the closure returns on every well-formed automaton and keeps it
    well-formed (\<open>closure_returns\<close>): each loop ends by nested induction on a measure
    (unmarked states then stack height; \<open>\<epsilon>\<close>-edges left then queue length); \<open>get_order\<close>
    lists every state once, \<open>get_components\<close> is total; the constructor fails exactly
    on an out-of-range terminal, source or symbol (\<open>automata_init_error\<close>).
  \<^item> \<open>Nfa_Scan\<close>: \<^verbatim>\<open>FastAutomata\<close> (\<open>fast_automata\<close>, \<open>fast_init\<close>, \<open>offset_for\<close>,
    \<open>offset_for_transition\<close>, \<open>transitions_number\<close>, \<open>neighbors\<close>, 32-bit offsets),
    \<^verbatim>\<open>getMaxSuitedSubstr\<close> (\<open>scan_state\<close>, \<open>scan_step\<close>, \<open>get_max_suited_substr\<close>)
    and \<^verbatim>\<open>main\<close> (\<open>main_nfa\<close>); evaluated examples: Kosaraju's first pass is not a
    depth-first finishing order, so the closure merges states that are not strongly
    connected (\<open>closure_merges_non_scc\<close>).
  \<^item> \<open>Nfa_Fast\<close>: the constructor of \<^verbatim>\<open>FastAutomata\<close> refines the automaton it
    flattens (\<open>fast_init_refines\<close>, through the abstract layout \<open>layout\<close>/\<open>cell_start\<close>),
    the scan returns on every lower-case text with a factor of it, and \<^verbatim>\<open>main\<close> answers
    every valid input (\<open>main_nfa_returns\<close>).
  \<^item> \<open>Nfa_Match\<close>: what the scan computes. \<open>reach\<close> runs the automaton on a word over its
    letter columns, \<open>accepts\<close> and \<open>longest_accepted\<close> (the length of a longest non-empty
    accepted factor) specify the answer; the scan's invariant (\<open>cur_ok\<close>: the earliest start
    of a run to each state; \<open>best_ok\<close>: the best pair dominates every accepted factor seen)
    is stated over the interface \<open>fast_of\<close> of \<^verbatim>\<open>FastAutomata\<close>, and gives that
    \<^verbatim>\<open>getMaxSuitedSubstr\<close> returns a longest accepted factor
    (\<open>get_max_suited_substr_longest\<close>) and that \<^verbatim>\<open>main\<close> prints one for the closure
    automaton, or \<^verbatim>\<open>No solution\<close> (\<open>main_nfa_longest\<close>). The closure is not proved to
    keep the language of the \<open>\<epsilon>\<close>-NFA: \<open>closure_merges_non_scc\<close> shows it does not.
  \<^item> \<open>Nfa_Better\<close>: \<^verbatim>\<open>2/better.C\<close>: the bit-fields \<^verbatim>\<open>Target\<close> (5-bit symbol, 11-bit
    state) as the record \<open>target\<close>, \<open>get_symbol\<close>, \<open>put_symbol\<close>, \<open>less_tr\<close>,
    \<open>read_terminals\<close>, \<open>read_transitions\<close>, \<open>read_automata\<close> (all its \<^verbatim>\<open>main\<close>
    does) and \<^verbatim>\<open>find_epsilon_components\<close> (\<open>invert_row\<close>, \<open>raw_inverted\<close>,
    \<open>flood\<close>, \<open>components_loop_b\<close>). \<^verbatim>\<open>std::sort\<close> with the source-only comparator
    leaves the order within a source unspecified, so the sort is a parameter \<open>srt\<close>
    constrained by \<open>sort_spec\<close> (a permutation sorted by \<^verbatim>\<open>less\<close>), and the theorems hold
    for every such sort. Lemmas: reading refines the input row by row as multisets
    (\<open>read_automata_correct\<close>) and is well-typed for \<open>n \<le> 2048\<close>
    (\<open>read_automata_typed\<close>); the symbol field round-trips, the state field wraps at
    2048; \<^verbatim>\<open>find_epsilon_components\<close> is undefined on every automaton with an
    \<open>\<epsilon>\<close>-edge and labels every state \<open>0\<close> otherwise.
  \<^item> This theory: the two shortest-path programs print the same number on every input
    both accept (\<open>good_better_agree\<close>).

  \<^bold>\<open>Inputs and bounds.\<close> Each program is modelled from the values \<^verbatim>\<open>scanf\<close> stores to
  the value it prints; an out-of-range vector access or a failed assertion is \<open>None\<close>.
  The correctness theorems assume the limits under which the code is meant to work:
  \<open>n \<le> 2 ^ 30\<close> and fewer than \<open>2 ^ 30\<close> edges for \<^verbatim>\<open>1/better.C\<close> (the vertex field has
  31 bits, the edge array \<open>2 m\<close> entries indexed by \<^verbatim>\<open>int32_t\<close>), \<open>m < 2 ^ 31 - 1\<close> for
  \<^verbatim>\<open>1/good.C\<close> (its sentinel \<open>m + 1\<close> is an \<^verbatim>\<open>int\<close>); the theorems
  \<open>arc_vertex_31_wraps\<close> and \<open>inf_dist_wraps\<close> show what happens beyond them. Distances
  are unbounded integers: under these limits they stay below the sentinel, so the
  \<^verbatim>\<open>int\<close> arithmetic of the source does not overflow.

  For \<^verbatim>\<open>2/good.C\<close> the model starts from the parsed counts, terminal states,
  transitions and text line. The closure needs no bound; the \<^verbatim>\<open>FastAutomata\<close> table
  (\<open>27 n\<close> offsets plus every target) must have fewer than \<open>2 ^ 32\<close> entries, as its
  offsets are \<^verbatim>\<open>unsigned int\<close>; since the cells hold distinct targets below \<open>n\<close>,
  \<open>n * 27 * (n + 1) < 2 ^ 32\<close> suffices, and \<open>main_nfa_returns\<close> assumes it; the correctness of the scan also assumes a
  text of at most \<^verbatim>\<open>UINT_MAX\<close> characters, since start indices are stored in
  \<^verbatim>\<open>unsigned int\<close> arrays whose sentinel is \<^verbatim>\<open>UINT_MAX\<close>. The size of
  \<^verbatim>\<open>_is_terminal\<close> is indeterminate in the source (initialisation order), a parameter
  \<open>isz\<close> assumed at least \<open>n\<close>. For \<^verbatim>\<open>2/better.C\<close> \<open>m\<close> is a \<^verbatim>\<open>uint16_t\<close>
  (\<open>m < 2 ^ 16\<close>), and the stored state is exact only for \<open>n \<le> 2048\<close>.

  \<^bold>\<open>Not modelled.\<close> Input and output themselves (\<^verbatim>\<open>scanf\<close>, \<^verbatim>\<open>printf\<close>, \<^verbatim>\<open>puts\<close>,
  \<^verbatim>\<open>std::cin\<close>, \<^verbatim>\<open>getline\<close>, including the extra \<^verbatim>\<open>getline\<close> of \<^verbatim>\<open>2/good.C\<close> that
  skips the rest of the transition line). \<^verbatim>\<open>Comb::reserve\<close> and
  \<^verbatim>\<open>std::vector::reserve\<close> (capacity hints). The one-line accessors of the two
  automaton classes (\<^verbatim>\<open>isTerminal\<close>, \<^verbatim>\<open>getEntrance\<close>, \<^verbatim>\<open>statesNumber\<close>,
  \<^verbatim>\<open>operator[]\<close>, \<^verbatim>\<open>begin\<close>/\<^verbatim>\<open>end\<close>) are record selections and list reads inline in
  the operations that call them. \<^verbatim>\<open>2/better.C\<close> does not compile as written: its
  \<^verbatim>\<open>find_epsilon_components\<close> calls \<^verbatim>\<open>Comb::size\<close>, which \<^verbatim>\<open>comb.h\<close> does not
  declare, only to reserve capacity; the function is modelled as written otherwise, and
  \<^verbatim>\<open>main\<close> never calls it.
\<close>

section \<open>The two shortest-path programs agree\<close>

text \<open>A common input: 1-based triples of naturals, read by \<^verbatim>\<open>1/better.C\<close> into \<^verbatim>\<open>int32_t\<close>
  vertices and an \<^verbatim>\<open>unsigned\<close> weight and by \<^verbatim>\<open>1/good.C\<close> into \<^verbatim>\<open>size_t\<close> vertices and an
  \<^verbatim>\<open>int\<close> weight, and the graph both describe.\<close>

definition to_better :: "(nat \<times> nat \<times> nat) list \<Rightarrow> (int32 \<times> int32 \<times> 32 word) list" where
  "to_better T = map (\<lambda>(s, d, w). (of_nat s, of_nat d, of_nat w)) T"

definition to_good :: "(nat \<times> nat \<times> nat) list \<Rightarrow> (size_t \<times> size_t \<times> int32) list" where
  "to_good T = map (\<lambda>(s, d, w). (of_nat s, of_nat d, of_nat w)) T"

definition triples_ok :: "nat \<Rightarrow> (nat \<times> nat \<times> nat) list \<Rightarrow> bool" where
  "triples_ok n T \<longleftrightarrow> list_all (\<lambda>(s, d, w). 1 \<le> s \<and> s \<le> n \<and> 1 \<le> d \<and> d \<le> n \<and> w \<le> 1) T"

definition nat_adj :: "(nat \<times> nat \<times> nat) list \<Rightarrow> adjacency" where
  "nat_adj T v =
     Some (concat (map (\<lambda>(s, d, w).
        (if s - 1 = v then [(d - 1, int w)] else []) @ (if d - 1 = v then [(s - 1, int w)] else [])) T))"

lemma sint_of_nat_small: "k < 2 ^ 31 \<Longrightarrow> sint (of_nat k :: int32) = int k"
  by (simp add: signed_of_nat signed_take_bit_int_eq_self)

lemma uint_of_nat_small: "k < 2 ^ 32 \<Longrightarrow> uint (of_nat k :: 32 word) = int k"
  by (simp add: uint_nat unat_of_nat_below)

lemma input_adj_to_better:
  assumes "triples_ok n T" and "n \<le> 2 ^ 30"
  shows "input_adj (to_better T) = nat_adj T"
proof -
  have "\<And>s d w. (s, d, w) \<in> set T \<Longrightarrow> s < 2 ^ 31 \<and> d < 2 ^ 31 \<and> w < 2 ^ 32 \<and> 1 \<le> s \<and> 1 \<le> d"
    using assms by (fastforce simp: triples_ok_def list_all_iff)
  then show ?thesis
    by (auto simp: fun_eq_iff input_adj_def nat_adj_def to_better_def sint_of_nat_small uint_of_nat_small
        intro!: arg_cong[where f = concat] map_cong)
qed


lemma input_adj_to_good:
  assumes "triples_ok n T" and "n \<le> 2 ^ 30"
  shows "input_adj_good (to_good T) = nat_adj T"
proof -
  have "\<And>s d w. (s, d, w) \<in> set T \<Longrightarrow> s < 2 ^ 64 \<and> d < 2 ^ 64 \<and> w < 2 ^ 31"
    using assms by (fastforce simp: triples_ok_def list_all_iff)
  then show ?thesis
    by (auto simp: fun_eq_iff input_adj_good_def nat_adj_def to_good_def sint_of_nat_small unat_of_nat_below
        intro!: arg_cong[where f = concat] map_cong)
qed

lemma valid_to_better:
  assumes "triples_ok n T" and "1 \<le> n" and "n \<le> 2 ^ 30" and "length T < 2 ^ 30"
    and "1 \<le> a" and "a \<le> n" and "1 \<le> b" and "b \<le> n"
  shows "valid_input (of_nat n) (of_nat a) (of_nat b) (to_better T)"
proof -
  have "n < 2 ^ 31" "a < 2 ^ 31" "b < 2 ^ 31" using assms by simp_all
  moreover have "\<forall>(s, d, w) \<in> set T. 1 \<le> s \<and> s \<le> n \<and> 1 \<le> d \<and> d \<le> n \<and> w \<le> 1"
    using assms(1) by (simp add: triples_ok_def list_all_iff)
  moreover have "(of_nat w :: 32 word) \<le> 1" if "w \<le> 1" for w
    using that by (cases w) (simp_all add: le_Suc_eq)
  ultimately show ?thesis using assms
    by (fastforce simp: valid_input_def to_better_def sint_of_nat_small)
qed

lemma valid_to_good:
  assumes "triples_ok n T" and "1 \<le> n" and "n \<le> 2 ^ 30" and "length T < 2 ^ 30"
    and "1 \<le> a" and "a \<le> n" and "1 \<le> b" and "b \<le> n"
  shows "valid_input_good (of_nat n) (of_nat (length T)) (of_nat a) (of_nat b) (to_good T)"
proof -
  have lt: "n < 2 ^ LENGTH(32)" "a < 2 ^ LENGTH(32)" "b < 2 ^ LENGTH(32)" "length T < 2 ^ LENGTH(32)"
    using assms by simp_all
  have un: "unat (of_nat n :: 32 word) = n" "unat (of_nat a :: 32 word) = a"
    "unat (of_nat b :: 32 word) = b" "unat (of_nat (length T) :: 32 word) = length T"
    using lt by (simp_all only: unat_of_nat_below)
  have w: "0 < (of_nat n :: 32 word)" "1 \<le> (of_nat a :: 32 word)" "(of_nat a :: 32 word) \<le> of_nat n"
    "1 \<le> (of_nat b :: 32 word)" "(of_nat b :: 32 word) \<le> of_nat n"
    using assms(2,5-8) by (simp_all add: word_less_nat_alt word_le_nat_alt un)
  have t: "1 \<le> unat s \<and> unat s \<le> unat (of_nat n :: 32 word) \<and> 1 \<le> unat e \<and> unat e \<le> unat (of_nat n :: 32 word) \<and>
           0 \<le> sint w \<and> sint w \<le> 1" if st: "(s, e, w) \<in> set (to_good T)" for s e w
  proof -
    obtain s0 e0 w0 where "(s0, e0, w0) \<in> set T" and q: "s = of_nat s0" "e = of_nat e0" "w = of_nat w0"
      using st by (auto simp: to_good_def)
    then have b: "1 \<le> s0 \<and> s0 \<le> n \<and> 1 \<le> e0 \<and> e0 \<le> n \<and> w0 \<le> 1"
      using assms(1) by (auto simp: triples_ok_def list_all_iff)
    then have "s0 < 2 ^ LENGTH(64)" "e0 < 2 ^ LENGTH(64)" "w0 < 2 ^ 31" using assms(3) by simp_all
    then have "unat s = s0" "unat e = e0" "sint w = int w0"
      using q by (simp_all only: unat_of_nat_below sint_of_nat_small)
    then show ?thesis using b un(1) by simp
  qed
  have "length (to_good T) = unat (of_nat (length T) :: 32 word)" using un(4) by (simp add: to_good_def)
  moreover have "unat (of_nat (length T) :: 32 word) < 2 ^ 31 - 1" using un(4) assms(4) by simp
  ultimately show ?thesis using w t unfolding valid_input_good_def by blast
qed


lemma good_better_agree_spec:
  assumes ok: "triples_ok n T" and n: "1 \<le> n" "n \<le> 2 ^ 30" and m: "length T < 2 ^ 30"
    and a: "1 \<le> a" "a \<le> n" and b: "1 \<le> b" "b \<le> n"
  shows "\<exists>r. main_good (of_nat n) (of_nat (length T)) (of_nat a) (of_nat b) (to_good T) = Some r \<and>
             main_better (of_nat n) (of_nat a) (of_nat b) (to_better T) = Some r"
proof -
  let ?W = "walk (nat_adj T) (a - 1) (b - 1)"
  have sa: "nat (sint (of_nat a :: int32) - 1) = a - 1" "nat (sint (of_nat b :: int32) - 1) = b - 1"
    using n a b by (simp_all add: sint_of_nat_small)
  have ua: "unat (of_nat a :: 32 word) - 1 = a - 1" "unat (of_nat b :: 32 word) - 1 = b - 1"
    using n a b by (simp_all add: unat_of_nat_below)
  obtain rb where rb: "main_better (of_nat n) (of_nat a) (of_nat b) (to_better T) = Some rb"
    and rb1: "(\<exists>d. ?W d) \<longrightarrow> ?W rb \<and> (\<forall>d. ?W d \<longrightarrow> rb \<le> d)" and rb2: "\<not> (\<exists>d. ?W d) \<longrightarrow> rb = -1"
    using main_better_spec[OF valid_to_better[OF ok n m a b]]
    unfolding input_adj_to_better[OF ok n(2)] sa by blast
  obtain rg where rg: "main_good (of_nat n) (of_nat (length T)) (of_nat a) (of_nat b) (to_good T) = Some rg"
    and rg1: "(\<exists>d. ?W d) \<longrightarrow> ?W rg \<and> (\<forall>d. ?W d \<longrightarrow> rg \<le> d)" and rg2: "\<not> (\<exists>d. ?W d) \<longrightarrow> rg = -1"
    using main_good_spec[OF valid_to_good[OF ok n m a b]]
    unfolding input_adj_to_good[OF ok n(2)] ua by blast
  have "rg = rb"
  proof (cases "\<exists>d. ?W d")
    case True
    then show ?thesis using rb1 rg1 by (meson order_antisym)
  next
    case False
    then show ?thesis using rb2 rg2 by simp
  qed
  then show ?thesis using rb rg by blast
qed

text \<open>
  C3. Equivalence of the two shortest-path programs: on every input within the limits of
  both (\<open>1 \<le> n \<le> 2 ^ 30\<close>, fewer than \<open>2 ^ 30\<close> edges, endpoints in \<open>1 .. n\<close>, weights 0
  or 1), \<^verbatim>\<open>1/good.C\<close> and \<^verbatim>\<open>1/better.C\<close> both run to completion and print the same
  number.
\<close>

theorem good_better_agree:
  assumes "triples_ok n T" and "1 \<le> n" and "n \<le> 2 ^ 30" and "length T < 2 ^ 30"
    and "1 \<le> a" and "a \<le> n" and "1 \<le> b" and "b \<le> n"
  shows "\<exists>r. main_good (of_nat n) (of_nat (length T)) (of_nat a) (of_nat b) (to_good T) = Some r \<and>
             main_better (of_nat n) (of_nat a) (of_nat b) (to_better T) = Some r"
  using good_better_agree_spec[OF assms] .

section \<open>Witnesses\<close>

theorem good_better_agree_witness:
  "triples_ok 4 [(1, 2, 0), (2, 3, 1), (3, 4, 0), (1, 4, 1)] \<and> (1 :: nat) \<le> 4 \<and> (4 :: nat) \<le> 2 ^ 30 \<and> length [(1, 2, 0), (2, 3, 1), (3, 4, 0), (1, 4, 1)] < 2 ^ 30 \<and>
   (1 :: nat) \<le> 1 \<and> (1 :: nat) \<le> 4 \<and> (1 :: nat) \<le> 4 \<and> (4 :: nat) \<le> 4 \<and>
   (\<exists>r. main_good (of_nat 4) (of_nat (length [(1, 2, 0), (2, 3, 1), (3, 4, 0), (1, 4, 1)])) (of_nat 1) (of_nat 4) (to_good [(1, 2, 0), (2, 3, 1), (3, 4, 0), (1, 4, 1)]) = Some r \<and>
        main_better (of_nat 4) (of_nat 1) (of_nat 4) (to_better [(1, 2, 0), (2, 3, 1), (3, 4, 0), (1, 4, 1)]) = Some r)"
proof -
  have ok: "triples_ok 4 [(1, 2, 0), (2, 3, 1), (3, 4, 0), (1, 4, 1)]" by (simp add: triples_ok_def)
  show ?thesis using ok good_better_agree[OF ok, of 1 4] by simp
qed

end
